(* ===== verification/CBase.thy ===== *)
theory CBase
  imports Complex_Main "HOL-Library.Word" "HOL-Library.Code_Target_Nat"
begin

unbundle bit_operations_syntax

text \<open>
  The base of the development: what the C sources of \<^verbatim>\<open>server/\<close> use of the language and of
  its standard library, and nothing about the program itself.

  \<^item> undefined behaviour as a value: \<open>fault\<close> and the sequencing \<open>bindF\<close> of
    computations that may fault;
  \<^item> C strings as character lists without the terminating NUL, \<open>strcpy\<close> into a buffer of a
    given capacity, the truncation of \<open>snprintf\<close>, \<open>strchr\<close> used to cut a string at a
    delimiter, and \<open>strtok_r\<close> with a one-character delimiter set;
  \<^item> the decimal output of \<open>%ld\<close>, \<open>%d\<close> and \<open>%zu\<close>;
  \<^item> the truncating integer remainder of C;
  \<^item> the limits of \<^verbatim>\<open>server/config.h\<close>;
  \<^item> the theorem collections and the generic lemmas that the component theories share.
\<close>

section \<open>Theorem collections\<close>

named_theorems fault_simps \<open>equations that run a computation which may fault\<close>
named_theorems len_bounds \<open>upper bounds of the lengths of printed texts\<close>
named_theorems wf_intros \<open>preservation of the components' invariants\<close>

section \<open>Undefined behaviour as a value\<close>

datatype fault = Out_of_bounds | Signed_overflow | Null_pointer

definition bindF :: "fault + 'a \<Rightarrow> ('a \<Rightarrow> fault + 'b) \<Rightarrow> fault + 'b" where
  "bindF m f = (case m of Inl e \<Rightarrow> Inl e | Inr x \<Rightarrow> f x)"

definition no_fault :: "fault + 'a \<Rightarrow> bool" where
  "no_fault m = (case m of Inl _ \<Rightarrow> False | Inr _ \<Rightarrow> True)"

lemma bindF_Inr [simp, fault_simps]: "bindF (Inr x) f = f x"
  by (simp add: bindF_def)

lemma bindF_Inl [simp, fault_simps]: "bindF (Inl e) f = Inl e"
  by (simp add: bindF_def)

lemma bindF_eq_Inr: "bindF m f = Inr y \<longleftrightarrow> (\<exists>x. m = Inr x \<and> f x = Inr y)"
  by (cases m) auto

lemma bindF_cong [fundef_cong]:
  "m = m' \<Longrightarrow> (\<And>x. m' = Inr x \<Longrightarrow> f x = g x) \<Longrightarrow> bindF m f = bindF m' g"
  by (cases m') auto

lemma no_fault_Inr [simp]: "no_fault (Inr x)"
  by (simp add: no_fault_def)

lemma no_fault_Inl [simp]: "\<not> no_fault (Inl e)"
  by (simp add: no_fault_def)

lemma no_fault_iff: "no_fault m \<longleftrightarrow> (\<exists>x. m = Inr x)"
  by (cases m) auto

section \<open>Integers\<close>

text \<open>\<open>int\<close> is 32 bits and \<open>long\<close> 64 bits wide on the target; \<open>/\<close> and \<open>%\<close> truncate.\<close>

definition INT_MAX :: int where
  "INT_MAX = 2147483647"

definition LONG_MAX :: int where
  "LONG_MAX = 9223372036854775807"

definition c_rem :: "int \<Rightarrow> int \<Rightarrow> int" where
  "c_rem a b = (if 0 \<le> a then a mod \<bar>b\<bar> else - ((- a) mod \<bar>b\<bar>))"

lemma c_rem_nonneg [simp]: "0 \<le> a \<Longrightarrow> 0 < b \<Longrightarrow> c_rem a b = a mod b"
  by (simp add: c_rem_def)

section \<open>The limits of the server\<close>

definition MAX_LINE :: nat where "MAX_LINE = 1024"

definition MAX_ARGS :: nat where "MAX_ARGS = 8"

definition MAX_NODE_ID :: nat where "MAX_NODE_ID = 16"

definition MAX_VARS :: nat where "MAX_VARS = 8"

definition MAX_VAR_NAME :: nat where "MAX_VAR_NAME = 8"

definition MAX_NODES :: nat where "MAX_NODES = 64"

definition MAX_ALERTS :: nat where "MAX_ALERTS = 128"

definition ACTIVE_TIMEOUT :: int where "ACTIVE_TIMEOUT = 15"

definition MAX_SESSION :: nat where "MAX_SESSION = 33"

definition SESSION_LIMIT :: nat where "SESSION_LIMIT = 65536"

lemmas config_defs =
  MAX_LINE_def MAX_ARGS_def MAX_NODE_ID_def MAX_VARS_def MAX_VAR_NAME_def
  MAX_NODES_def MAX_ALERTS_def ACTIVE_TIMEOUT_def MAX_SESSION_def SESSION_LIMIT_def

section \<open>C strings\<close>

text \<open>A C string is the characters before its NUL.\<close>

definition c_str :: "string \<Rightarrow> string" where
  "c_str buf = takeWhile (\<lambda>c. c \<noteq> CHR 0x00) buf"

definition char_code :: "char \<Rightarrow> nat" where
  "char_code c = of_char c"

definition is_digit_char :: "char \<Rightarrow> bool" where
  "is_digit_char c = (48 \<le> char_code c \<and> char_code c \<le> 57)"

text \<open>\<open>isalnum\<close> in the \<open>C\<close> locale, which the program never leaves.\<close>

definition is_alnum_char :: "char \<Rightarrow> bool" where
  "is_alnum_char c =
     (is_digit_char c \<or> (65 \<le> char_code c \<and> char_code c \<le> 90) \<or>
      (97 \<le> char_code c \<and> char_code c \<le> 122))"

text \<open>\<open>strcpy\<close> into a buffer of \<open>cap\<close> bytes: the NUL needs a byte too.\<close>

definition strcpy :: "nat \<Rightarrow> string \<Rightarrow> fault + string" where
  "strcpy cap s = (if length s < cap then Inr s else Inl Out_of_bounds)"

text \<open>\<open>snprintf\<close> into a buffer of \<open>cap\<close> bytes keeps at most \<open>cap - 1\<close> characters.\<close>

definition snprintf :: "nat \<Rightarrow> string \<Rightarrow> string" where
  "snprintf cap s = take (cap - 1) s"

lemma strcpy_fits [simp]: "length s < cap \<Longrightarrow> strcpy cap s = Inr s"
  by (simp add: strcpy_def)

lemma snprintf_fits [simp]: "length s < cap \<Longrightarrow> snprintf cap s = s"
  by (simp add: snprintf_def)

lemma length_snprintf: "0 < cap \<Longrightarrow> length (snprintf cap s) < cap"
  by (auto simp: snprintf_def)

text \<open>
  \<open>next = strchr(p, d); *next = 0\<close>: the text before the first delimiter, and the text after
  it when there is one.
\<close>

fun cut_at :: "char \<Rightarrow> string \<Rightarrow> string \<times> string option" where
  "cut_at d [] = ([], None)"
| "cut_at d (c # cs) =
     (if c = d then ([], Some cs) else (let (a, r) = cut_at d cs in (c # a, r)))"

lemma cut_at_eq:
  "cut_at d s = (takeWhile (\<lambda>c. c \<noteq> d) s, if d \<in> set s then Some (tl (dropWhile (\<lambda>c. c \<noteq> d) s)) else None)"
  by (induction s) auto

lemma cut_at_None: "cut_at d s = (p, None) \<longleftrightarrow> p = s \<and> d \<notin> set s"
proof -
  have "d \<notin> set s \<Longrightarrow> takeWhile (\<lambda>c. c \<noteq> d) s = s"
    by (induction s) auto
  then show ?thesis by (auto simp: cut_at_eq)
qed

lemma cut_at_append [simp]: "d \<notin> set p \<Longrightarrow> cut_at d (p @ d # r) = (p, Some r)"
  by (induction p) auto

lemma cut_at_SomeD: "cut_at d s = (p, Some r) \<Longrightarrow> s = p @ d # r \<and> d \<notin> set p"
proof (induction s arbitrary: p)
  case Nil
  then show ?case by simp
next
  case (Cons c s)
  obtain a y where "cut_at d s = (a, y)" by (cases "cut_at d s")
  with Cons show ?case by (auto split: if_splits)
qed

lemma cut_at_Some: "cut_at d s = (p, Some r) \<longleftrightarrow> s = p @ d # r \<and> d \<notin> set p"
  using cut_at_SomeD by (metis cut_at_append)

lemma cut_at_absent [simp]: "d \<notin> set s \<Longrightarrow> cut_at d s = (s, None)"
  by (simp add: cut_at_None)

lemma cut_at_length: "cut_at d s = (p, Some r) \<Longrightarrow> length r < length s"
  by (auto simp: cut_at_Some)

lemma cut_at_shorter: "(p, Some r) = cut_at d s \<Longrightarrow> length r < length s"
  by (rule cut_at_length) (rule sym)

text \<open>Joining fields with a one-character separator.\<close>

fun join :: "char \<Rightarrow> string list \<Rightarrow> string" where
  "join d [] = []"
| "join d [f] = f"
| "join d (f # fs) = f @ d # join d fs"

lemma join_Cons: "fs \<noteq> [] \<Longrightarrow> join d (f # fs) = f @ d # join d fs"
  by (cases fs) auto

text \<open>
  \<open>strtok_r\<close> with a one-character set: runs of the delimiter are skipped, so an empty field is
  never returned.
\<close>

function strtok_all :: "char \<Rightarrow> string \<Rightarrow> string list" where
  "strtok_all d s =
     (case dropWhile (\<lambda>c. c = d) s of
        [] \<Rightarrow> []
      | c # cs \<Rightarrow>
          (case cut_at d (c # cs) of
             (t, None) \<Rightarrow> [t]
           | (t, Some rest) \<Rightarrow> t # strtok_all d rest))"
  by pat_completeness auto
termination
proof (relation "measure (\<lambda>(d, s). length s)", goal_cases)
  case 1
  show ?case by simp
next
  case (2 d s c cs t opt rest)
  then have "length rest < length (c # cs)"
    by (metis cut_at_length)
  also have "\<dots> \<le> length s"
    using 2(1) by (metis length_dropWhile_le)
  finally show ?case by simp
qed

declare strtok_all.simps [simp del]

lemma strtok_all_Nil [simp]: "strtok_all d [] = []"
  by (simp add: strtok_all.simps)

lemma strtok_all_single:
  assumes "f \<noteq> []" and "d \<notin> set f"
  shows "strtok_all d f = [f]"
  using assms by (cases f) (auto simp: strtok_all.simps)

lemma strtok_all_Cons:
  assumes "f \<noteq> []" and "d \<notin> set f"
  shows "strtok_all d (f @ d # r) = f # strtok_all d r"
proof -
  obtain c cs where f: "f = c # cs" using assms(1) by (cases f) auto
  have "cut_at d (c # (cs @ d # r)) = (f, Some r)"
    using assms(2) f cut_at_append [of d f r] by simp
  then show ?thesis
    using assms(2) f by (subst strtok_all.simps) auto
qed

lemma strtok_all_join:
  "(\<And>f. f \<in> set fs \<Longrightarrow> f \<noteq> [] \<and> d \<notin> set f) \<Longrightarrow> strtok_all d (join d fs) = fs"
proof (induction fs)
  case Nil
  then show ?case by simp
next
  case (Cons f fs)
  then show ?case
    by (cases "fs = []") (auto simp: join_Cons strtok_all_single strtok_all_Cons)
qed

section \<open>Printed integers\<close>

definition digit_char :: "nat \<Rightarrow> char" where
  "digit_char n = char_of (48 + n)"

fun show_nat :: "nat \<Rightarrow> string" where
  "show_nat n = (if n < 10 then [digit_char n] else show_nat (n div 10) @ [digit_char (n mod 10)])"

declare show_nat.simps [simp del]

text \<open>\<open>%ld\<close> and \<open>%d\<close>.\<close>

definition show_int :: "int \<Rightarrow> string" where
  "show_int i = (if i < 0 then CHR ''-'' # show_nat (nat (- i)) else show_nat (nat i))"

text \<open>\<open>%02ld\<close>, for the values below 100 that the server prints with it.\<close>

definition show_02 :: "nat \<Rightarrow> string" where
  "show_02 n = (if n < 10 then CHR ''0'' # show_nat n else show_nat n)"

lemma char_code_digit [simp]: "n < 10 \<Longrightarrow> char_code (digit_char n) = 48 + n"
  by (simp add: char_code_def digit_char_def)

lemma is_digit_digit [simp]: "n < 10 \<Longrightarrow> is_digit_char (digit_char n)"
  by (simp add: is_digit_char_def)

lemma show_nat_digits: "c \<in> set (show_nat n) \<Longrightarrow> is_digit_char c"
proof (induction n arbitrary: c rule: show_nat.induct)
  case (1 n)
  then show ?case
    by (cases "n < 10") (auto simp: show_nat.simps[of n])
qed

lemma show_nat_nonempty [simp]: "show_nat n \<noteq> []"
  by (subst show_nat.simps) simp

lemma length_show_nat: "0 < k \<Longrightarrow> n < 10 ^ k \<Longrightarrow> length (show_nat n) \<le> k"
proof (induction n arbitrary: k rule: show_nat.induct)
  case (1 n)
  show ?case
  proof (cases "n < 10")
    case True
    with 1(2) show ?thesis by (simp add: show_nat.simps[of n])
  next
    case False
    obtain j where j: "k = Suc j" using 1(2) by (cases k) auto
    have j0: "0 < j" using False 1(3) j by (cases j) auto
    have "n div 10 < 10 ^ j"
      using 1(3) j by (simp add: less_mult_imp_div_less mult.commute)
    then have "length (show_nat (n div 10)) \<le> j"
      using 1(1) False j0 by blast
    then show ?thesis using False j by (simp add: show_nat.simps[of n])
  qed
qed

lemma length_show_int:
  assumes "0 < k" and "\<bar>i\<bar> < 10 ^ k"
  shows "length (show_int i) \<le> Suc k"
proof -
  have "int (nat \<bar>i\<bar>) < int (10 ^ k)" using assms(2) by simp
  then have "nat \<bar>i\<bar> < 10 ^ k" by (simp only: of_nat_less_iff)
  with assms(1) have "length (show_nat (nat \<bar>i\<bar>)) \<le> k" by (rule length_show_nat)
  then show ?thesis by (cases "i < 0") (simp_all add: show_int_def)
qed

lemma length_show_int_nonneg:
  assumes "0 < k" and "0 \<le> i" and "i < 10 ^ k"
  shows "length (show_int i) \<le> k"
proof -
  have "int (nat i) < int (10 ^ k)" using assms(2,3) by simp
  then have "nat i < 10 ^ k" by (simp only: of_nat_less_iff)
  with assms(1) have "length (show_nat (nat i)) \<le> k" by (rule length_show_nat)
  then show ?thesis using assms(2) by (simp add: show_int_def)
qed

lemma set_show_int: "c \<in> set (show_int i) \<Longrightarrow> c = CHR ''-'' \<or> is_digit_char c"
  by (auto simp: show_int_def dest: show_nat_digits split: if_splits)

lemma show_int_nonempty [simp]: "show_int i \<noteq> []"
  by (simp add: show_int_def)

section \<open>Lists\<close>

lemma takeWhile_all: "(\<And>x. x \<in> set xs \<Longrightarrow> P x) \<Longrightarrow> takeWhile P xs = xs \<and> dropWhile P xs = []"
  by (induction xs) auto

section \<open>Arrays\<close>

text \<open>The first index of an array whose element satisfies a test: a \<open>for\<close> loop with \<open>return\<close>.\<close>

fun find_index :: "('a \<Rightarrow> bool) \<Rightarrow> 'a list \<Rightarrow> nat option" where
  "find_index P [] = None"
| "find_index P (x # xs) = (if P x then Some 0 else map_option Suc (find_index P xs))"

lemma find_index_None: "find_index P xs = None \<longleftrightarrow> (\<forall>x \<in> set xs. \<not> P x)"
  by (induction xs) auto

lemma find_index_Some:
  "find_index P xs = Some i \<longleftrightarrow> i < length xs \<and> P (xs ! i) \<and> (\<forall>j < i. \<not> P (xs ! j))"
proof (induction xs arbitrary: i)
  case Nil
  then show ?case by simp
next
  case (Cons x xs)
  then show ?case
    by (cases i) (auto simp: less_Suc_eq_0_disj)
qed

lemma find_index_SomeD:
  "find_index P xs = Some i \<Longrightarrow> i < length xs \<and> P (xs ! i)"
  by (simp add: find_index_Some)

lemma find_index_unique:
  assumes "i < length xs" and "P (xs ! i)"
    and "\<And>j. j < length xs \<Longrightarrow> P (xs ! j) \<Longrightarrow> j = i"
  shows "find_index P xs = Some i"
proof (cases "find_index P xs")
  case None
  with assms(1,2) show ?thesis by (auto simp: find_index_None)
next
  case (Some j)
  then have "j < length xs \<and> P (xs ! j)" by (rule find_index_SomeD)
  then have "j = i" using assms(3) by blast
  with Some show ?thesis by simp
qed

lemma find_index_replicate [simp]:
  "find_index P (replicate n x) = (if 0 < n \<and> P x then Some 0 else None)"
  by (induction n) auto

end
