(* ===== verification/Binary64.thy ===== *)
theory Binary64
  imports CBase
begin

text \<open>
  The C type \<open>double\<close> as the program uses it: the finite values and the infinities of IEEE
  binary64 (no operation of the program produces a NaN), the comparisons, \<open>strtod\<close> on decimal
  text with its \<open>ERANGE\<close> report and its end pointer, and the output of \<open>%.2f\<close>.

  A finite value is a sign, a mantissa and a binary exponent, so that minus zero keeps its sign.
  \<open>strtod\<close> rounds the exact decimal value to the nearest binary64, ties to even, as the C library
  of the image (glibc) does; it reports \<open>ERANGE\<close> on overflow and on an inexact result that is
  tiny after rounding. \<open>%.2f\<close> rounds the exact binary value, ties to even. No call of the program
  passes text with leading space, hexadecimal digits or the words for infinity and NaN, so only
  decimal text is read here. The order of the values is an instance of the library's
  \<open>preorder\<close> class (the two zeros are equivalent and not equal).
\<close>

section \<open>Values and comparisons\<close>

datatype binary64 = Fin bool nat int | Inf bool

fun smant :: "bool \<Rightarrow> nat \<Rightarrow> int" where
  "smant s m = (if s then - int m else int m)"

fun val64 :: "binary64 \<Rightarrow> real" where
  "val64 (Fin s m e) = real_of_int (smant s m) * 2 powi e"
| "val64 (Inf s) = 0"

fun is_finite64 :: "binary64 \<Rightarrow> bool" where
  "is_finite64 (Fin _ _ _) = True"
| "is_finite64 (Inf _) = False"

text \<open>Two mantissas at the smaller of the two exponents.\<close>

definition align :: "bool \<Rightarrow> nat \<Rightarrow> int \<Rightarrow> int \<Rightarrow> int" where
  "align s m e k = smant s m * 2 ^ nat (e - k)"

fun le64 :: "binary64 \<Rightarrow> binary64 \<Rightarrow> bool" where
  "le64 (Fin s m e) (Fin t n f) = (align s m e (min e f) \<le> align t n f (min e f))"
| "le64 (Fin _ _ _) (Inf t) = (\<not> t)"
| "le64 (Inf s) (Fin _ _ _) = s"
| "le64 (Inf s) (Inf t) = (s \<or> \<not> t)"

fun lt64 :: "binary64 \<Rightarrow> binary64 \<Rightarrow> bool" where
  "lt64 (Fin s m e) (Fin t n f) = (align s m e (min e f) < align t n f (min e f))"
| "lt64 (Fin _ _ _) (Inf t) = (\<not> t)"
| "lt64 (Inf s) (Fin _ _ _) = s"
| "lt64 (Inf s) (Inf t) = (s \<and> \<not> t)"

text \<open>\<open>x == 0.0\<close>; both zeros are equal to it.\<close>

fun is_zero64 :: "binary64 \<Rightarrow> bool" where
  "is_zero64 (Fin _ m _) = (m = 0)"
| "is_zero64 (Inf _) = False"

text \<open>A whole number, exactly.\<close>

definition int64 :: "int \<Rightarrow> binary64" where
  "int64 i = Fin (i < 0) (nat \<bar>i\<bar>) 0"

lemma val64_int64 [simp]: "val64 (int64 i) = real_of_int i"
  by (simp add: int64_def)

lemma is_finite_int64 [simp]: "is_finite64 (int64 i)"
  by (simp add: int64_def)

lemma val64_align:
  assumes "k \<le> e"
  shows "val64 (Fin s m e) = real_of_int (align s m e k) * 2 powi k"
proof -
  obtain n where "e = k + int n" using assms zle_iff_zadd by blast
  then show ?thesis by (simp add: align_def power_int_add)
qed

lemma le64_val:
  "le64 (Fin s m e) (Fin t n f) \<longleftrightarrow> val64 (Fin s m e) \<le> val64 (Fin t n f)"
proof -
  let ?k = "min e f"
  have p: "(0::real) < 2 powi ?k" by simp
  have "val64 (Fin s m e) \<le> val64 (Fin t n f) \<longleftrightarrow>
    real_of_int (align s m e ?k) * 2 powi ?k \<le> real_of_int (align t n f ?k) * 2 powi ?k"
    by (simp only: val64_align[of ?k] min.cobounded1 min.cobounded2)
  also have "\<dots> \<longleftrightarrow> align s m e ?k \<le> align t n f ?k"
    using p by (simp only: mult_le_cancel_right_pos of_int_le_iff)
  finally show ?thesis by simp
qed

lemma lt64_not_le64: "lt64 x y \<longleftrightarrow> \<not> le64 y x"
  by (cases x; cases y) (auto simp: min.commute)

lemma lt64_val:
  "lt64 (Fin s m e) (Fin t n f) \<longleftrightarrow> val64 (Fin s m e) < val64 (Fin t n f)"
  by (simp only: lt64_not_le64 le64_val not_le)

lemma le64_refl: "le64 x x"
  by (cases x) auto

lemma le64_total: "le64 x y \<or> le64 y x"
  by (cases x; cases y) (auto simp: min.commute)

lemma le64_trans: "le64 x y \<Longrightarrow> le64 y z \<Longrightarrow> le64 x z"
  by (cases x; cases y; cases z)
    (auto simp only: le64_val, simp_all only: le64.simps, auto)

instantiation binary64 :: preorder
begin
definition less_eq_binary64 :: "binary64 \<Rightarrow> binary64 \<Rightarrow> bool" where
  "less_eq_binary64 x y = le64 x y"
definition less_binary64 :: "binary64 \<Rightarrow> binary64 \<Rightarrow> bool" where
  "less_binary64 x y = lt64 x y"
instance
proof
  fix x y z :: binary64
  show "x < y \<longleftrightarrow> x \<le> y \<and> \<not> y \<le> x"
    using le64_total[of x y] by (auto simp: less_eq_binary64_def less_binary64_def lt64_not_le64)
  show "x \<le> x"
    by (simp add: less_eq_binary64_def le64_refl)
  show "x \<le> y \<Longrightarrow> y \<le> z \<Longrightarrow> x \<le> z"
    unfolding less_eq_binary64_def by (rule le64_trans)
qed
end

lemma not_less64 [simp]: "\<not> x < y \<longleftrightarrow> y \<le> (x::binary64)"
  by (simp add: less_eq_binary64_def less_binary64_def lt64_not_le64)

lemma le_val64: "is_finite64 x \<Longrightarrow> is_finite64 y \<Longrightarrow> x \<le> y \<longleftrightarrow> val64 x \<le> val64 y"
  unfolding less_eq_binary64_def by (cases x; cases y) (simp_all only: le64_val is_finite64.simps)

lemma less_val64: "is_finite64 x \<Longrightarrow> is_finite64 y \<Longrightarrow> x < y \<longleftrightarrow> val64 x < val64 y"
  unfolding less_binary64_def by (cases x; cases y) (simp_all only: lt64_val is_finite64.simps)

lemma is_zero_val64: "is_finite64 x \<Longrightarrow> is_zero64 x \<longleftrightarrow> val64 x = 0"
  by (cases x) auto

section \<open>Rounding\<close>

text \<open>The quotient of two naturals rounded to the nearest natural, ties to even.\<close>

definition round_half_even :: "nat \<Rightarrow> nat \<Rightarrow> nat" where
  "round_half_even n d =
     (let q = n div d; r = n mod d
      in if 2 * r < d then q else if d < 2 * r then Suc q else if even q then q else Suc q)"

lemma round_half_even_exact [simp]: "0 < d \<Longrightarrow> round_half_even (k * d) d = k"
  by (simp add: round_half_even_def)

lemma round_half_even_error:
  assumes "0 < d"
  shows "2 * \<bar>int (round_half_even n d) * int d - int n\<bar> \<le> int d"
proof -
  define q r where "q = n div d" and "r = n mod d"
  have n: "int n = int q * int d + int r" and r: "r < d"
    using assms by (simp_all add: q_def r_def flip: of_nat_mult of_nat_add)
  show ?thesis
    using r by (auto simp: round_half_even_def Let_def n algebra_simps simp flip: q_def r_def)
qed

lemma round_half_even_le:
  assumes "0 < d" and "n \<le> k * d"
  shows "round_half_even n d \<le> k"
proof -
  define q r where "q = n div d" and "r = n mod d"
  have n: "n = q * d + r" and r: "r < d"
    using assms by (simp_all add: q_def r_def)
  have qk: "q \<le> k"
    using assms div_le_mono[OF assms(2), of d] by (simp add: q_def)
  have "r = 0" if "q = k"
    using n assms(2) that by simp
  then show ?thesis
    using qk r assms(1)
    by (cases "q = k") (auto simp: round_half_even_def Let_def simp flip: q_def r_def)
qed

lemma round_half_even_ge:
  assumes "0 < d" and "k * d \<le> n"
  shows "k \<le> round_half_even n d"
proof -
  have "k \<le> n div d" using assms by (simp add: less_eq_div_iff_mult_less_eq)
  then show ?thesis by (auto simp: round_half_even_def Let_def)
qed

text \<open>The number of binary digits.\<close>

fun nbits :: "nat \<Rightarrow> nat" where
  "nbits n = (if n = 0 then 0 else Suc (nbits (n div 2)))"

declare nbits.simps [simp del]

lemma nbits_upper: "n < 2 ^ nbits n"
proof (induction n rule: nbits.induct)
  case (1 n)
  then show ?case by (cases "n = 0") (auto simp: nbits.simps[of n])
qed

lemma nbits_lower: "0 < n \<Longrightarrow> 2 ^ nbits n \<le> 2 * n"
proof (induction n rule: nbits.induct)
  case (1 n)
  show ?case
  proof (cases "n < 2")
    case True
    with 1(2) have "n = 1" by simp
    then show ?thesis by (simp add: nbits.simps[of "Suc 0"] nbits.simps[of 0])
  next
    case False
    then have "2 ^ nbits (n div 2) \<le> 2 * (n div 2)" using 1(1) by simp
    then show ?thesis using False by (simp add: nbits.simps[of n])
  qed
qed

text \<open>The binary exponent of a positive fraction: the integer part of its logarithm.\<close>

definition exp2_of :: "nat \<Rightarrow> nat \<Rightarrow> int" where
  "exp2_of n d =
     (let l = int (nbits n) - int (nbits d)
      in if d * 2 ^ nat l \<le> n * 2 ^ nat (- l) then l else l - 1)"

text \<open>
  The binary64 nearest to \<open>n / d\<close>, and whether the library reports \<open>ERANGE\<close> for it: the unit in
  the last place is \<open>2 ^ q\<close>; the result is tiny when it is below \<open>2 ^ -1022\<close> after rounding.
\<close>

definition round_b64 :: "bool \<Rightarrow> nat \<Rightarrow> nat \<Rightarrow> binary64 \<times> bool" where
  "round_b64 s n d =
     (if n = 0 then (Fin s 0 0, False)
      else
        let q = max (exp2_of n d - 52) (- 1074);
            num = n * 2 ^ nat (- q);
            den = d * 2 ^ nat q;
            m = round_half_even num den
        in if 971 < q \<or> (q = 971 \<and> 2 ^ 53 \<le> m) then (Inf s, True)
           else (Fin s m q,
                 q = - 1074 \<and> n * 2 ^ 1076 < d * (2 ^ 54 - 1) \<and> num mod den \<noteq> 0))"

section \<open>Reading decimal text\<close>

definition digits_val :: "string \<Rightarrow> nat" where
  "digits_val ds = foldl (\<lambda>a c. 10 * a + (char_code c - 48)) 0 ds"

text \<open>An optional sign; \<open>True\<close> for minus.\<close>

fun read_sign :: "string \<Rightarrow> bool \<times> string" where
  "read_sign [] = (False, [])"
| "read_sign (c # cs) =
     (if c = CHR ''-'' then (True, cs) else if c = CHR ''+'' then (False, cs) else (False, c # cs))"

text \<open>The exponent part: an \<open>e\<close> without a digit after it is not part of the number.\<close>

definition read_exponent :: "string \<Rightarrow> int \<times> string" where
  "read_exponent s =
     (case s of
        [] \<Rightarrow> (0, s)
      | c # cs \<Rightarrow>
          if c = CHR ''e'' \<or> c = CHR ''E'' then
            (let (sg, r) = read_sign cs; ds = takeWhile is_digit_char r
             in if ds = [] then (0, s)
                else (smant sg (digits_val ds), dropWhile is_digit_char r))
          else (0, s))"

text \<open>The fraction part: the digits after a decimal point.\<close>

definition read_fraction :: "string \<Rightarrow> string \<times> string" where
  "read_fraction s =
     (case s of
        [] \<Rightarrow> ([], s)
      | c # cs \<Rightarrow>
          if c = CHR ''.'' then (takeWhile is_digit_char cs, dropWhile is_digit_char cs)
          else ([], s))"

text \<open>\<open>strtod\<close>: the value, whether \<open>errno\<close> is set, and the text from the end pointer on.\<close>

definition strtod :: "string \<Rightarrow> binary64 \<times> bool \<times> string" where
  "strtod text =
     (let (sg, t) = read_sign text;
          whole = takeWhile is_digit_char t;
          (frac, u) = read_fraction (dropWhile is_digit_char t)
      in if whole @ frac = [] then (Fin False 0 0, False, text)
         else
           let (ex, rest) = read_exponent u;
               x10 = ex - int (length frac);
               (v, erange) = round_b64 sg (digits_val (whole @ frac) * 10 ^ nat x10) (10 ^ nat (- x10))
           in (v, erange, rest))"

section \<open>Printing with two decimals\<close>

fun fmt_f2 :: "binary64 \<Rightarrow> string" where
  "fmt_f2 (Fin s m e) =
     (let h = round_half_even (m * 100 * 2 ^ nat e) (2 ^ nat (- e))
      in (if s then ''-'' else []) @ show_nat (h div 100) @ ''.'' @ show_02 (h mod 100))"
| "fmt_f2 (Inf s) = (if s then ''-inf'' else ''inf'')"

text \<open>Absolute values up to a whole bound print in a bounded number of characters.\<close>

definition within64 :: "binary64 \<Rightarrow> nat \<Rightarrow> bool" where
  "within64 x b = (case x of Fin _ m e \<Rightarrow> m * 2 ^ nat e \<le> b * 2 ^ nat (- e) | Inf _ \<Rightarrow> False)"

lemma length_show_02: "n < 100 \<Longrightarrow> length (show_02 n) = 2"
proof -
  assume "n < 100"
  moreover have "length (show_nat n) = 1" if "n < 10"
    using that by (simp add: show_nat.simps[of n])
  moreover have "length (show_nat n) = 2" if "10 \<le> n" "n < 100"
    using that by (simp add: show_nat.simps[of n] show_nat.simps[of "n div 10"])
  ultimately show ?thesis by (simp add: show_02_def)
qed

lemma length_fmt_f2:
  assumes "within64 x b" and "b < 10 ^ k" and "0 < k"
  shows "length (fmt_f2 x) \<le> k + 4"
proof -
  obtain s m e where x: "x = Fin s m e" and le: "m * 2 ^ nat e \<le> b * 2 ^ nat (- e)"
    using assms(1) by (cases x) (auto simp: within64_def)
  define h where "h = round_half_even (m * 100 * 2 ^ nat e) (2 ^ nat (- e))"
  have "h \<le> b * 100"
    unfolding h_def using le by (intro round_half_even_le) simp_all
  then have "h div 100 < 10 ^ k" using assms(2) by simp
  then have "length (show_nat (h div 100)) \<le> k" by (rule length_show_nat[OF assms(3)])
  then show ?thesis by (simp add: x length_show_02 Let_def flip: h_def)
qed

lemma set_fmt_f2:
  "is_finite64 x \<Longrightarrow> c \<in> set (fmt_f2 x) \<Longrightarrow> c = CHR ''-'' \<or> c = CHR ''.'' \<or> is_digit_char c"
  by (cases x) (auto simp: Let_def show_02_def is_digit_char_def char_code_def
      dest!: show_nat_digits split: if_splits)

lemma fmt_f2_nonempty [simp]: "fmt_f2 x \<noteq> []"
  by (cases x) (auto simp: Let_def)

lemma within64_bounds:
  assumes "int64 (- int b) \<le> x" and "x \<le> int64 (int b)"
  shows "within64 x b"
proof (cases x)
  case (Fin s m e)
  have "align s m e (min e 0) \<le> int b * 2 ^ nat (- min e 0)"
    "- int b * 2 ^ nat (- min e 0) \<le> align s m e (min e 0)"
    using assms by (auto simp: Fin less_eq_binary64_def int64_def align_def min.commute split: if_splits)
  then have "int m * 2 ^ nat (e - min e 0) \<le> int b * 2 ^ nat (- min e 0)"
    by (auto simp: align_def split: if_splits)
  moreover have "nat (e - min e 0) = nat e" "nat (- min e 0) = nat (- e)" by auto
  ultimately have "int (m * 2 ^ nat e) \<le> int (b * 2 ^ nat (- e))" by simp
  then show ?thesis by (simp only: Fin within64_def binary64.case of_nat_le_iff)
next
  case (Inf s)
  with assms show ?thesis by (cases s) (auto simp: less_eq_binary64_def int64_def)
qed

section \<open>Rounding is correct\<close>

lemma pow2_balance:
  "d * 2 ^ nat l \<le> n * 2 ^ nat (- l) \<longleftrightarrow> real d * 2 powi l \<le> real n"
proof (cases "0 \<le> l")
  case True
  then obtain k where l: "l = int k" using zero_le_imp_eq_int by blast
  have "d * 2 ^ k \<le> n \<longleftrightarrow> real (d * 2 ^ k) \<le> real n" by (simp only: of_nat_le_iff)
  then show ?thesis by (simp add: l)
next
  case False
  then obtain k where l: "l = - int k" by (metis int_cases2 of_nat_0_le_iff)
  have "d \<le> n * 2 ^ k \<longleftrightarrow> real d \<le> real (n * 2 ^ k)" by (simp only: of_nat_le_iff)
  then show ?thesis by (simp add: l power_int_minus field_simps)
qed

lemma exp2_of_lower:
  assumes "0 < n"
  shows "real d * 2 powi exp2_of n d \<le> real n"
proof -
  define l where "l = int (nbits n) - int (nbits d)"
  show ?thesis
  proof (cases "d * 2 ^ nat l \<le> n * 2 ^ nat (- l)")
    case True
    then have "exp2_of n d = l" by (simp add: exp2_of_def Let_def flip: l_def)
    then show ?thesis using True pow2_balance by simp
  next
    case False
    then have e: "exp2_of n d = l - 1" by (simp add: exp2_of_def Let_def flip: l_def)
    have d: "real d \<le> 2 ^ nbits d"
      using nbits_upper[of d] by (metis less_imp_le of_nat_le_iff of_nat_numeral of_nat_power)
    define r where "r = real d / 2 ^ nbits d"
    have "r \<le> 1" using d by (simp add: r_def)
    then have "r * 2 ^ nbits n \<le> 1 * 2 ^ nbits n" by (rule mult_right_mono) simp
    moreover have "2 ^ nbits n \<le> 2 * real n"
      using nbits_lower[OF assms] by (metis of_nat_le_iff of_nat_mult of_nat_numeral of_nat_power)
    moreover have "real d * 2 powi (l - 1) = r * 2 ^ nbits n / 2"
      by (simp add: l_def r_def power_int_diff)
    ultimately show ?thesis unfolding e by linarith
  qed
qed

text \<open>What \<open>round_b64\<close> returns when it does not overflow.\<close>

lemma round_b64_Fin:
  assumes "round_b64 s n d = (Fin t m q, e)" and "0 < n"
  shows "t = s" and "q = max (exp2_of n d - 52) (- 1074)"
    and "m = round_half_even (n * 2 ^ nat (- q)) (d * 2 ^ nat q)"
  using assms by (auto simp: round_b64_def Let_def split: if_splits)

text \<open>The result is within half a unit in the last place of the exact value.\<close>

lemma round_b64_nearest:
  assumes "round_b64 s n d = (Fin t m q, e)" and "0 < n" and "0 < d"
  shows "\<bar>real m * 2 powi q - real n / real d\<bar> \<le> 2 powi q / 2"
proof -
  define num den where "num = n * 2 ^ nat (- q)" and "den = d * 2 ^ nat q"
  have den: "0 < den" using assms(3) by (simp add: den_def)
  have "2 * \<bar>int m * int den - int num\<bar> \<le> int den"
    using round_half_even_error[OF den, of num] round_b64_Fin(3)[OF assms(1,2)]
    by (simp add: num_def den_def)
  then have "real_of_int (2 * \<bar>int m * int den - int num\<bar>) \<le> real_of_int (int den)"
    by (simp only: of_int_le_iff)
  then have 1: "2 * \<bar>real m * real den - real num\<bar> \<le> real den" by simp
  have 2: "real num / real den * 2 powi q = real n / real d"
  proof (cases "0 \<le> q")
    case True
    then obtain k where "q = int k" using zero_le_imp_eq_int by blast
    then show ?thesis by (simp add: num_def den_def)
  next
    case False
    then obtain k where "q = - int k" by (metis int_cases2 of_nat_0_le_iff)
    then show ?thesis by (simp add: num_def den_def power_int_minus)
  qed
  have "real m * 2 powi q - real n / real d =
      (real m * real den - real num) / real den * 2 powi q"
    using den 2 by (simp add: field_simps)
  also have "\<bar>\<dots>\<bar> = \<bar>real m * real den - real num\<bar> / real den * 2 powi q"
    by (simp add: abs_mult)
  also have "\<dots> \<le> (1 / 2) * 2 powi q"
    using 1 den by (intro mult_right_mono) (simp_all add: field_simps)
  finally show ?thesis by simp
qed

text \<open>Rounding does not move a value across a whole number below \<open>2 ^ 53\<close>.\<close>

lemma exp2_of_below:
  assumes "0 < n" and "0 < d" and "n \<le> k * d" and "k < 2 ^ 53"
  shows "exp2_of n d < 53"
proof -
  have "real d * 2 powi exp2_of n d \<le> real n" by (rule exp2_of_lower[OF assms(1)])
  also have "\<dots> \<le> real d * real k"
    using assms(3) by (simp add: mult.commute flip: of_nat_mult)
  also have "\<dots> < real d * 2 powi 53"
  proof -
    have "real k < real (2 ^ 53)" using assms(4) by (simp only: of_nat_less_iff)
    then show ?thesis using assms(2) by simp
  qed
  finally have "(2::real) powi exp2_of n d < 2 powi 53" using assms(2) by simp
  then show ?thesis by (metis less_le_not_le linorder_not_le power_int_increasing one_le_numeral)
qed

lemma round_b64_le_whole:
  assumes "round_b64 s n d = (Fin t m q, e)" and "0 < n" and "0 < d"
    and "n \<le> k * d" and "k < 2 ^ 53"
  shows "real m * 2 powi q \<le> real k"
proof -
  have "q \<le> 0" using round_b64_Fin(2)[OF assms(1,2)] exp2_of_below[OF assms(2-5)] by simp
  then obtain j where j: "q = - int j" by (metis nonpos_int_cases)
  have "m = round_half_even (n * 2 ^ j) d"
    using round_b64_Fin(3)[OF assms(1,2)] by (simp add: j)
  also have "\<dots> \<le> k * 2 ^ j"
    using assms(3,4) by (intro round_half_even_le) (simp_all add: mult.commute mult.left_commute)
  finally have "real m \<le> real (k * 2 ^ j)" by (simp only: of_nat_le_iff)
  then show ?thesis by (simp add: j power_int_minus field_simps)
qed

lemma round_b64_ge_whole:
  assumes "round_b64 s n d = (Fin t m q, e)" and "0 < n" and "0 < d"
    and "k * d \<le> n" and "k < 2 ^ 53"
  shows "real k \<le> real m * 2 powi q"
proof (cases "q \<le> 0")
  case True
  then obtain j where j: "q = - int j" by (metis nonpos_int_cases)
  have "k * 2 ^ j \<le> round_half_even (n * 2 ^ j) d"
    using assms(3,4) by (intro round_half_even_ge) (simp_all add: mult.commute mult.left_commute)
  also have "\<dots> = m"
    using round_b64_Fin(3)[OF assms(1,2)] by (simp add: j)
  finally have "real (k * 2 ^ j) \<le> real m" by (simp only: of_nat_le_iff)
  then show ?thesis by (simp add: j power_int_minus field_simps)
next
  case False
  then obtain j where j: "q = int j" "0 < j" by (metis not_le pos_int_cases)
  then have "exp2_of n d = int j + 52" using round_b64_Fin(2)[OF assms(1,2)] by simp
  then have "real d * 2 powi (int j + 52) \<le> real n" using exp2_of_lower[OF assms(2), of d] by simp
  then have "real (d * 2 ^ j * 2 ^ 52) \<le> real n"
    by (simp add: power_int_add mult.assoc)
  then have "2 ^ 52 * (d * 2 ^ j) \<le> n" by (simp only: of_nat_le_iff mult.commute)
  then have "2 ^ 52 \<le> m"
    using round_b64_Fin(3)[OF assms(1,2)] assms(3) j by (simp add: round_half_even_ge)
  moreover have "(2::nat) * 2 ^ 52 \<le> 2 ^ j * 2 ^ 52" using j(2) by (simp add: self_le_power)
  ultimately have "k \<le> m * 2 ^ j"
    using assms(5) mult_le_mono[of "2 ^ 52" m 2 "2 ^ j"] j(2) self_le_power[of "2::nat" j] by simp
  then have "real k \<le> real (m * 2 ^ j)" by (simp only: of_nat_le_iff)
  then show ?thesis by (simp add: j)
qed

section \<open>Reading is correct\<close>

text \<open>The number that decimal text denotes, exactly.\<close>

definition decimal_value :: "string \<Rightarrow> real" where
  "decimal_value text =
     (let (sg, t) = read_sign text;
          whole = takeWhile is_digit_char t;
          (frac, u) = read_fraction (dropWhile is_digit_char t);
          (ex, rest) = read_exponent u
      in real_of_int (smant sg (digits_val (whole @ frac))) * 10 powi (ex - int (length frac)))"

lemma power_fraction:
  "real (k * 10 ^ nat x) / real (10 ^ nat (- x)) = real k * 10 powi x"
proof (cases "0 \<le> x")
  case True
  then obtain n where "x = int n" using zero_le_imp_eq_int by blast
  then show ?thesis by simp
next
  case False
  then obtain n where "x = - int n" by (metis int_cases2 of_nat_0_le_iff)
  then show ?thesis by (simp add: power_int_minus field_simps)
qed

lemma strtod_rounds:
  assumes "strtod text = (v, False, rest)" and "rest \<noteq> text"
  obtains sg n d where "round_b64 sg n d = (v, False)" and "0 < d"
    and "decimal_value text = (if sg then - (real n / real d) else real n / real d)"
proof -
  obtain sg t where sg: "read_sign text = (sg, t)" by (cases "read_sign text")
  obtain frac u where frac: "read_fraction (dropWhile is_digit_char t) = (frac, u)"
    by (cases "read_fraction (dropWhile is_digit_char t)")
  obtain ex r where ex: "read_exponent u = (ex, r)" by (cases "read_exponent u")
  define k x where "k = digits_val (takeWhile is_digit_char t @ frac)" and "x = ex - int (length frac)"
  have "round_b64 sg (k * 10 ^ nat x) (10 ^ nat (- x)) = (v, False)"
    using assms by (auto simp: strtod_def sg frac ex k_def x_def Let_def split: if_splits prod.splits)
  moreover have "decimal_value text = (if sg then - (real k * 10 powi x) else real k * 10 powi x)"
    by (simp add: decimal_value_def sg frac ex k_def x_def)
  ultimately show thesis by (intro that[of sg "k * 10 ^ nat x" "10 ^ nat (- x)"]) (simp_all only: power_fraction, simp)
qed

lemma round_b64_finite:
  assumes "round_b64 s n d = (v, False)"
  obtains m q where "v = Fin s m q" and "n = 0 \<Longrightarrow> m = 0"
  using assms by (auto simp: round_b64_def Let_def split: if_splits)

lemma ratio_le: "0 < d \<Longrightarrow> real n / real d \<le> real k \<longleftrightarrow> n \<le> k * d"
  by (simp add: divide_le_eq flip: of_nat_mult)

lemma ratio_ge: "0 < d \<Longrightarrow> real k \<le> real n / real d \<longleftrightarrow> k * d \<le> n"
  by (simp add: le_divide_eq flip: of_nat_mult)

lemma round_b64_whole:
  assumes "round_b64 s n d = (Fin s m q, False)" and "n = 0 \<Longrightarrow> m = 0" and "0 < d" and "k < 2 ^ 53"
  shows "real n / real d \<le> real k \<Longrightarrow> real m * 2 powi q \<le> real k"
    and "real k \<le> real n / real d \<Longrightarrow> real k \<le> real m * 2 powi q"
  using assms round_b64_le_whole[OF assms(1) _ assms(3) _ assms(4)]
    round_b64_ge_whole[OF assms(1) _ assms(3) _ assms(4)]
  by (cases "n = 0"; simp add: ratio_le ratio_ge)+

text \<open>A whole bound holds of the value read whenever it holds of the number written.\<close>

lemma strtod_le_whole:
  assumes "strtod text = (v, False, rest)" and "rest \<noteq> text" and "\<bar>k\<bar> < 2 ^ 53"
    and "decimal_value text \<le> real_of_int k"
  shows "v \<le> int64 k"
proof -
  obtain sg n d where r: "round_b64 sg n d = (v, False)" "0 < d"
    and dec: "decimal_value text = (if sg then - (real n / real d) else real n / real d)"
    using strtod_rounds[OF assms(1,2)] by blast
  obtain m q where v: "v = Fin sg m q" "n = 0 \<Longrightarrow> m = 0" using round_b64_finite[OF r(1)] by blast
  note whole = round_b64_whole[OF r(1)[unfolded v(1)] v(2) r(2), of "nat \<bar>k\<bar>"]
  have pos: "0 \<le> real n / real d" "0 \<le> real m * 2 powi q" by simp_all
  have "val64 v \<le> real_of_int k"
  proof (cases sg)
    case True
    then have "0 \<le> k \<or> real (nat \<bar>k\<bar>) \<le> real m * 2 powi q"
      using whole(2) assms(3,4) dec by (cases "0 \<le> k") auto
    then show ?thesis
    proof
      assume "0 \<le> k"
      then have "0 \<le> real_of_int k" by simp
      moreover have "val64 v = - (real m * 2 powi q)" using True v(1) by simp
      ultimately show ?thesis using pos(2) by linarith
    qed (use True v(1) in auto)
  next
    case False
    then have "decimal_value text = real n / real d" using dec by simp
    then have "0 \<le> real_of_int k" using assms(4) pos(1) by linarith
    then show ?thesis using False whole(1) assms(3,4) dec v(1) by simp
  qed
  then show ?thesis using v(1) by (simp add: le_val64 del: val64.simps)
qed

lemma strtod_ge_whole:
  assumes "strtod text = (v, False, rest)" and "rest \<noteq> text" and "\<bar>k\<bar> < 2 ^ 53"
    and "real_of_int k \<le> decimal_value text"
  shows "int64 k \<le> v"
proof -
  obtain sg n d where r: "round_b64 sg n d = (v, False)" "0 < d"
    and dec: "decimal_value text = (if sg then - (real n / real d) else real n / real d)"
    using strtod_rounds[OF assms(1,2)] by blast
  obtain m q where v: "v = Fin sg m q" "n = 0 \<Longrightarrow> m = 0" using round_b64_finite[OF r(1)] by blast
  note whole = round_b64_whole[OF r(1)[unfolded v(1)] v(2) r(2), of "nat \<bar>k\<bar>"]
  have pos: "0 \<le> real n / real d" "0 \<le> real m * 2 powi q" by simp_all
  have "real_of_int k \<le> val64 v"
  proof (cases sg)
    case False
    then have "k < 0 \<or> real (nat \<bar>k\<bar>) \<le> real m * 2 powi q"
      using whole(2) assms(3,4) dec by (cases "k < 0") auto
    then show ?thesis
    proof
      assume "k < 0"
      then have "real_of_int k \<le> 0" by simp
      moreover have "val64 v = real m * 2 powi q" using False v(1) by simp
      ultimately show ?thesis using pos(2) by linarith
    qed (use False v(1) in auto)
  next
    case True
    then have "decimal_value text = - (real n / real d)" using dec by simp
    then have "real_of_int k \<le> 0" using assms(4) pos(1) by linarith
    moreover have "nat \<bar>k\<bar> < 2 ^ 53" using assms(3) by (simp add: nat_less_iff)
    ultimately have "real m * 2 powi q \<le> - real_of_int k"
      using whole(1) assms(4) \<open>decimal_value text = - (real n / real d)\<close> by simp
    then show ?thesis using True v(1) by simp
  qed
  then show ?thesis using v(1) by (simp add: le_val64 del: val64.simps)
qed

text \<open>The value read is within half a unit in the last place of the number written.\<close>

lemma strtod_nearest:
  assumes "strtod text = (Fin s m q, False, rest)" and "rest \<noteq> text"
  shows "\<bar>val64 (Fin s m q) - decimal_value text\<bar> \<le> 2 powi q / 2"
proof -
  obtain sg n d where r: "round_b64 sg n d = (Fin s m q, False)" "0 < d"
    and dec: "decimal_value text = (if sg then - (real n / real d) else real n / real d)"
    using strtod_rounds[OF assms] by blast
  show ?thesis
  proof (cases "n = 0")
    case True
    then have "m = 0" using round_b64_finite[OF r(1)] by auto
    then show ?thesis using True dec by simp
  next
    case False
    then have "\<bar>real m * 2 powi q - real n / real d\<bar> \<le> 2 powi q / 2" "s = sg"
      using round_b64_nearest[OF r(1) _ r(2)] round_b64_Fin(1)[OF r(1)] by simp_all
    then show ?thesis using dec by (cases sg) (simp_all add: abs_minus_commute)
  qed
qed

lemma val64_le_abs: "val64 (Fin t m q) \<le> real m * 2 powi q" "val64 (Fin True m q) \<le> 0"
proof -
  have "0 \<le> real m * 2 powi q" by simp
  then have "- (real m * 2 powi q) \<le> real m * 2 powi q" by linarith
  then show "val64 (Fin t m q) \<le> real m * 2 powi q" by (cases t) simp_all
qed simp

text \<open>A fraction up to a whole number below \<open>2 ^ 53\<close> rounds to a finite value up to it.\<close>

lemma round_b64_up_to:
  assumes "n \<le> k * d" and "0 < d" and "k < 2 ^ 53"
  shows "fst (round_b64 s n d) \<le> int64 (int k)"
proof (cases "n = 0")
  case True
  then show ?thesis by (simp add: round_b64_def le_val64)
next
  case False
  then have "exp2_of n d < 53" using exp2_of_below assms by blast
  then have "\<exists>t m q e. round_b64 s n d = (Fin t m q, e)"
    using False by (auto simp: round_b64_def Let_def)
  then obtain t m q e where r: "round_b64 s n d = (Fin t m q, e)" by blast
  then have "real m * 2 powi q \<le> real k" using round_b64_le_whole assms False by blast
  then have "val64 (Fin t m q) \<le> real k" using val64_le_abs(1)[of t m q] by linarith
  then show ?thesis using r by (simp add: le_val64 del: val64.simps)
qed

end
