(* ===== verification/Nearest64.thy ===== *)
theory Nearest64
  imports Binary64
begin

text \<open>
  Correct rounding. The finite values of IEEE binary64 as a set of reals, what it means that a
  value is the one of them nearest to a number, ties to the even mantissa, and that the value
  \<open>strtod\<close> reads from decimal text is the one nearest to the number written.
\<close>

section \<open>The nearest value\<close>

definition b64_values :: "real set" where
  "b64_values = {val64 (Fin s m q) |s m q. m < 2 ^ 53 \<and> - 1074 \<le> q \<and> q \<le> 971}"

text \<open>The mantissa of a tie is even, and it is the mantissa at full precision.\<close>

fun nearest_even64 :: "real \<Rightarrow> binary64 \<Rightarrow> bool" where
  "nearest_even64 x (Fin s m q) =
     (val64 (Fin s m q) \<in> b64_values \<and>
      (\<forall>y \<in> b64_values. \<bar>val64 (Fin s m q) - x\<bar> \<le> \<bar>y - x\<bar>) \<and>
      (\<forall>y \<in> b64_values. \<bar>y - x\<bar> = \<bar>val64 (Fin s m q) - x\<bar> \<and> y \<noteq> val64 (Fin s m q) \<longrightarrow>
         even m \<and> (2 ^ 52 \<le> m \<or> q = - 1074)))"
| "nearest_even64 x (Inf s) = False"

lemma b64_values_uminus: "y \<in> b64_values \<Longrightarrow> - y \<in> b64_values"
proof -
  assume "y \<in> b64_values"
  then obtain s m q where y: "y = val64 (Fin s m q)" "m < 2 ^ 53" "- 1074 \<le> q" "q \<le> 971"
    by (auto simp: b64_values_def)
  then have "- y = val64 (Fin (\<not> s) m q)" by simp
  then show ?thesis using y(2-4) unfolding b64_values_def by blast
qed

lemma b64_values_pos: "m < 2 ^ 53 \<Longrightarrow> - 1074 \<le> q \<Longrightarrow> q \<le> 971 \<Longrightarrow> real m * 2 powi q \<in> b64_values"
  unfolding b64_values_def by (intro CollectI exI[of _ False] exI[of _ m] exI[of _ q]) simp

lemma nearest_even64_uminus:
  assumes "nearest_even64 x (Fin False m q)"
  shows "nearest_even64 (- x) (Fin True m q)"
proof -
  define v where "v = real m * 2 powi q"
  have near: "v \<in> b64_values" "\<bar>v - x\<bar> \<le> \<bar>y - x\<bar>"
    "\<bar>y - x\<bar> = \<bar>v - x\<bar> \<Longrightarrow> y \<noteq> v \<Longrightarrow> even m \<and> (2 ^ 52 \<le> m \<or> q = - 1074)" if "y \<in> b64_values" for y
    using assms that by (auto simp: v_def)
  have v: "v \<in> b64_values" using assms by (simp add: v_def)
  have flip: "\<bar>- v - - x\<bar> = \<bar>v - x\<bar>" "\<bar>y - - x\<bar> = \<bar>- y - x\<bar>" for y by linarith+
  have val: "val64 (Fin True m q) = - v" by (simp add: v_def)
  show ?thesis
    unfolding nearest_even64.simps val flip
    using b64_values_uminus[OF v] near(2,3)[OF b64_values_uminus] by (auto simp: minus_equation_iff[of _ v])
qed

section \<open>Rounding is to the nearest\<close>

lemma exp2_of_upper:
  assumes "0 < n" and "0 < d"
  shows "real n < real d * 2 powi (exp2_of n d + 1)"
proof -
  define l where "l = int (nbits n) - int (nbits d)"
  show ?thesis
  proof (cases "d * 2 ^ nat l \<le> n * 2 ^ nat (- l)")
    case False
    then have "exp2_of n d = l - 1" by (simp add: exp2_of_def Let_def flip: l_def)
    then show ?thesis using False pow2_balance[of d l n] by simp
  next
    case True
    then have e: "exp2_of n d = l" by (simp add: exp2_of_def Let_def flip: l_def)
    have n: "real n < 2 ^ nbits n"
      using nbits_upper[of n] by (metis of_nat_less_iff of_nat_numeral of_nat_power)
    have "2 ^ nbits d \<le> 2 * real d"
      using nbits_lower[OF assms(2)] by (metis of_nat_le_iff of_nat_mult of_nat_numeral of_nat_power)
    then have "1 \<le> 2 * real d / 2 ^ nbits d" by simp
    then have "1 * 2 ^ nbits n \<le> 2 * real d / 2 ^ nbits d * 2 ^ nbits n" by (rule mult_right_mono) simp
    moreover have "real d * 2 powi (l + 1) = 2 * real d / 2 ^ nbits d * 2 ^ nbits n"
      by (simp add: l_def power_int_add power_int_diff)
    ultimately show ?thesis unfolding e using n by linarith
  qed
qed

text \<open>A natural number nearest to a real, ties to even, is at least as near as every integer.\<close>

lemma near_integer:
  assumes "2 * \<bar>real m - x\<bar> \<le> 1" and "real_of_int k \<noteq> real m"
  shows "1 \<le> 2 * \<bar>real_of_int k - x\<bar>"
proof -
  have "k \<noteq> int m" using assms(2) by auto
  then have "1 \<le> \<bar>k - int m\<bar>" by simp
  then have "1 \<le> \<bar>real_of_int k - real m\<bar>" by linarith
  also have "\<dots> \<le> \<bar>real_of_int k - x\<bar> + \<bar>real m - x\<bar>" by linarith
  finally show ?thesis using assms(1) by argo
qed

lemma round_half_even_tie:
  assumes "0 < d" and "2 * \<bar>int (round_half_even n d) * int d - int n\<bar> = int d"
  shows "even (round_half_even n d)"
proof -
  define q r where "q = n div d" and "r = n mod d"
  have n: "int n = int q * int d + int r" and r: "r < d"
    using assms(1) by (simp_all add: q_def r_def flip: of_nat_mult of_nat_add)
  show ?thesis
    using assms(2) r by (auto simp: round_half_even_def Let_def n algebra_simps simp flip: q_def r_def split: if_splits)
qed

text \<open>The rounded fraction at the scale of the result: nearest, and even on a tie.\<close>

lemma round_b64_scaled:
  assumes "round_b64 s n d = (Fin t m q, e)" and "0 < n" and "0 < d"
  defines "X \<equiv> real n / real d / 2 powi q"
  shows "2 * \<bar>real m - X\<bar> \<le> 1" and "2 * \<bar>real m - X\<bar> = 1 \<Longrightarrow> even m"
    and "X < 2 ^ 53" and "m \<le> 2 ^ 53" and "q \<noteq> - 1074 \<Longrightarrow> 2 ^ 52 \<le> X \<and> 2 ^ 52 \<le> m"
    and "- 1074 \<le> q" and "q \<le> 971" and "q = 971 \<Longrightarrow> m < 2 ^ 53"
proof -
  define num den where "num = n * 2 ^ nat (- q)" and "den = d * 2 ^ nat q"
  have m: "m = round_half_even num den" and q: "q = max (exp2_of n d - 52) (- 1074)"
    using round_b64_Fin[OF assms(1,2)] by (simp_all add: num_def den_def)
  have den: "0 < den" using assms(3) by (simp add: den_def)
  have X: "X = real num / real den"
  proof (cases "0 \<le> q")
    case True
    then obtain k where "q = int k" using zero_le_imp_eq_int by blast
    then show ?thesis by (simp add: X_def num_def den_def)
  next
    case False
    then obtain k where "q = - int k" by (metis int_cases2 of_nat_0_le_iff)
    then show ?thesis by (simp add: X_def num_def den_def power_int_minus field_simps)
  qed
  have gap: "\<bar>real m - X\<bar> = real_of_int \<bar>int m * int den - int num\<bar> / real den"
  proof -
    have "real m - X = (real m * real den - real num) / real den" using den by (simp add: X field_simps)
    then show ?thesis using den by (simp add: abs_divide)
  qed
  show "2 * \<bar>real m - X\<bar> \<le> 1"
  proof -
    have "real_of_int (2 * \<bar>int m * int den - int num\<bar>) \<le> real_of_int (int den)"
      using round_half_even_error[OF den, of num] m by (simp only: of_int_le_iff)
    then show ?thesis using den by (simp add: gap divide_le_eq)
  qed
  show "even m" if "2 * \<bar>real m - X\<bar> = 1"
  proof -
    have "real_of_int (2 * \<bar>int m * int den - int num\<bar>) = real_of_int (int den)"
      using that den by (simp add: gap divide_eq_eq)
    then have "2 * \<bar>int m * int den - int num\<bar> = int den" by (simp only: of_int_eq_iff)
    then show ?thesis using round_half_even_tie[OF den, of num] m by simp
  qed
  have scale: "2 powi j / 2 powi q = (2::real) powi (j - q)" for j by (simp add: power_int_diff)
  show "X < 2 ^ 53"
  proof -
    have "real n / real d < 2 powi (exp2_of n d + 1)"
      using exp2_of_upper[OF assms(2,3)] assms(3) by (simp add: divide_less_eq mult.commute)
    then have "X < 2 powi (exp2_of n d + 1) / 2 powi q" unfolding X_def by (rule divide_strict_right_mono) simp
    also have "\<dots> \<le> 2 powi 53" unfolding scale using q by (intro power_int_increasing) auto
    finally show ?thesis by simp
  qed
  then have "real num < real (2 ^ 53 * den)" using den by (simp add: X divide_less_eq)
  then have "num \<le> 2 ^ 53 * den" by (simp only: of_nat_less_iff less_imp_le)
  then show "m \<le> 2 ^ 53" unfolding m by (rule round_half_even_le[OF den])
  show "2 ^ 52 \<le> X \<and> 2 ^ 52 \<le> m" if "q \<noteq> - 1074"
  proof -
    have "q = exp2_of n d - 52" using that q by linarith
    then have "2 powi 52 = 2 powi exp2_of n d / (2::real) powi q" unfolding scale by simp
    also have "\<dots> \<le> X"
      unfolding X_def using exp2_of_lower[OF assms(2), of d] assms(3)
      by (intro divide_right_mono) (simp_all add: le_divide_eq mult.commute)
    finally have "2 ^ 52 \<le> X" by simp
    moreover from this have "real (2 ^ 52 * den) \<le> real num" using den by (simp add: X le_divide_eq)
    then have "2 ^ 52 \<le> m" unfolding m by (intro round_half_even_ge[OF den]) (simp only: of_nat_le_iff)
    ultimately show ?thesis by simp
  qed
  show "- 1074 \<le> q" using q by simp
  show "q \<le> 971" "q = 971 \<Longrightarrow> m < 2 ^ 53"
    using assms(1,2) by (auto simp: round_b64_def Let_def split: if_splits)
qed

lemma round_b64_nearest_even:
  assumes "round_b64 s n d = (Fin t m q, e)" and "0 < n" and "0 < d"
  shows "nearest_even64 (real n / real d) (Fin False m q)"
proof -
  define u X where "u = (2::real) powi q" and "X = real n / real d / 2 powi q"
  note r = round_b64_scaled[OF assms, folded X_def]
  have u: "0 < u" and x: "real n / real d = X * u" by (simp_all add: u_def X_def)
  have val: "val64 (Fin False m q) = real m * u" by (simp add: u_def)
  have far: "\<bar>a * u - X * u\<bar> = \<bar>a - X\<bar> * u" for a
    using u by (simp add: abs_mult flip: left_diff_distrib)
  have rep: "real m * u \<in> b64_values"
  proof (cases "m < 2 ^ 53")
    case True
    then show ?thesis unfolding u_def using r(6,7) by (rule b64_values_pos)
  next
    case False
    then have "m = 2 ^ 53" "q + 1 \<le> 971" using r(4,7,8) by (simp, cases "q = 971") auto
    moreover have "real (2 ^ 52) * 2 powi (q + 1) \<in> b64_values"
      using r(6) \<open>q + 1 \<le> 971\<close> by (intro b64_values_pos) simp_all
    ultimately show ?thesis by (simp add: u_def power_int_add)
  qed
  have other: "\<bar>real m - X\<bar> < \<bar>y / u - X\<bar> \<or> (\<bar>real m - X\<bar> \<le> \<bar>y / u - X\<bar> \<and> (\<bar>y / u - X\<bar> = \<bar>real m - X\<bar> \<longrightarrow> 2 * \<bar>real m - X\<bar> = 1))"
    if "y \<in> b64_values" "y \<noteq> real m * u" for y
  proof -
    note mem = that(1)
    obtain s' m' f where y: "y = val64 (Fin s' m' f)" "m' < 2 ^ 53" "- 1074 \<le> f"
      using mem unfolding b64_values_def by blast
    show ?thesis
    proof (cases "q \<le> f")
      case True
      then have yk: "y = real_of_int (align s' m' f q) * u" using val64_align y(1) by (simp add: u_def del: val64.simps)
      then have k: "y / u = real_of_int (align s' m' f q)" using u by simp
      then have "real_of_int (align s' m' f q) \<noteq> real m" using that(2) yk by auto
      from near_integer[OF r(1) this] show ?thesis using r(1) unfolding k by argo
    next
      case False
      then have "q \<noteq> - 1074" using y(3) by auto
      then have low: "2 ^ 52 \<le> X" using r(5) by blast
      have "y \<le> real m' * 2 powi f" using val64_le_abs(1) y(1) by (simp del: val64.simps)
      also have "\<dots> < 2 ^ 53 * 2 powi f" using y(2) by (simp add: of_nat_less_iff[of m' "2 ^ 53", where 'a = real, symmetric] del: of_nat_less_iff)
      also have "\<dots> \<le> 2 ^ 53 * 2 powi (q - 1)" using False by (intro mult_left_mono power_int_increasing) auto
      also have "\<dots> = 2 ^ 52 * u" by (simp add: u_def power_int_diff)
      finally have "y / u < 2 ^ 52" using u by (simp add: divide_less_eq)
      moreover have "\<bar>real m - X\<bar> \<le> \<bar>2 ^ 52 - X\<bar>"
      proof (cases "real m = 2 ^ 52")
        case False
        then have "real_of_int (2 ^ 52) \<noteq> real m" by simp
        from near_integer[OF r(1) this] show ?thesis using r(1) by simp
      qed simp
      ultimately show ?thesis using low by linarith
    qed
  qed
  show ?thesis
    unfolding nearest_even64.simps val
  proof (intro conjI ballI impI)
    show "real m * u \<in> b64_values" by (rule rep)
    fix y assume y: "y \<in> b64_values"
    have yu: "\<bar>y - X * u\<bar> = \<bar>y / u - X\<bar> * u" using far[of "y / u"] u by simp
    show "\<bar>real m * u - real n / real d\<bar> \<le> \<bar>y - real n / real d\<bar>"
      unfolding x far yu using other[OF y] u by (cases "y = real m * u") auto
    assume eq: "\<bar>y - real n / real d\<bar> = \<bar>real m * u - real n / real d\<bar> \<and> y \<noteq> real m * u"
    then have "2 * \<bar>real m - X\<bar> = 1" unfolding x far yu using other[OF y] u by auto
    then show "even m" by (rule r(2))
    show "2 ^ 52 \<le> m \<or> q = - 1074" using r(5) by blast
  qed
qed

section \<open>Reading is to the nearest\<close>

theorem strtod_nearest_even:
  assumes "strtod text = (v, False, rest)" and "rest \<noteq> text"
  shows "nearest_even64 (decimal_value text) v"
proof -
  obtain sg n d where r: "round_b64 sg n d = (v, False)" "0 < d"
    and dec: "decimal_value text = (if sg then - (real n / real d) else real n / real d)"
    using strtod_rounds[OF assms] by blast
  obtain m q where v: "v = Fin sg m q" "n = 0 \<Longrightarrow> m = 0" using round_b64_finite[OF r(1)] by blast
  have "nearest_even64 (real n / real d) (Fin False m q)"
  proof (cases "n = 0")
    case True
    then have "q = 0" using r(1) v by (simp add: round_b64_def)
    then show ?thesis using True v(2) b64_values_pos[of 0 0] by auto
  next
    case False
    then show ?thesis using round_b64_nearest_even[OF r(1)[unfolded v(1)] _ r(2)] by simp
  qed
  then show ?thesis using nearest_even64_uminus dec v(1) by (cases sg) (simp_all del: nearest_even64.simps)
qed

end
