(* ===== verification/Protocol.thy ===== *)
theory Protocol
  imports Nearest64
begin

text \<open>
  The TELEP/2.0 parsers of \<^verbatim>\<open>server/telep_protocol.c\<close>: the whole numbers of
  \<open>parse_uint\<close>, the session and node identifiers, the fields of a message, the measurements of
  a telemetry message and the text of an error reply. The arguments are C strings. A result of
  \<open>-1\<close> is \<open>None\<close>; a result of \<open>0\<close> with its output parameters is \<open>Some\<close>.
\<close>

section \<open>Types\<close>

text \<open>\<open>arg_count\<close> is the length of the argument list.\<close>

record ParsedMessage =
  pm_command :: string
  pm_args :: "string list"

record Measurement =
  ms_name :: string
  ms_value :: binary64

definition ERR_BAD_FORMAT :: int where "ERR_BAD_FORMAT = 100"

definition ERR_UNKNOWN_CMD :: int where "ERR_UNKNOWN_CMD = 101"

definition ERR_UNKNOWN_NODE :: int where "ERR_UNKNOWN_NODE = 102"

definition ERR_TOO_LONG :: int where "ERR_TOO_LONG = 103"

definition ERR_SERVER_FULL :: int where "ERR_SERVER_FULL = 104"

definition ERR_ID_IN_USE :: int where "ERR_ID_IN_USE = 105"

lemmas err_defs =
  ERR_BAD_FORMAT_def ERR_UNKNOWN_CMD_def ERR_UNKNOWN_NODE_def
  ERR_TOO_LONG_def ERR_SERVER_FULL_def ERR_ID_IN_USE_def

section \<open>Whole numbers and identifiers\<close>

text \<open>
  \<open>strtol\<close> in base ten on text without leading space: the value clamped to the range of
  \<open>long\<close>, whether \<open>errno\<close> is \<open>ERANGE\<close>, and the text from the end pointer on.
\<close>

definition strtol :: "string \<Rightarrow> int \<times> bool \<times> string" where
  "strtol text =
     (let (sg, t) = read_sign text; ds = takeWhile is_digit_char t; v = smant sg (digits_val ds)
      in if ds = [] then (0, False, text)
         else if LONG_MAX < v then (LONG_MAX, True, dropWhile is_digit_char t)
         else if v < - LONG_MAX - 1 then (- LONG_MAX - 1, True, dropWhile is_digit_char t)
         else (v, False, dropWhile is_digit_char t))"

definition parse_uint :: "string \<Rightarrow> int \<Rightarrow> int option" where
  "parse_uint text max_value =
     (if text = [] then None
      else if \<exists>c \<in> set text. char_code c < 48 \<or> 57 < char_code c then None
      else
        let (v, erange, rest) = strtol text
        in if erange \<or> rest \<noteq> [] \<or> v < 0 \<or> max_value < v then None else Some v)"

definition is_session_char :: "char \<Rightarrow> bool" where
  "is_session_char c =
     ((48 \<le> char_code c \<and> char_code c \<le> 57) \<or> (97 \<le> char_code c \<and> char_code c \<le> 102))"

definition is_valid_session :: "string \<Rightarrow> bool" where
  "is_valid_session text = (length text = 32 \<and> (\<forall>c \<in> set text. is_session_char c))"

definition is_id_char :: "char \<Rightarrow> bool" where
  "is_id_char c = (is_alnum_char c \<or> c = CHR ''_'' \<or> c = CHR ''-'')"

definition is_valid_node_id :: "string \<Rightarrow> bool" where
  "is_valid_node_id node_id =
     (0 < length node_id \<and> length node_id < MAX_NODE_ID \<and> (\<forall>c \<in> set node_id. is_id_char c))"

section \<open>Messages\<close>

text \<open>
  The loop over the separators: \<open>part\<close> is the field being scanned, \<open>n\<close> the value of
  \<open>arg_count\<close>; the result is the fields from \<open>part\<close> on.
\<close>

function parse_fields :: "string \<Rightarrow> nat \<Rightarrow> string list option" where
  "parse_fields part n =
     (case cut_at CHR ''|'' part of
        (_, None) \<Rightarrow> Some [part]
      | (p, Some rest) \<Rightarrow>
          if p = [] \<or> rest = [] \<or> n = MAX_ARGS then None
          else map_option (\<lambda>fs. p # fs) (parse_fields rest (Suc n)))"
  by pat_completeness auto
termination
  by (relation "measure (\<lambda>(part, n). length part)") (auto dest: cut_at_shorter)

declare parse_fields.simps [simp del]

definition printable_char :: "char \<Rightarrow> bool" where
  "printable_char c = (\<not> (char_code c < 33 \<or> 126 < char_code c))"

definition parse_message :: "string \<Rightarrow> ParsedMessage option" where
  "parse_message line =
     (if length line = 0 \<or> MAX_LINE \<le> length line then None
      else if \<exists>c \<in> set line. \<not> printable_char c then None
      else
        case parse_fields line 0 of
          None \<Rightarrow> None
        | Some parts \<Rightarrow> Some \<lparr>pm_command = hd parts, pm_args = tl parts\<rparr>)"

section \<open>Measurements\<close>

text \<open>The characters of a decimal number.\<close>

definition value_chars :: string where
  "value_chars = ''0123456789+-.eE''"

text \<open>The range of a variable; \<open>STATUS\<close> has none and every other name is refused.\<close>

definition variable_range :: "string \<Rightarrow> (binary64 \<times> binary64) option" where
  "variable_range name =
     (if name = ''TEMP'' then Some (int64 (- 100), int64 200)
      else if name = ''HUM'' then Some (int64 0, int64 100)
      else if name = ''POWER'' then Some (int64 0, int64 1000000)
      else if name = ''VIB'' then Some (int64 0, int64 1000)
      else None)"

definition parse_value :: "string \<Rightarrow> string \<Rightarrow> binary64 option" where
  "parse_value name value_text =
     (if name = ''STATUS'' then
        (if value_text \<noteq> ''OK'' \<and> value_text \<noteq> ''FAIL'' then None
         else Some (int64 (if value_text = ''OK'' then 1 else 0)))
      else
        case variable_range name of
          None \<Rightarrow> None
        | Some (low, high) \<Rightarrow>
            if \<exists>c \<in> set value_text. c \<notin> set value_chars then None
            else
              let (v, erange, rest) = strtod value_text
              in if erange \<or> rest = value_text \<or> rest \<noteq> [] \<or> \<not> is_finite64 v \<or>
                    v < low \<or> high < v
                 then None else Some v)"

text \<open>One \<open>NAME=value\<close> pair, after the measurements already read.\<close>

definition parse_pair :: "Measurement list \<Rightarrow> nat \<Rightarrow> string \<Rightarrow> Measurement option" where
  "parse_pair out max_count pair =
     (case cut_at CHR ''='' pair of
        (_, None) \<Rightarrow> None
      | (name, Some value_text) \<Rightarrow>
          if name = [] \<or> value_text = [] \<or> length out = max_count then None
          else if \<exists>m \<in> set out. ms_name m = name then None
          else map_option (\<lambda>v. \<lparr>ms_name = name, ms_value = v\<rparr>) (parse_value name value_text))"

function parse_pairs :: "Measurement list \<Rightarrow> nat \<Rightarrow> string \<Rightarrow> Measurement list option" where
  "parse_pairs out max_count pair =
     (case cut_at CHR '';'' pair of
        (p, opt_next) \<Rightarrow>
          (case parse_pair out max_count p of
             None \<Rightarrow> None
           | Some m \<Rightarrow>
               (case opt_next of
                  None \<Rightarrow> Some (out @ [m])
                | Some rest \<Rightarrow> parse_pairs (out @ [m]) max_count rest)))"
  by pat_completeness auto
termination
  by (relation "measure (\<lambda>(out, k, pair). length pair)") (auto dest: cut_at_shorter)

declare parse_pairs.simps [simp del]

definition parse_measurements :: "string \<Rightarrow> nat \<Rightarrow> Measurement list option" where
  "parse_measurements field max_count =
     (if field = [] \<or> MAX_LINE \<le> length field then None
      else
        case parse_pairs [] max_count field of
          None \<Rightarrow> None
        | Some out \<Rightarrow> if 3 \<le> length out then Some out else None)"

section \<open>Error replies\<close>

definition error_text :: "int \<Rightarrow> string" where
  "error_text error_code =
     (if error_code = ERR_BAD_FORMAT then ''BAD_FORMAT''
      else if error_code = ERR_UNKNOWN_CMD then ''UNKNOWN_CMD''
      else if error_code = ERR_UNKNOWN_NODE then ''UNKNOWN_NODE''
      else if error_code = ERR_TOO_LONG then ''TOO_LONG''
      else if error_code = ERR_ID_IN_USE then ''ID_IN_USE''
      else if error_code = ERR_SERVER_FULL then ''SERVER_FULL''
      else ''UNKNOWN'')"

definition build_error_response :: "nat \<Rightarrow> int \<Rightarrow> string" where
  "build_error_response out_size error_code =
     snprintf out_size (''ERR|'' @ show_int error_code @ ''|'' @ error_text error_code)"

section \<open>Whole numbers: facts\<close>

lemma is_digit_code: "is_digit_char c \<longleftrightarrow> \<not> (char_code c < 48 \<or> 57 < char_code c)"
  by (auto simp: is_digit_char_def)

lemma read_sign_digit: "is_digit_char c \<Longrightarrow> read_sign (c # cs) = (False, c # cs)"
  by (auto simp: is_digit_char_def char_code_def)

lemma digits_val_append:
  "digits_val (xs @ [c]) = 10 * digits_val xs + (char_code c - 48)"
  by (simp add: digits_val_def)

lemma digits_val_show_nat [simp]: "digits_val (show_nat n) = n"
proof (induction n rule: show_nat.induct)
  case (1 n)
  show ?case
  proof (cases "n < 10")
    case True
    then show ?thesis by (simp add: show_nat.simps[of n] digits_val_def)
  next
    case False
    then have "digits_val (show_nat n) = 10 * (n div 10) + n mod 10"
      using 1 by (simp add: show_nat.simps[of n] digits_val_append)
    then show ?thesis by simp
  qed
qed

lemma strtol_digits:
  assumes "t \<noteq> []" and "\<And>c. c \<in> set t \<Longrightarrow> is_digit_char c"
  shows "strtol t =
    (if LONG_MAX < int (digits_val t) then (LONG_MAX, True, []) else (int (digits_val t), False, []))"
proof -
  obtain c cs where t: "t = c # cs" using assms(1) by (cases t) auto
  have whole: "takeWhile is_digit_char t = t" "dropWhile is_digit_char t = []"
    using takeWhile_all[of t is_digit_char] assms(2) by blast+
  have "read_sign t = (False, t)" using assms(2) by (simp add: t read_sign_digit del: read_sign.simps)
  then show ?thesis using assms(1) by (simp add: strtol_def LONG_MAX_def whole)
qed

lemma parse_uint_iff:
  assumes "max_value \<le> LONG_MAX"
  shows "parse_uint t max_value = Some v \<longleftrightarrow>
    t \<noteq> [] \<and> (\<forall>c \<in> set t. is_digit_char c) \<and> v = int (digits_val t) \<and> v \<le> max_value"
proof (cases "t \<noteq> [] \<and> (\<forall>c \<in> set t. is_digit_char c)")
  case True
  then have "strtol t =
    (if LONG_MAX < int (digits_val t) then (LONG_MAX, True, []) else (int (digits_val t), False, []))"
    using strtol_digits by blast
  moreover have "\<not> (\<exists>c \<in> set t. char_code c < 48 \<or> 57 < char_code c)"
    using True by (simp add: is_digit_code)
  ultimately show ?thesis using True assms by (auto simp: parse_uint_def)
next
  case False
  then show ?thesis by (auto simp: parse_uint_def is_digit_code)
qed

lemma parse_uint_range:
  "parse_uint t max_value = Some v \<Longrightarrow> 0 \<le> v \<and> v \<le> max_value"
  by (auto simp: parse_uint_def split: if_splits prod.splits)

section \<open>Messages: facts\<close>

text \<open>The fields that make up a well-formed line.\<close>

definition field_ok :: "string \<Rightarrow> bool" where
  "field_ok f = (f \<noteq> [] \<and> CHR ''|'' \<notin> set f)"

lemma parse_fields_sound:
  "parse_fields part n = Some fs \<Longrightarrow> part \<noteq> [] \<Longrightarrow> n \<le> MAX_ARGS \<Longrightarrow>
     part = join CHR ''|'' fs \<and> fs \<noteq> [] \<and> (\<forall>f \<in> set fs. field_ok f) \<and> length fs + n \<le> Suc MAX_ARGS"
proof (induction part n arbitrary: fs rule: parse_fields.induct)
  case (1 part n)
  obtain p opt where cut: "cut_at CHR ''|'' part = (p, opt)" by (cases "cut_at CHR ''|'' part")
  show ?case
  proof (cases opt)
    case None
    then have "fs = [part]" "CHR ''|'' \<notin> set part"
      using cut 1(2) by (auto simp: parse_fields.simps[of part n] cut_at_None)
    then show ?thesis using 1(3,4) by (simp add: field_ok_def)
  next
    case (Some rest)
    then obtain gs where gs: "parse_fields rest (Suc n) = Some gs" "fs = p # gs"
      and ne: "p \<noteq> []" "rest \<noteq> []" "n \<noteq> MAX_ARGS"
      using cut 1(2) by (auto simp: parse_fields.simps[of part n] split: if_splits)
    have "rest = join CHR ''|'' gs \<and> gs \<noteq> [] \<and> (\<forall>f \<in> set gs. field_ok f) \<and>
        length gs + Suc n \<le> Suc MAX_ARGS"
      using 1(1)[OF cut[symmetric] Some] ne gs(1) 1(4) by simp
    moreover have "part = p @ CHR ''|'' # rest \<and> CHR ''|'' \<notin> set p"
      using cut Some by (simp add: cut_at_Some)
    ultimately show ?thesis using gs(2) ne(1) by (simp add: join_Cons field_ok_def)
  qed
qed

lemma parse_fields_complete:
  "fs \<noteq> [] \<Longrightarrow> (\<And>f. f \<in> set fs \<Longrightarrow> field_ok f) \<Longrightarrow> length fs + n \<le> Suc MAX_ARGS \<Longrightarrow>
     parse_fields (join CHR ''|'' fs) n = Some fs"
proof (induction fs arbitrary: n)
  case Nil
  then show ?case by simp
next
  case (Cons f fs)
  have f: "f \<noteq> []" "CHR ''|'' \<notin> set f" using Cons.prems(2)[of f] by (auto simp: field_ok_def)
  show ?case
  proof (cases "fs = []")
    case True
    then show ?thesis using f by (simp add: parse_fields.simps)
  next
    case False
    then have "parse_fields (join CHR ''|'' fs) (Suc n) = Some fs"
      using Cons by simp
    moreover have "join CHR ''|'' fs \<noteq> []"
    proof (cases fs)
      case (Cons g gs)
      then have "g \<noteq> []" using Cons.prems(2)[of g] by (simp add: field_ok_def)
      then show ?thesis by (cases gs) (simp_all add: Cons)
    qed (use False in simp)
    moreover have "n \<noteq> MAX_ARGS"
      using Cons.prems(3) False by (cases fs) auto
    ultimately show ?thesis using f False
      by (simp add: join_Cons parse_fields.simps[of "f @ CHR ''|'' # join CHR ''|'' fs"])
  qed
qed

text \<open>The lines the server accepts are exactly the encodings of a command with up to eight arguments.\<close>

definition message_line :: "ParsedMessage \<Rightarrow> string" where
  "message_line m = join CHR ''|'' (pm_command m # pm_args m)"

definition message_ok :: "ParsedMessage \<Rightarrow> bool" where
  "message_ok m =
     (length (pm_args m) \<le> MAX_ARGS \<and> (\<forall>f \<in> set (pm_command m # pm_args m). field_ok f) \<and>
      (\<forall>c \<in> set (message_line m). printable_char c) \<and> length (message_line m) < MAX_LINE)"

lemma message_line_nonempty: "message_ok m \<Longrightarrow> message_line m \<noteq> []"
  by (cases "pm_args m") (auto simp: message_ok_def message_line_def field_ok_def)

lemma parse_message_iff:
  "parse_message line = Some m \<longleftrightarrow> line = message_line m \<and> message_ok m"
proof
  assume p: "parse_message line = Some m"
  then obtain fs where l: "line \<noteq> []" "length line < MAX_LINE" "\<forall>c \<in> set line. printable_char c"
    and fs: "parse_fields line 0 = Some fs" and m: "m = \<lparr>pm_command = hd fs, pm_args = tl fs\<rparr>"
    by (auto simp: parse_message_def split: if_splits option.splits)
  have r: "line = join CHR ''|'' fs \<and> fs \<noteq> [] \<and> (\<forall>f \<in> set fs. field_ok f) \<and> length fs \<le> Suc MAX_ARGS"
    using parse_fields_sound[OF fs l(1)] by simp
  then have "pm_command m # pm_args m = fs" by (simp add: m)
  then show "line = message_line m \<and> message_ok m"
    using r l m by (simp add: message_line_def message_ok_def le_diff_conv)
next
  assume a: "line = message_line m \<and> message_ok m"
  then have ok: "length (pm_args m) \<le> MAX_ARGS" "\<forall>f \<in> set (pm_command m # pm_args m). field_ok f"
    by (simp_all add: message_ok_def)
  have "parse_fields (join CHR ''|'' (pm_command m # pm_args m)) 0 = Some (pm_command m # pm_args m)"
    by (rule parse_fields_complete) (use ok in auto)
  then have "parse_fields line 0 = Some (pm_command m # pm_args m)"
    using a by (simp add: message_line_def)
  then show "parse_message line = Some m"
    using a message_line_nonempty[of m] by (auto simp: parse_message_def message_ok_def)
qed

lemma parse_message_args: "parse_message line = Some m \<Longrightarrow> length (pm_args m) \<le> MAX_ARGS"
  by (simp add: parse_message_iff message_ok_def)

section \<open>Measurements: facts\<close>

text \<open>What a stored measurement satisfies.\<close>

definition measurement_ok :: "Measurement \<Rightarrow> bool" where
  "measurement_ok m =
     (if ms_name m = ''STATUS'' then ms_value m = int64 0 \<or> ms_value m = int64 1
      else case variable_range (ms_name m) of
        None \<Rightarrow> False
      | Some (low, high) \<Rightarrow> is_finite64 (ms_value m) \<and> low \<le> ms_value m \<and> ms_value m \<le> high)"

definition measurements_ok :: "Measurement list \<Rightarrow> bool" where
  "measurements_ok ms = ((\<forall>m \<in> set ms. measurement_ok m) \<and> distinct (map ms_name ms))"

definition variable_names :: "string list" where
  "variable_names = [''TEMP'', ''HUM'', ''POWER'', ''VIB'', ''STATUS'']"

lemma measurement_ok_name: "measurement_ok m \<Longrightarrow> ms_name m \<in> set variable_names"
  by (auto simp: measurement_ok_def variable_range_def variable_names_def split: if_splits)

lemma variable_name_fits: "v \<in> set variable_names \<Longrightarrow> length v < MAX_VAR_NAME"
  by (auto simp: variable_names_def MAX_VAR_NAME_def)

lemma measurements_ok_length: "measurements_ok ms \<Longrightarrow> length ms \<le> 5"
proof -
  assume ok: "measurements_ok ms"
  have "length ms = card (set (map ms_name ms))"
    using ok distinct_card[of "map ms_name ms"] by (simp add: measurements_ok_def)
  also have "\<dots> \<le> card (set variable_names)"
    using ok by (intro card_mono) (auto simp: measurements_ok_def measurement_ok_name)
  also have "\<dots> \<le> length variable_names" by (rule card_length)
  finally show ?thesis by (simp add: variable_names_def)
qed

lemma parse_value_ok:
  "parse_value n t = Some v \<Longrightarrow> measurement_ok \<lparr>ms_name = n, ms_value = v\<rparr>"
  by (auto simp: parse_value_def measurement_ok_def split: if_splits option.splits prod.splits)

lemma parse_pair_ok:
  assumes "parse_pair out k pair = Some m" and "measurements_ok out" and "length out \<le> k"
  shows "measurements_ok (out @ [m])" and "length out < k"
  using assms
  by (auto simp: parse_pair_def measurements_ok_def parse_value_ok
      split: prod.splits option.splits if_splits)

lemma parse_pairs_ok:
  "parse_pairs out k pair = Some ms \<Longrightarrow> measurements_ok out \<Longrightarrow> length out \<le> k \<Longrightarrow>
     measurements_ok ms \<and> length ms \<le> k"
proof (induction out k pair arbitrary: ms rule: parse_pairs.induct)
  case (1 out k pair)
  obtain p opt where cut: "cut_at CHR '';'' pair = (p, opt)" by (cases "cut_at CHR '';'' pair")
  obtain m where m: "parse_pair out k p = Some m"
    using 1(2) cut by (auto simp: parse_pairs.simps[of out k pair] split: option.splits)
  have ok: "measurements_ok (out @ [m])" "length (out @ [m]) \<le> k"
    using parse_pair_ok[OF m 1(3,4)] by simp_all
  show ?case
  proof (cases opt)
    case None
    then show ?thesis using 1(2) cut m ok by (simp add: parse_pairs.simps[of out k pair])
  next
    case (Some rest)
    then have "parse_pairs (out @ [m]) k rest = Some ms"
      using 1(2) cut m by (simp add: parse_pairs.simps[of out k pair])
    then show ?thesis using 1(1)[OF cut[symmetric] m Some] ok by blast
  qed
qed

lemma parse_measurements_ok:
  "parse_measurements field k = Some ms \<Longrightarrow> measurements_ok ms \<and> 3 \<le> length ms \<and> length ms \<le> k"
  using parse_pairs_ok[of "[]" k field ms]
  by (auto simp: parse_measurements_def measurements_ok_def split: if_splits option.splits)

text \<open>Values have bounded magnitude, so their printed text does too.\<close>

lemma variable_range_bound:
  "variable_range n = Some (low, high) \<Longrightarrow> int64 (- int 1000000) \<le> low \<and> high \<le> int64 (int 1000000)"
  by (auto simp: variable_range_def le_val64 split: if_splits)

lemma measurement_ok_within:
  assumes "measurement_ok m"
  shows "within64 (ms_value m) 1000000" and "is_finite64 (ms_value m)"
proof -
  have "int64 (- int 1000000) \<le> ms_value m \<and> ms_value m \<le> int64 (int 1000000) \<and> is_finite64 (ms_value m)"
  proof (cases "ms_name m = ''STATUS''")
    case True
    then show ?thesis using assms by (auto simp: measurement_ok_def le_val64)
  next
    case False
    then obtain low high where r: "variable_range (ms_name m) = Some (low, high)"
      and b: "is_finite64 (ms_value m)" "low \<le> ms_value m" "ms_value m \<le> high"
      using assms by (auto simp: measurement_ok_def split: option.splits)
    then show ?thesis using variable_range_bound[OF r] order_trans by blast
  qed
  then show "within64 (ms_value m) 1000000" "is_finite64 (ms_value m)"
    by (auto intro: within64_bounds)
qed

lemma build_error_response_text:
  "\<bar>code\<bar> < 10 ^ 10 \<Longrightarrow>
     build_error_response 64 code = ''ERR|'' @ show_int code @ ''|'' @ error_text code"
proof -
  assume "\<bar>code\<bar> < 10 ^ 10"
  then have "length (show_int code) \<le> 11" using length_show_int[of 10 code] by simp
  moreover have "length (error_text code) \<le> 12" by (simp add: error_text_def)
  ultimately show ?thesis by (simp add: build_error_response_def)
qed

section \<open>Measurements: the exact language\<close>

text \<open>A pair as it is written, and what it is read as.\<close>

definition pair_text :: "string \<times> string \<Rightarrow> string" where
  "pair_text p = fst p @ CHR ''='' # snd p"

definition reads_as :: "string \<times> string \<Rightarrow> Measurement \<Rightarrow> bool" where
  "reads_as p m = (ms_name m = fst p \<and> parse_value (fst p) (snd p) = Some (ms_value m))"

lemma parse_value_chars:
  assumes "parse_value n t = Some v"
  shows "n \<noteq> []" and "t \<noteq> []" and "CHR ''='' \<notin> set n" and "CHR '';'' \<notin> set n" and "CHR '';'' \<notin> set t"
proof -
  have n: "n \<in> set variable_names"
    using measurement_ok_name[OF parse_value_ok[OF assms]] by simp
  show "n \<noteq> []" "CHR ''='' \<notin> set n" "CHR '';'' \<notin> set n"
    using n by (auto simp: variable_names_def)
  show "t \<noteq> []"
    using assms by (auto simp: parse_value_def strtod_def split: if_splits option.splits prod.splits)
  show "CHR '';'' \<notin> set t"
  proof (cases "n = ''STATUS''")
    case True
    then show ?thesis using assms by (auto simp: parse_value_def split: if_splits)
  next
    case False
    then have "\<forall>c \<in> set t. c \<in> set value_chars"
      using assms by (auto simp: parse_value_def split: if_splits option.splits)
    moreover have "CHR '';'' \<notin> set value_chars" by (simp add: value_chars_def)
    ultimately show ?thesis by blast
  qed
qed

lemma parse_pair_iff:
  "parse_pair out k pair = Some m \<longleftrightarrow>
     (\<exists>p. pair = pair_text p \<and> reads_as p m) \<and> length out \<noteq> k \<and> (\<forall>q \<in> set out. ms_name q \<noteq> ms_name m)"
proof
  assume a: "parse_pair out k pair = Some m"
  then obtain n t where cut: "cut_at CHR ''='' pair = (n, Some t)"
    by (auto simp: parse_pair_def split: prod.splits option.splits)
  then have "pair = pair_text (n, t)" by (simp add: cut_at_Some pair_text_def)
  moreover have "reads_as (n, t) m" "length out \<noteq> k" "(\<forall>q \<in> set out. ms_name q \<noteq> ms_name m)"
    using a cut by (auto simp: parse_pair_def reads_as_def split: if_splits)
  ultimately show "(\<exists>p. pair = pair_text p \<and> reads_as p m) \<and> length out \<noteq> k \<and> (\<forall>q \<in> set out. ms_name q \<noteq> ms_name m)"
    by blast
next
  assume a: "(\<exists>p. pair = pair_text p \<and> reads_as p m) \<and> length out \<noteq> k \<and> (\<forall>q \<in> set out. ms_name q \<noteq> ms_name m)"
  then obtain n t where "pair = pair_text (n, t)" "reads_as (n, t) m" by auto
  then show "parse_pair out k pair = Some m"
    using a parse_value_chars[of n t "ms_value m"]
    by (auto simp: parse_pair_def reads_as_def pair_text_def)
qed

lemma parse_pairs_sound:
  "parse_pairs out k pair = Some ms \<Longrightarrow> length out \<le> k \<Longrightarrow>
     (\<exists>ps new. pair = join CHR '';'' (map pair_text ps) \<and> ps \<noteq> [] \<and> ms = out @ new \<and>
        list_all2 reads_as ps new \<and> length ms \<le> k \<and>
        (distinct (map ms_name out) \<longrightarrow> distinct (map ms_name ms)))"
proof (induction out k pair arbitrary: ms rule: parse_pairs.induct)
  case (1 out k pair)
  obtain q opt where cut: "cut_at CHR '';'' pair = (q, opt)" by (cases "cut_at CHR '';'' pair")
  obtain m where m: "parse_pair out k q = Some m"
    using 1(2) cut by (auto simp: parse_pairs.simps[of out k pair] split: option.splits)
  then obtain p where p: "q = pair_text p" "reads_as p m" "length (out @ [m]) \<le> k"
    and fresh: "(\<forall>q \<in> set out. ms_name q \<noteq> ms_name m)"
    using 1(3) by (auto simp: parse_pair_iff)
  show ?case
  proof (cases opt)
    case None
    then have "ms = out @ [m]" "pair = q"
      using 1(2) cut m by (simp_all add: parse_pairs.simps[of out k pair] cut_at_None)
    then show ?thesis
      using p fresh by (intro exI[of _ "[p]"] exI[of _ "[m]"]) auto
  next
    case (Some rest)
    then have run: "parse_pairs (out @ [m]) k rest = Some ms" and pair: "pair = q @ CHR '';'' # rest"
      using 1(2) cut m by (simp_all add: parse_pairs.simps[of out k pair] cut_at_Some)
    obtain ps new where r: "rest = join CHR '';'' (map pair_text ps)" "ps \<noteq> []" "ms = (out @ [m]) @ new"
      "list_all2 reads_as ps new" "length ms \<le> k"
      "distinct (map ms_name (out @ [m])) \<longrightarrow> distinct (map ms_name ms)"
      using 1(1)[OF cut[symmetric] m Some run p(3)] by blast
    show ?thesis
      using r p fresh pair by (intro exI[of _ "p # ps"] exI[of _ "m # new"]) (auto simp: join_Cons)
  qed
qed

lemma parse_pairs_complete:
  "list_all2 reads_as ps new \<Longrightarrow> ps \<noteq> [] \<Longrightarrow> distinct (map ms_name (out @ new)) \<Longrightarrow>
     length out + length new \<le> k \<Longrightarrow>
     parse_pairs out k (join CHR '';'' (map pair_text ps)) = Some (out @ new)"
proof (induction ps new arbitrary: out rule: list_all2_induct)
  case Nil
  then show ?case by simp
next
  case (Cons p ps m new)
  have m: "parse_pair out k (pair_text p) = Some m"
    unfolding parse_pair_iff
  proof (intro conjI ballI)
    show "\<exists>q. pair_text p = pair_text q \<and> reads_as q m" using Cons.hyps(1) by blast
    show "length out \<noteq> k" using Cons.prems(3) by simp
    show "ms_name q \<noteq> ms_name m" if "q \<in> set out" for q
      using Cons.prems(2) imageI[OF that, of ms_name] by auto
  qed
  have sep: "CHR '';'' \<notin> set (pair_text p)"
    using parse_value_chars[of "fst p" "snd p" "ms_value m"] Cons.hyps(1)
    by (auto simp: pair_text_def reads_as_def)
  show ?case
  proof (cases "ps = []")
    case True
    then have "new = []" using Cons.hyps(2) by simp
    then show ?thesis using True m sep by (simp add: parse_pairs.simps[of out k])
  next
    case False
    then have "parse_pairs (out @ [m]) k (join CHR '';'' (map pair_text ps)) = Some ((out @ [m]) @ new)"
      using Cons.prems(2,3) by (intro Cons.IH) auto
    then show ?thesis
      using False m sep by (simp add: join_Cons parse_pairs.simps[of out k])
  qed
qed

lemma parse_measurements_iff:
  "parse_measurements field k = Some ms \<longleftrightarrow>
     (\<exists>ps. field = join CHR '';'' (map pair_text ps) \<and> list_all2 reads_as ps ms) \<and>
     distinct (map ms_name ms) \<and> 3 \<le> length ms \<and> length ms \<le> k \<and> length field < MAX_LINE"
proof
  assume a: "parse_measurements field k = Some ms"
  then have run: "parse_pairs [] k field = Some ms" "3 \<le> length ms" "length field < MAX_LINE"
    by (auto simp: parse_measurements_def split: if_splits option.splits)
  then show "(\<exists>ps. field = join CHR '';'' (map pair_text ps) \<and> list_all2 reads_as ps ms) \<and>
     distinct (map ms_name ms) \<and> 3 \<le> length ms \<and> length ms \<le> k \<and> length field < MAX_LINE"
    using parse_pairs_sound[OF run(1)] by auto
next
  assume a: "(\<exists>ps. field = join CHR '';'' (map pair_text ps) \<and> list_all2 reads_as ps ms) \<and>
     distinct (map ms_name ms) \<and> 3 \<le> length ms \<and> length ms \<le> k \<and> length field < MAX_LINE"
  then obtain ps where ps: "field = join CHR '';'' (map pair_text ps)" "list_all2 reads_as ps ms" by blast
  then have ne: "ps \<noteq> []" using a by auto
  then have "parse_pairs [] k field = Some ms"
    using parse_pairs_complete[OF ps(2) ne, of "[]" k] a ps(1) by simp
  moreover have "field \<noteq> []"
    using ne ps(1) by (cases ps; cases "tl ps") (auto simp: pair_text_def)
  ultimately show "parse_measurements field k = Some ms"
    using a by (simp add: parse_measurements_def)
qed

lemma parse_value_number:
  assumes "parse_value n t = Some v" and "n \<noteq> ''STATUS''"
  shows "strtod t = (v, False, [])" and "[] \<noteq> t"
  using assms by (auto simp: parse_value_def split: if_splits option.splits prod.splits)

section \<open>Properties\<close>

text \<open>C14: the lines that \<open>parse_message\<close> accepts are exactly the encodings of a command and at
  most eight arguments, all non-empty, printable and free of the separator, shorter than
  \<open>MAX_LINE\<close>; and it reads each encoding back to the message it encodes.\<close>

theorem parse_message_exact:
  "parse_message line = Some m \<longleftrightarrow> line = message_line m \<and> message_ok m"
  by (rule parse_message_iff)

text \<open>C15: \<open>parse_measurements\<close> accepts exactly the fields made of three to \<open>max\<close> pairs
  \<open>NAME=value\<close> with distinct names whose values are valid, each read once and in order.\<close>

theorem parse_measurements_exact:
  "parse_measurements field k = Some ms \<longleftrightarrow>
     (\<exists>ps. field = join CHR '';'' (map pair_text ps) \<and> list_all2 reads_as ps ms) \<and>
     distinct (map ms_name ms) \<and> 3 \<le> length ms \<and> length ms \<le> k \<and> length field < MAX_LINE"
  by (rule parse_measurements_iff)

text \<open>C35: accepted measurements have known and distinct names that fit their buffer, number three
  to five, and are finite and within the range of their variable (\<open>STATUS\<close> is zero or one).\<close>

theorem accepted_measurements_valid:
  assumes "parse_measurements field k = Some ms"
  shows "measurements_ok ms \<and> 3 \<le> length ms \<and> length ms \<le> 5 \<and>
    (\<forall>m \<in> set ms. length (ms_name m) < MAX_VAR_NAME \<and> is_finite64 (ms_value m))"
  using parse_measurements_ok[OF assms] measurements_ok_length[of ms]
    measurement_ok_name[THEN variable_name_fits] measurement_ok_within(2)
  by (auto simp: measurements_ok_def)

lemma accepted_measurements_valid_witness:
  "parse_measurements ''TEMP=-3.5;HUM=60;STATUS=FAIL'' 8 =
     Some [\<lparr>ms_name = ''TEMP'', ms_value = Fin True 7881299347898368 (- 51)\<rparr>,
           \<lparr>ms_name = ''HUM'', ms_value = Fin False 8444249301319680 (- 47)\<rparr>,
           \<lparr>ms_name = ''STATUS'', ms_value = Fin False 0 0\<rparr>] \<and>
   measurements_ok [\<lparr>ms_name = ''TEMP'', ms_value = Fin True 7881299347898368 (- 51)\<rparr>,
           \<lparr>ms_name = ''HUM'', ms_value = Fin False 8444249301319680 (- 47)\<rparr>,
           \<lparr>ms_name = ''STATUS'', ms_value = Fin False 0 0\<rparr>]"
proof -
  have run: "parse_measurements ''TEMP=-3.5;HUM=60;STATUS=FAIL'' 8 =
     Some [\<lparr>ms_name = ''TEMP'', ms_value = Fin True 7881299347898368 (- 51)\<rparr>,
           \<lparr>ms_name = ''HUM'', ms_value = Fin False 8444249301319680 (- 47)\<rparr>,
           \<lparr>ms_name = ''STATUS'', ms_value = Fin False 0 0\<rparr>]"
    by code_simp
  show ?thesis using run accepted_measurements_valid[OF run] by simp
qed

text \<open>C36: the value stored for a numeric variable is the binary64 nearest to the decimal number in the
  message, among all finite binary64 values, and on a tie the one with the even mantissa; and the
  rounding crosses no whole bound (a limit of the range, a threshold).\<close>

theorem accepted_value_rounds:
  assumes "parse_value name text = Some v" and "name \<noteq> ''STATUS''"
  shows "nearest_even64 (decimal_value text) v \<and>
    (\<forall>k. \<bar>k\<bar> < 2 ^ 53 \<longrightarrow>
       (decimal_value text \<le> real_of_int k \<longrightarrow> v \<le> int64 k) \<and>
       (real_of_int k \<le> decimal_value text \<longrightarrow> int64 k \<le> v))"
  using parse_value_number[OF assms]
  by (blast intro: strtod_nearest_even strtod_le_whole strtod_ge_whole)

lemma accepted_value_rounds_witness:
  "parse_value ''TEMP'' ''40.1'' = Some (Fin False 5643573283048653 (- 47)) \<and>
   nearest_even64 (401 / 10) (Fin False 5643573283048653 (- 47)) \<and>
   int64 40 \<le> Fin False 5643573283048653 (- 47)"
proof -
  have run: "parse_value ''TEMP'' ''40.1'' = Some (Fin False 5643573283048653 (- 47))" by code_simp
  have dec: "decimal_value ''40.1'' = 401 / 10"
    by (simp add: decimal_value_def is_digit_char_def char_code_def read_fraction_def read_exponent_def
        digits_val_def power_int_minus)
  have near: "nearest_even64 (401 / 10) (Fin False 5643573283048653 (- 47))"
    and ge: "int64 40 \<le> Fin False 5643573283048653 (- 47)"
    using accepted_value_rounds[OF run] by (simp_all add: dec[symmetric] del: nearest_even64.simps) (simp add: dec)
  show ?thesis using run near ge by (intro conjI)
qed

text \<open>C38: \<open>parse_uint\<close> accepts exactly the non-empty digit strings whose value is at most the
  maximum, however long, and returns that value.\<close>

theorem parse_uint_exact:
  assumes "max_value \<le> LONG_MAX"
  shows "parse_uint t max_value = Some v \<longleftrightarrow>
    t \<noteq> [] \<and> (\<forall>c \<in> set t. is_digit_char c) \<and> v = int (digits_val t) \<and> v \<le> max_value"
  using assms by (rule parse_uint_iff)

lemma parse_uint_exact_witness:
  "parse_uint ''0042'' 65535 = Some 42 \<and> parse_uint ''99999999999999999999'' 65535 = None"
proof -
  have max: "65535 \<le> LONG_MAX" by (simp add: LONG_MAX_def)
  have "digits_val ''0042'' = 42" "\<forall>c \<in> set ''0042''. is_digit_char c" by code_simp+
  then have small: "parse_uint ''0042'' 65535 = Some 42"
    using parse_uint_exact[OF max, of "''0042''" 42] by simp
  have "digits_val ''99999999999999999999'' = 99999999999999999999" by code_simp
  then have "parse_uint ''99999999999999999999'' 65535 \<noteq> Some v" for v
    using parse_uint_exact[OF max, of "''99999999999999999999''" v] by simp
  then have "parse_uint ''99999999999999999999'' 65535 = None" using not_None_eq by blast
  then show ?thesis using small by simp
qed

end
