(* ===== verification/Registry.thy ===== *)
theory Registry
  imports Protocol
begin

text \<open>
  The in-memory registry of \<^verbatim>\<open>server/node_registry.c\<close>: the node table, the ring of alerts,
  the datagram counters and the bitmap of received sequence numbers. Every operation runs under
  the registry mutex, so it is one function from state to state here.

  The flags \<open>in_use\<close> is a boolean; \<open>report_seen\<close> and \<open>final_report\<close> are the integers the
  statistics print. The measurements of a node are its first \<open>measurement_count\<close> entries, the
  only ones the code reads. \<open>time(NULL)\<close> is a parameter: the argument \<open>clk\<close> of an operation
  gives the results of its successive calls. A store outside an array and the overflow of the
  \<open>int\<close> counter of alerts are faults; the \<open>long\<close> counters, which grow by one per datagram,
  are unbounded integers here (\<open>2 ^ 63\<close> datagrams are out of reach).
\<close>

section \<open>State\<close>

record TelemetryNode =
  tn_in_use :: bool
  tn_node_id :: string
  tn_last_seen :: int
  tn_measurements :: "Measurement list"
  tn_last_sequence :: int
  tn_datagrams_received :: int
  tn_datagrams_lost :: int
  tn_session :: string
  tn_duplicates :: int
  tn_reordered :: int
  tn_attempts :: int
  tn_sent :: int
  tn_omitted :: int
  tn_send_errors :: int
  tn_report_seen :: int
  tn_final_report :: int

record Alert =
  al_timestamp :: int
  al_node_id :: string
  al_type :: string
  al_value :: binary64

record RegistrySnapshot =
  rg_nodes :: "TelemetryNode list"
  rg_alerts :: "Alert list"
  rg_total_alerts :: int
  rg_boot_id :: int
  rg_started_at :: int
  rg_datagrams_total :: int
  rg_datagrams_unknown_node :: int
  rg_datagrams_invalid :: int

text \<open>The two static variables of the file.\<close>

record registry_state =
  st_registry :: RegistrySnapshot
  st_seen :: "8 word list list"

text \<open>The effect of \<open>memset(slot, 0, sizeof *slot)\<close>.\<close>

definition zero_node :: TelemetryNode where
  "zero_node = \<lparr>tn_in_use = False, tn_node_id = [], tn_last_seen = 0, tn_measurements = [],
     tn_last_sequence = 0, tn_datagrams_received = 0, tn_datagrams_lost = 0, tn_session = [],
     tn_duplicates = 0, tn_reordered = 0, tn_attempts = 0, tn_sent = 0, tn_omitted = 0,
     tn_send_errors = 0, tn_report_seen = 0, tn_final_report = 0\<rparr>"

definition zero_alert :: Alert where
  "zero_alert = \<lparr>al_timestamp = 0, al_node_id = [], al_type = [], al_value = int64 0\<rparr>"

text \<open>
  The state after \<open>registry_init\<close>: \<open>now\<close> is \<open>time(NULL)\<close>, \<open>sec\<close> and \<open>nsec\<close> the
  real-time clock. The bitmap is zeroed by its static storage.
\<close>

definition registry_init :: "int \<Rightarrow> int \<Rightarrow> int \<Rightarrow> registry_state" where
  "registry_init now sec nsec =
     \<lparr>st_registry =
        \<lparr>rg_nodes = replicate MAX_NODES zero_node, rg_alerts = replicate MAX_ALERTS zero_alert,
         rg_total_alerts = 0, rg_boot_id = sec * 1000000000 + nsec, rg_started_at = now,
         rg_datagrams_total = 0, rg_datagrams_unknown_node = 0, rg_datagrams_invalid = 0\<rparr>,
      st_seen = replicate MAX_NODES (replicate (SESSION_LIMIT div 8) 0)\<rparr>"

section \<open>Nodes\<close>

definition find_node :: "RegistrySnapshot \<Rightarrow> string \<Rightarrow> nat option" where
  "find_node r node_id =
     find_index (\<lambda>n. tn_in_use n \<and> tn_node_id n = node_id) (rg_nodes r)"

definition create_node :: "string \<Rightarrow> RegistrySnapshot \<Rightarrow> fault + nat option \<times> RegistrySnapshot" where
  "create_node node_id r =
     (case find_index (\<lambda>n. \<not> tn_in_use n) (rg_nodes r) of
        None \<Rightarrow> Inr (None, r)
      | Some i \<Rightarrow>
          bindF (strcpy MAX_NODE_ID node_id) (\<lambda>copy.
            Inr (Some i, r\<lparr>rg_nodes := (rg_nodes r)
              [i := zero_node\<lparr>tn_node_id := copy, tn_in_use := True, tn_last_sequence := - 1\<rparr>]\<rparr>)))"

text \<open>An assignment through a pointer to slot \<open>i\<close>.\<close>

definition upd_node :: "nat \<Rightarrow> (TelemetryNode \<Rightarrow> TelemetryNode) \<Rightarrow> registry_state \<Rightarrow> registry_state" where
  "upd_node i f st =
     st\<lparr>st_registry := (st_registry st)\<lparr>rg_nodes :=
        (rg_nodes (st_registry st))[i := f (rg_nodes (st_registry st) ! i)]\<rparr>\<rparr>"

definition registry_register_node ::
  "string \<Rightarrow> string \<Rightarrow> registry_state \<Rightarrow> fault + int \<times> registry_state" where
  "registry_register_node node_id session st =
     (case find_node (st_registry st) node_id of
        Some i \<Rightarrow>
          if tn_session (rg_nodes (st_registry st) ! i) \<noteq> session then Inr (ERR_ID_IN_USE, st)
          else Inr (0, st)
      | None \<Rightarrow>
          bindF (create_node node_id (st_registry st)) (\<lambda>(slot, r).
            case slot of
              None \<Rightarrow> Inr (ERR_SERVER_FULL, st\<lparr>st_registry := r\<rparr>)
            | Some i \<Rightarrow>
                bindF (strcpy MAX_SESSION session) (\<lambda>copy.
                  Inr (0, upd_node i (\<lambda>n. n\<lparr>tn_session := copy\<rparr>) (st\<lparr>st_registry := r\<rparr>)))))"

definition upd_registry :: "(RegistrySnapshot \<Rightarrow> RegistrySnapshot) \<Rightarrow> registry_state \<Rightarrow> registry_state" where
  "upd_registry f st = st\<lparr>st_registry := f (st_registry st)\<rparr>"

definition registry_invalid_datagram :: "registry_state \<Rightarrow> registry_state" where
  "registry_invalid_datagram st =
     upd_registry (\<lambda>r. r\<lparr>rg_datagrams_invalid := rg_datagrams_invalid r + 1\<rparr>) st"

section \<open>The bitmap of received sequence numbers\<close>

text \<open>
  \<open>seen[index][seq / 8] & (1u << (seq % 8))\<close>: a negative sequence number, or one beyond the
  array, is undefined behaviour.
\<close>

definition seen_test :: "8 word list \<Rightarrow> int \<Rightarrow> fault + bool" where
  "seen_test row s =
     (if s < 0 \<or> length row \<le> nat (s div 8) then Inl Out_of_bounds
      else Inr (row ! nat (s div 8) AND push_bit (nat (s mod 8)) 1 \<noteq> 0))"

text \<open>\<open>*byte |= mask\<close>, after \<open>seen_test\<close> has located the byte.\<close>

definition seen_mark :: "8 word list \<Rightarrow> int \<Rightarrow> 8 word list" where
  "seen_mark row s =
     row[nat (s div 8) := row ! nat (s div 8) OR push_bit (nat (s mod 8)) 1]"

text \<open>The loop \<open>for (seq = 0; seq < attempts; seq++) received += \<dots>\<close>.\<close>

fun count_seen :: "8 word list \<Rightarrow> nat \<Rightarrow> fault + int" where
  "count_seen row 0 = Inr 0"
| "count_seen row (Suc k) =
     bindF (count_seen row k) (\<lambda>received.
     bindF (seen_test row (int k)) (\<lambda>hit. Inr (received + of_bool hit)))"

definition update_loss :: "nat \<Rightarrow> registry_state \<Rightarrow> fault + registry_state" where
  "update_loss i st =
     (let n = rg_nodes (st_registry st) ! i
      in bindF (count_seen (st_seen st ! i) (nat (tn_attempts n))) (\<lambda>received.
           Inr (upd_node i (\<lambda>n. n\<lparr>tn_datagrams_lost :=
             (if received < tn_sent n then tn_sent n - received else 0)\<rparr>) st)))"

section \<open>Sender reports\<close>

text \<open>The condition under which a report of a known node is refused before its sequence count.\<close>

definition report_refused :: "TelemetryNode \<Rightarrow> int \<Rightarrow> int \<Rightarrow> int \<Rightarrow> int \<Rightarrow> int \<Rightarrow> bool" where
  "report_refused n attempts sent omitted errors final =
     (attempts \<noteq> sent + omitted + errors \<or> attempts < tn_attempts n \<or> sent < tn_sent n \<or>
      omitted < tn_omitted n \<or> errors < tn_send_errors n \<or>
      (final \<noteq> 0 \<and> attempts \<le> tn_last_sequence n) \<or>
      (tn_final_report n \<noteq> 0 \<and>
        (attempts \<noteq> tn_attempts n \<or> sent \<noteq> tn_sent n \<or> omitted \<noteq> tn_omitted n \<or>
         errors \<noteq> tn_send_errors n \<or> final = 0)))"

definition registry_report ::
  "string \<Rightarrow> string \<Rightarrow> int \<Rightarrow> int \<Rightarrow> int \<Rightarrow> int \<Rightarrow> int \<Rightarrow> registry_state \<Rightarrow> fault + int \<times> registry_state" where
  "registry_report node_id session attempts sent omitted errors final st =
     (case find_node (st_registry st) node_id of
        None \<Rightarrow> Inr (ERR_UNKNOWN_NODE, st)
      | Some i \<Rightarrow>
          let n = rg_nodes (st_registry st) ! i
          in if tn_session n \<noteq> session then Inr (ERR_UNKNOWN_NODE, st)
             else if report_refused n attempts sent omitted errors final then Inr (ERR_BAD_FORMAT, st)
             else
               bindF (count_seen (st_seen st ! i) (nat attempts)) (\<lambda>received.
                 if sent < received then Inr (ERR_BAD_FORMAT, st)
                 else
                   bindF (update_loss i (upd_node i (\<lambda>n. n\<lparr>tn_attempts := attempts, tn_sent := sent,
                       tn_omitted := omitted, tn_send_errors := errors, tn_report_seen := 1,
                       tn_final_report := final\<rparr>) st)) (\<lambda>st'. Inr (0, st'))))"

section \<open>Alerts\<close>

definition TEMP_MAX :: binary64 where "TEMP_MAX = int64 40"

definition HUM_MAX :: binary64 where "HUM_MAX = int64 85"

definition POWER_MAX :: binary64 where "POWER_MAX = int64 500"

definition VIB_MAX :: binary64 where "VIB_MAX = int64 7"

definition alert_threshold :: "string \<Rightarrow> binary64" where
  "alert_threshold variable_name =
     (if variable_name = ''TEMP'' then TEMP_MAX
      else if variable_name = ''HUM'' then HUM_MAX
      else if variable_name = ''POWER'' then POWER_MAX
      else if variable_name = ''VIB'' then VIB_MAX
      else int64 0)"

definition is_anomalous_value :: "Measurement \<Rightarrow> bool" where
  "is_anomalous_value m =
     (if ms_name m = ''STATUS'' then is_zero64 (ms_value m)
      else let limit = alert_threshold (ms_name m) in int64 0 < limit \<and> limit < ms_value m)"

definition was_anomalous :: "TelemetryNode \<Rightarrow> string \<Rightarrow> bool" where
  "was_anomalous n variable_name =
     (case find (\<lambda>m. ms_name m = variable_name) (tn_measurements n) of
        None \<Rightarrow> False
      | Some m \<Rightarrow> is_anomalous_value m)"

text \<open>
  The ring: the index is \<open>total_alerts % MAX_ALERTS\<close> with the sign of C's remainder, and
  \<open>total_alerts++\<close> overflows at \<open>INT_MAX\<close>.
\<close>

definition add_alert ::
  "int \<Rightarrow> string \<Rightarrow> string \<Rightarrow> string \<Rightarrow> binary64 \<Rightarrow> RegistrySnapshot \<Rightarrow> fault + Alert \<times> RegistrySnapshot" where
  "add_alert now node_id variable_name suffix v r =
     (let i = c_rem (rg_total_alerts r) (int MAX_ALERTS)
      in if i < 0 \<or> int MAX_ALERTS \<le> i then Inl Out_of_bounds
         else
           bindF (strcpy MAX_NODE_ID node_id) (\<lambda>copy.
             let alert = \<lparr>al_timestamp = now, al_node_id = copy,
                          al_type = snprintf (MAX_VAR_NAME + 8) (variable_name @ ''_'' @ suffix),
                          al_value = v\<rparr>
             in if rg_total_alerts r = INT_MAX then Inl Signed_overflow
                else Inr (alert, r\<lparr>rg_alerts := (rg_alerts r)[nat i := alert],
                                  rg_total_alerts := rg_total_alerts r + 1\<rparr>)))"

text \<open>
  The loop over the received values; \<open>n\<close> is the node, whose stored measurements change only
  after the loop, and \<open>new_alerts\<close> the output array with room for \<open>MAX_VARS\<close> entries.
\<close>

fun alert_loop ::
  "(nat \<Rightarrow> int) \<Rightarrow> string \<Rightarrow> TelemetryNode \<Rightarrow> Measurement list \<Rightarrow> Alert list \<Rightarrow> RegistrySnapshot \<Rightarrow>
     fault + Alert list \<times> RegistrySnapshot" where
  "alert_loop clk node_id n [] new_alerts r = Inr (new_alerts, r)"
| "alert_loop clk node_id n (current # rest) new_alerts r =
     (if is_anomalous_value current \<and> \<not> was_anomalous n (ms_name current) then
        bindF (if ms_name current = ''STATUS''
               then add_alert (clk (length new_alerts)) node_id ''STATUS'' ''FAIL'' (int64 0) r
               else add_alert (clk (length new_alerts)) node_id (ms_name current) ''HIGH''
                      (ms_value current) r) (\<lambda>(alert, r').
          if MAX_VARS \<le> length new_alerts then Inl Out_of_bounds
          else alert_loop clk node_id n rest (new_alerts @ [alert]) r')
      else alert_loop clk node_id n rest new_alerts r)"

section \<open>Telemetry\<close>

text \<open>
  \<open>now\<close> is the time stored in \<open>last_seen\<close> and \<open>clk k\<close> the time stamp of the \<open>k\<close>-th new
  alert. The result is the returned count, the new alerts and the state.
\<close>

definition registry_record_telemetry ::
  "int \<Rightarrow> (nat \<Rightarrow> int) \<Rightarrow> string \<Rightarrow> string \<Rightarrow> int \<Rightarrow> Measurement list \<Rightarrow> registry_state \<Rightarrow>
     fault + int \<times> Alert list \<times> registry_state" where
  "registry_record_telemetry now clk node_id session sequence values st0 =
     (let st = upd_registry (\<lambda>r. r\<lparr>rg_datagrams_total := rg_datagrams_total r + 1\<rparr>) st0;
          unknown = upd_registry
            (\<lambda>r. r\<lparr>rg_datagrams_unknown_node := rg_datagrams_unknown_node r + 1\<rparr>) st
      in case find_node (st_registry st) node_id of
           None \<Rightarrow> Inr (- 1, [], unknown)
         | Some i \<Rightarrow>
             let n = rg_nodes (st_registry st) ! i
             in if tn_session n \<noteq> session then Inr (- 1, [], unknown)
                else if tn_final_report n \<noteq> 0 \<and> tn_attempts n \<le> sequence then
                  Inr (- 1, [], registry_invalid_datagram st)
                else
                  bindF (seen_test (st_seen st ! i) sequence) (\<lambda>hit.
                    if hit then
                      Inr (0, [], upd_node i (\<lambda>n. n\<lparr>tn_duplicates := tn_duplicates n + 1\<rparr>) st)
                    else
                      bindF (update_loss i
                        (upd_node i (\<lambda>n. n\<lparr>tn_datagrams_received := tn_datagrams_received n + 1,
                                           tn_last_seen := now\<rparr>)
                          (st\<lparr>st_seen := (st_seen st)[i := seen_mark (st_seen st ! i) sequence]\<rparr>)))
                      (\<lambda>st1.
                        if sequence < tn_last_sequence n then
                          Inr (0, [], upd_node i (\<lambda>n. n\<lparr>tn_reordered := tn_reordered n + 1\<rparr>) st1)
                        else
                          let st2 = upd_node i (\<lambda>n. n\<lparr>tn_last_sequence := sequence\<rparr>) st1
                          in bindF (alert_loop clk node_id (rg_nodes (st_registry st2) ! i) values []
                                      (st_registry st2)) (\<lambda>(new_alerts, r).
                               if MAX_VARS < length values then Inl Out_of_bounds
                               else Inr (int (length new_alerts), new_alerts,
                                 upd_node i (\<lambda>n. n\<lparr>tn_measurements := values\<rparr>)
                                   (st2\<lparr>st_registry := r\<rparr>))))))"

section \<open>Readers\<close>

definition node_is_active :: "TelemetryNode \<Rightarrow> int \<Rightarrow> bool" where
  "node_is_active n now =
     (tn_in_use n \<and> tn_last_seen n \<noteq> 0 \<and> now - tn_last_seen n < ACTIVE_TIMEOUT)"

definition registry_copy_snapshot :: "registry_state \<Rightarrow> RegistrySnapshot" where
  "registry_copy_snapshot st = st_registry st"

end
