(* ===== verification/Contracts.thy ===== *)
theory Contracts
  imports CBase
begin

text \<open>
  The interfaces between the components, as locales: what a client relies on, stated over
  parameters and proved once here. Each is interpreted on the model's own definitions in the
  theory of the component that provides it.

  \<^item> \<open>seq_bitmap\<close>: the record of received sequence numbers, a set behind two bit operations
    (provided by \<open>RegistryInv\<close>, used by the telemetry and report operations);
  \<^item> \<open>recent_log\<close>: a log that keeps the most recent entries (provided by the alert ring of
    \<open>RegistryInv\<close>, used by the alert listings);
  \<^item> \<open>fifo\<close>: a bounded first-in first-out queue (provided by \<open>Subscribers\<close>, used by the
    drain of a connection);
  \<^item> \<open>machine\<close>: a transition system with an inductive invariant, and \<open>ordered_machine\<close>,
    one whose steps respect an order (provided by the server's step relation).
\<close>

section \<open>A set of sequence numbers behind bit operations\<close>

locale seq_bitmap =
  fixes cap :: nat
    and ok :: "'r \<Rightarrow> bool"
    and elems :: "'r \<Rightarrow> nat set"
    and test :: "'r \<Rightarrow> int \<Rightarrow> fault + bool"
    and mark :: "'r \<Rightarrow> int \<Rightarrow> 'r"
  assumes elems_cap: "ok r \<Longrightarrow> elems r \<subseteq> {..<cap}"
    and test_in: "ok r \<Longrightarrow> s < cap \<Longrightarrow> test r (int s) = Inr (s \<in> elems r)"
    and test_out: "ok r \<Longrightarrow> x < 0 \<or> int cap \<le> x \<Longrightarrow> test r x = Inl Out_of_bounds"
    and ok_mark: "ok r \<Longrightarrow> s < cap \<Longrightarrow> ok (mark r (int s))"
    and elems_mark: "ok r \<Longrightarrow> s < cap \<Longrightarrow> elems (mark r (int s)) = insert s (elems r)"
begin

lemma finite_elems: "ok r \<Longrightarrow> finite (elems r)"
  using elems_cap finite_subset by blast

lemma test_mark:
  "ok r \<Longrightarrow> s < cap \<Longrightarrow> t < cap \<Longrightarrow> test (mark r (int s)) (int t) = Inr (t = s \<or> t \<in> elems r)"
  by (simp add: test_in ok_mark elems_mark)

lemma card_mark:
  "ok r \<Longrightarrow> s < cap \<Longrightarrow> s \<notin> elems r \<Longrightarrow> card (elems (mark r (int s))) = Suc (card (elems r))"
  by (simp add: elems_mark finite_elems)

lemma card_le_cap: "ok r \<Longrightarrow> card (elems r) \<le> cap"
  using card_mono[OF _ elems_cap] by fastforce

text \<open>The counting loop over a prefix, for any loop that adds the tests in order.\<close>

lemma count_loop:
  fixes loop :: "nat \<Rightarrow> fault + int"
  assumes "ok r" and "loop 0 = Inr 0"
    and "\<And>k. loop (Suc k) = bindF (loop k) (\<lambda>c. bindF (test r (int k)) (\<lambda>hit. Inr (c + of_bool hit)))"
  shows "k \<le> cap \<Longrightarrow> loop k = Inr (int (card (elems r \<inter> {..<k})))"
proof (induction k)
  case 0
  then show ?case using assms(2) by simp
next
  case (Suc k)
  have "elems r \<inter> {..<Suc k} =
      (if k \<in> elems r then insert k (elems r \<inter> {..<k}) else elems r \<inter> {..<k})"
    by (auto simp: less_Suc_eq)
  then show ?case
    using Suc assms(1,3) by (simp add: test_in)
qed

lemma count_loop_out:
  fixes loop :: "nat \<Rightarrow> fault + int"
  assumes "ok r" and "loop 0 = Inr 0"
    and "\<And>k. loop (Suc k) = bindF (loop k) (\<lambda>c. bindF (test r (int k)) (\<lambda>hit. Inr (c + of_bool hit)))"
  shows "cap < k \<Longrightarrow> loop k = Inl Out_of_bounds"
proof (induction k)
  case 0
  then show ?case by simp
next
  case (Suc k)
  show ?case
  proof (cases "k = cap")
    case True
    then show ?thesis
      using count_loop[of r loop cap] assms test_out[of r "int cap"] by simp
  next
    case False
    then show ?thesis using Suc assms(3) by simp
  qed
qed

end

section \<open>A log of the most recent entries\<close>

definition last_n :: "nat \<Rightarrow> 'a list \<Rightarrow> 'a list" where
  "last_n k xs = drop (length xs - k) xs"

lemma length_last_n [simp]: "length (last_n k xs) = min k (length xs)"
  by (auto simp: last_n_def)

lemma last_n_id [simp]: "length xs \<le> k \<Longrightarrow> last_n k xs = xs"
  by (simp add: last_n_def)

lemma last_n_append_last_n: "last_n k (last_n k xs @ ys) = last_n k (xs @ ys)"
proof (cases "length xs \<le> k")
  case True
  then show ?thesis by simp
next
  case False
  then show ?thesis by (simp add: last_n_def add.commute)
qed

locale recent_log =
  fixes cap :: nat
    and ok :: "'s \<Rightarrow> bool"
    and entries :: "'s \<Rightarrow> 'a list"
    and push :: "'a \<Rightarrow> 's \<Rightarrow> 's"
  assumes ok_push: "ok s \<Longrightarrow> ok (push a s)"
    and entries_push: "ok s \<Longrightarrow> entries (push a s) = last_n cap (entries s @ [a])"
begin

lemma ok_pushes: "ok s \<Longrightarrow> ok (fold push xs s)"
  by (induction xs arbitrary: s) (simp_all add: ok_push)

lemma entries_pushes:
  "ok s \<Longrightarrow> length (entries s) \<le> cap \<Longrightarrow> entries (fold push xs s) = last_n cap (entries s @ xs)"
proof (induction xs arbitrary: s)
  case Nil
  then show ?case by simp
next
  case (Cons x xs)
  have "entries (fold push xs (push x s)) = last_n cap (entries (push x s) @ xs)"
    using Cons.prems by (intro Cons.IH) (simp_all add: ok_push entries_push)
  also have "\<dots> = last_n cap ((entries s @ [x]) @ xs)"
    using Cons.prems by (simp only: entries_push last_n_append_last_n)
  finally show ?case by simp
qed

lemma newest_kept:
  assumes "ok s" and "length (entries s) \<le> cap" and "length xs \<le> cap"
  shows "\<exists>old. entries (fold push xs s) = old @ xs"
proof -
  have "last_n cap (entries s @ xs) = drop (length (entries s) + length xs - cap) (entries s) @ xs"
    using assms(3) by (simp add: last_n_def)
  then show ?thesis using entries_pushes[OF assms(1,2)] by metis
qed

end

section \<open>A bounded queue\<close>

fun pops :: "('q \<Rightarrow> 'a) \<Rightarrow> ('q \<Rightarrow> 'q) \<Rightarrow> nat \<Rightarrow> 'q \<Rightarrow> 'a list \<times> 'q" where
  "pops front pop 0 q = ([], q)"
| "pops front pop (Suc n) q = (front q # fst (pops front pop n (pop q)), snd (pops front pop n (pop q)))"

locale fifo =
  fixes cap :: nat
    and ok :: "'q \<Rightarrow> bool"
    and items :: "'q \<Rightarrow> 'a list"
    and put :: "'a \<Rightarrow> 'q \<Rightarrow> 'q"
    and front :: "'q \<Rightarrow> 'a"
    and pop :: "'q \<Rightarrow> 'q"
  assumes items_cap: "ok q \<Longrightarrow> length (items q) \<le> cap"
    and ok_put: "ok q \<Longrightarrow> length (items q) < cap \<Longrightarrow> ok (put a q)"
    and items_put: "ok q \<Longrightarrow> length (items q) < cap \<Longrightarrow> items (put a q) = items q @ [a]"
    and front_items: "ok q \<Longrightarrow> items q \<noteq> [] \<Longrightarrow> front q = hd (items q)"
    and ok_pop: "ok q \<Longrightarrow> items q \<noteq> [] \<Longrightarrow> ok (pop q)"
    and items_pop: "ok q \<Longrightarrow> items q \<noteq> [] \<Longrightarrow> items (pop q) = tl (items q)"
begin

lemma ok_puts: "ok q \<Longrightarrow> length (items q) + length xs \<le> cap \<Longrightarrow> ok (fold put xs q)"
  by (induction xs arbitrary: q) (simp_all add: ok_put items_put)

lemma items_puts:
  "ok q \<Longrightarrow> length (items q) + length xs \<le> cap \<Longrightarrow> items (fold put xs q) = items q @ xs"
  by (induction xs arbitrary: q) (simp_all add: ok_put items_put)

text \<open>Popping \<open>n\<close> times returns the first \<open>n\<close> items, in order, and leaves the others.\<close>

lemma pops_items:
  "ok q \<Longrightarrow> n \<le> length (items q) \<Longrightarrow>
     fst (pops front pop n q) = take n (items q) \<and> items (snd (pops front pop n q)) = drop n (items q) \<and> ok (snd (pops front pop n q))"
proof (induction n arbitrary: q)
  case 0
  then show ?case by simp
next
  case (Suc n)
  then have ne: "items q \<noteq> []" by auto
  have "fst (pops front pop n (pop q)) = take n (tl (items q)) \<and>
      items (snd (pops front pop n (pop q))) = drop n (tl (items q)) \<and> ok (snd (pops front pop n (pop q)))"
    using Suc.IH[of "pop q"] Suc.prems ne by (simp add: ok_pop items_pop)
  moreover obtain x xs where "items q = x # xs" using ne by (cases "items q") auto
  ultimately show ?case
    using Suc.prems ne by (simp add: front_items)
qed

end

section \<open>Transition systems\<close>

locale machine =
  fixes start :: "'s \<Rightarrow> bool"
    and step :: "'s \<Rightarrow> 's \<Rightarrow> bool"
    and inv :: "'s \<Rightarrow> bool"
  assumes inv_start: "start s \<Longrightarrow> inv s"
    and inv_step: "inv s \<Longrightarrow> step s t \<Longrightarrow> inv t"
begin

lemma inv_steps: "step\<^sup>*\<^sup>* s t \<Longrightarrow> inv s \<Longrightarrow> inv t"
  by (induction rule: rtranclp_induct) (auto intro: inv_step)

lemma inv_reachable: "start s \<Longrightarrow> step\<^sup>*\<^sup>* s t \<Longrightarrow> inv t"
  using inv_start inv_steps by blast

end

text \<open>A machine whose steps go up in a preorder, under its invariant.\<close>

locale ordered_machine = machine start step inv
  for start :: "'s \<Rightarrow> bool" and step :: "'s \<Rightarrow> 's \<Rightarrow> bool" and inv :: "'s \<Rightarrow> bool" +
  fixes below :: "'s \<Rightarrow> 's \<Rightarrow> bool"
  assumes below_refl: "below s s"
    and below_trans: "below s t \<Longrightarrow> below t u \<Longrightarrow> below s u"
    and below_step: "inv s \<Longrightarrow> step s t \<Longrightarrow> below s t"
begin

lemma below_steps: "step\<^sup>*\<^sup>* s t \<Longrightarrow> inv s \<Longrightarrow> below s t"
proof (induction rule: rtranclp_induct)
  case base
  show ?case by (rule below_refl)
next
  case (step t u)
  then have "inv t" using inv_steps by blast
  then show ?case using step below_trans below_step by blast
qed

end

end
