(* ===== verification/RegistryInv.thy ===== *)
theory RegistryInv
  imports Registry Contracts
begin

text \<open>
  The invariant of the registry and its preservation by every operation of
  \<^verbatim>\<open>server/node_registry.c\<close>, the absence of undefined behaviour under the checks of its
  callers, and the equations of the operations on the well-formed states: the bitmap as a set,
  the loss estimate in closed form, the alert ring as a log of the most recent alerts.
\<close>

section \<open>The bitmap\<close>

definition row_len :: nat where
  "row_len = SESSION_LIMIT div 8"

definition row_ok :: "8 word list \<Rightarrow> bool" where
  "row_ok row = (length row = row_len)"

definition seen_set :: "8 word list \<Rightarrow> nat set" where
  "seen_set row = {s. s < 8 * length row \<and> bit (row ! (s div 8)) (s mod 8)}"

lemma row_len_simps [simp]: "8 * row_len = SESSION_LIMIT" "row_len = 8192"
  by (simp_all add: row_len_def SESSION_LIMIT_def)

lemma seen_test_bit:
  assumes "s < 8 * length row"
  shows "seen_test row (int s) = Inr (s \<in> seen_set row)"
proof -
  have i: "nat (int s div 8) = s div 8" "nat (int s mod 8) = s mod 8"
    by (simp_all add: nat_div_distrib nat_mod_distrib)
  have "s div 8 < length row" using assms by (simp add: less_mult_imp_div_less mult.commute)
  then show ?thesis
    using assms by (simp add: seen_test_def seen_set_def i push_bit_of_1 and_exp_eq_0_iff_not_bit)
qed

lemma seen_test_outside:
  assumes "x < 0 \<or> int (8 * length row) \<le> x"
  shows "seen_test row x = Inl Out_of_bounds"
proof (cases "x < 0")
  case False
  with assms have "int (length row) \<le> x div 8" by simp
  then have "length row \<le> nat (x div 8)" by arith
  then show ?thesis by (simp add: seen_test_def)
qed (simp add: seen_test_def)

lemma seen_set_mark:
  assumes "s < 8 * length row"
  shows "seen_set (seen_mark row (int s)) = insert s (seen_set row)"
proof -
  have i: "nat (int s div 8) = s div 8" "nat (int s mod 8) = s mod 8"
    by (simp_all add: nat_div_distrib nat_mod_distrib)
  have l: "s div 8 < length row" using assms by (simp add: less_mult_imp_div_less mult.commute)
  have m: "seen_mark row (int s) = row[s div 8 := row ! (s div 8) OR push_bit (s mod 8) 1]"
    by (simp only: seen_mark_def i)
  have "bit (seen_mark row (int s) ! (t div 8)) (t mod 8) \<longleftrightarrow> t = s \<or> bit (row ! (t div 8)) (t mod 8)"
    if "t < 8 * length row" for t
  proof (cases "t div 8 = s div 8")
    case True
    then have "t = s \<longleftrightarrow> t mod 8 = s mod 8" by (metis div_mult_mod_eq)
    moreover have "t mod 8 < 8" "s mod 8 < 8" by simp_all
    ultimately show ?thesis
      using True l by (auto simp: m bit_or_iff bit_exp_iff)
  next
    case False
    then show ?thesis by (auto simp: m)
  qed
  then show ?thesis using assms by (auto simp: seen_set_def seen_mark_def)
qed

interpretation bm: seq_bitmap SESSION_LIMIT row_ok seen_set seen_test seen_mark
proof unfold_locales
  fix r and s :: nat and x :: int
  assume ok: "row_ok r"
  have len: "8 * length r = SESSION_LIMIT" using ok by (simp add: row_ok_def SESSION_LIMIT_def)
  show "seen_set r \<subseteq> {..<SESSION_LIMIT}" by (auto simp: seen_set_def len)
  show "x < 0 \<or> int SESSION_LIMIT \<le> x \<Longrightarrow> seen_test r x = Inl Out_of_bounds"
    by (rule seen_test_outside) (simp add: len)
  assume s: "s < SESSION_LIMIT"
  show "seen_test r (int s) = Inr (s \<in> seen_set r)"
    using s by (simp add: seen_test_bit len)
  show "row_ok (seen_mark r (int s))"
    using ok by (simp add: row_ok_def seen_mark_def)
  show "seen_set (seen_mark r (int s)) = insert s (seen_set r)"
    using s by (simp add: seen_set_mark len)
qed

lemma count_seen_card:
  "row_ok row \<Longrightarrow> k \<le> SESSION_LIMIT \<Longrightarrow> count_seen row k = Inr (int (card (seen_set row \<inter> {..<k})))"
  by (rule bm.count_loop) simp_all

lemma count_seen_outside:
  "row_ok row \<Longrightarrow> SESSION_LIMIT < k \<Longrightarrow> count_seen row k = Inl Out_of_bounds"
  by (rule bm.count_loop_out) simp_all

lemma seen_set_zero [simp]: "seen_set (replicate k 0) = {}"
proof -
  have "\<not> bit (replicate k (0::8 word) ! (s div 8)) (s mod 8)" if "s < 8 * k" for s
    using that by (simp add: less_mult_imp_div_less mult.commute)
  then show ?thesis by (auto simp: seen_set_def)
qed

section \<open>The invariant of a node\<close>

text \<open>The estimate of \<^verbatim>\<open>docs/PROTOCOL.md\<close>: reported as sent and not received, below the report.\<close>

definition loss_of :: "TelemetryNode \<Rightarrow> nat set \<Rightarrow> int" where
  "loss_of n S = max 0 (tn_sent n - int (card (S \<inter> {..<nat (tn_attempts n)})))"

definition newest_of :: "nat set \<Rightarrow> int" where
  "newest_of S = (if S = {} then - 1 else int (Max S))"

definition node_ok :: "TelemetryNode \<Rightarrow> nat set \<Rightarrow> bool" where
  "node_ok n S =
     (is_valid_node_id (tn_node_id n) \<and> is_valid_session (tn_session n) \<and>
      tn_attempts n = tn_sent n + tn_omitted n + tn_send_errors n \<and>
      0 \<le> tn_sent n \<and> 0 \<le> tn_omitted n \<and> 0 \<le> tn_send_errors n \<and>
      tn_attempts n \<le> int SESSION_LIMIT \<and>
      tn_datagrams_received n = int (card S) \<and>
      tn_datagrams_lost n = loss_of n S \<and>
      tn_last_sequence n = newest_of S \<and>
      0 \<le> tn_duplicates n \<and> 0 \<le> tn_reordered n \<and> tn_reordered n \<le> int (card S) \<and>
      (S = {} \<longrightarrow> tn_last_seen n = 0) \<and>
      measurements_ok (tn_measurements n) \<and>
      tn_report_seen n \<in> {0, 1} \<and> tn_final_report n \<in> {0, 1} \<and>
      (tn_report_seen n = 0 \<longrightarrow> tn_attempts n = 0 \<and> tn_final_report n = 0) \<and>
      (tn_final_report n = 1 \<longrightarrow> S \<subseteq> {..<nat (tn_attempts n)}))"

definition slot_ok :: "TelemetryNode \<Rightarrow> nat set \<Rightarrow> bool" where
  "slot_ok n S = (if tn_in_use n then node_ok n S else n = zero_node \<and> S = {})"

text \<open>The table: each slot with its row of the bitmap, and no node identifier twice.\<close>

definition nodes_wf :: "TelemetryNode list \<Rightarrow> 8 word list list \<Rightarrow> bool" where
  "nodes_wf ns rows =
     (length ns = MAX_NODES \<and> length rows = MAX_NODES \<and>
      (\<forall>i < MAX_NODES. row_ok (rows ! i) \<and> slot_ok (ns ! i) (seen_set (rows ! i))) \<and>
      (\<forall>i < MAX_NODES. \<forall>j < MAX_NODES. tn_in_use (ns ! i) \<and> tn_in_use (ns ! j) \<and>
         tn_node_id (ns ! i) = tn_node_id (ns ! j) \<longrightarrow> i = j))"

lemma nodes_wf_slot:
  assumes "nodes_wf ns rows" and "i < MAX_NODES"
  shows "row_ok (rows ! i)" and "slot_ok (ns ! i) (seen_set (rows ! i))"
    and "tn_in_use (ns ! i) \<Longrightarrow> node_ok (ns ! i) (seen_set (rows ! i))"
    and "\<not> tn_in_use (ns ! i) \<Longrightarrow> ns ! i = zero_node \<and> seen_set (rows ! i) = {}"
  using assms by (auto simp: nodes_wf_def slot_ok_def)

lemma nodes_wf_update:
  assumes "nodes_wf ns rows" and "i < MAX_NODES" and "row_ok row"
    and "tn_in_use n" and "node_ok n (seen_set row)"
    and "\<And>j. j < MAX_NODES \<Longrightarrow> j \<noteq> i \<Longrightarrow> tn_in_use (ns ! j) \<Longrightarrow> tn_node_id (ns ! j) \<noteq> tn_node_id n"
  shows "nodes_wf (ns[i := n]) (rows[i := row])"
  using assms unfolding nodes_wf_def
  by (auto simp: nth_list_update slot_ok_def) metis+

text \<open>The common case: the identifier and the row's set stay or grow, the slot is in use.\<close>

lemma nodes_wf_same_id:
  assumes "nodes_wf ns rows" and "i < MAX_NODES" and "row_ok row" and "tn_in_use (ns ! i)"
    and "tn_in_use n" and "tn_node_id n = tn_node_id (ns ! i)" and "node_ok n (seen_set row)"
  shows "nodes_wf (ns[i := n]) (rows[i := row])"
proof (rule nodes_wf_update)
  fix j assume "j < MAX_NODES" "j \<noteq> i" "tn_in_use (ns ! j)"
  then show "tn_node_id (ns ! j) \<noteq> tn_node_id n"
    using assms(1,2,4,6) unfolding nodes_wf_def by metis
qed (use assms in auto)

lemma nodes_wf_same_row:
  assumes "nodes_wf ns rows" and "i < MAX_NODES" and "tn_in_use (ns ! i)"
    and "tn_in_use n" and "tn_node_id n = tn_node_id (ns ! i)" and "node_ok n (seen_set (rows ! i))"
  shows "nodes_wf (ns[i := n]) rows"
  using nodes_wf_same_id[OF assms(1,2) nodes_wf_slot(1)[OF assms(1,2)] assms(3-6)] by simp

lemma find_node_Some:
  "find_node r node_id = Some i \<Longrightarrow>
     i < length (rg_nodes r) \<and> tn_in_use (rg_nodes r ! i) \<and> tn_node_id (rg_nodes r ! i) = node_id"
  unfolding find_node_def by (drule find_index_SomeD) simp

lemma find_node_None:
  "find_node r node_id = None \<Longrightarrow> i < length (rg_nodes r) \<Longrightarrow> tn_in_use (rg_nodes r ! i) \<Longrightarrow>
     tn_node_id (rg_nodes r ! i) \<noteq> node_id"
  unfolding find_node_def by (auto simp: find_index_None)

lemma find_node_unique:
  assumes "nodes_wf (rg_nodes r) rows" and "i < MAX_NODES" and "tn_in_use (rg_nodes r ! i)"
  shows "find_node r (tn_node_id (rg_nodes r ! i)) = Some i"
  unfolding find_node_def
  by (rule find_index_unique) (use assms in \<open>auto simp: nodes_wf_def\<close>)

section \<open>The ring of alerts\<close>

definition ring_push :: "Alert \<Rightarrow> RegistrySnapshot \<Rightarrow> RegistrySnapshot" where
  "ring_push a r = r\<lparr>rg_alerts := (rg_alerts r)[nat (rg_total_alerts r) mod MAX_ALERTS := a],
                     rg_total_alerts := rg_total_alerts r + 1\<rparr>"

definition ring_ok :: "RegistrySnapshot \<Rightarrow> bool" where
  "ring_ok r = (length (rg_alerts r) = MAX_ALERTS \<and> 0 \<le> rg_total_alerts r)"

text \<open>The alerts the ring still holds, oldest first.\<close>

definition alert_log :: "RegistrySnapshot \<Rightarrow> Alert list" where
  "alert_log r = map (\<lambda>j. rg_alerts r ! (j mod MAX_ALERTS))
     [nat (rg_total_alerts r) - MAX_ALERTS ..< nat (rg_total_alerts r)]"

lemma MAX_ALERTS_pos [simp]: "0 < MAX_ALERTS"
  by (simp add: MAX_ALERTS_def)

lemma ring_slot_distinct:
  "j < t \<Longrightarrow> t < j + k \<Longrightarrow> j mod k \<noteq> t mod (k::nat)"
proof
  assume j: "j < t" "t < j + k" and "j mod k = t mod k"
  then have "k dvd t - j" by (metis mod_eq_dvd_iff_nat less_imp_le)
  then show False using j by (auto dest: dvd_imp_le)
qed

interpretation ring: recent_log MAX_ALERTS ring_ok alert_log ring_push
proof unfold_locales
  fix r a assume ok: "ring_ok r"
  show "ring_ok (ring_push a r)"
    using ok by (simp add: ring_ok_def ring_push_def)
  define t where "t = nat (rg_total_alerts r)"
  define log where "log = map (\<lambda>j. rg_alerts r ! (j mod MAX_ALERTS)) [Suc t - MAX_ALERTS ..< t]"
  have t: "nat (rg_total_alerts r + 1) = Suc t"
    using ok by (simp add: ring_ok_def t_def nat_add_distrib)
  have "(rg_alerts r)[t mod MAX_ALERTS := a] ! (j mod MAX_ALERTS) = rg_alerts r ! (j mod MAX_ALERTS)"
    if "Suc t - MAX_ALERTS \<le> j" "j < t" for j
  proof -
    have "t < j + MAX_ALERTS" using that by linarith
    then have "t mod MAX_ALERTS \<noteq> j mod MAX_ALERTS"
      using that(2) ring_slot_distinct by metis
    then show ?thesis by (rule nth_list_update_neq)
  qed
  then have "alert_log (ring_push a r) = log @ [a]"
    using ok by (simp add: alert_log_def ring_push_def log_def t ring_ok_def MAX_ALERTS_def flip: t_def)
  moreover have "last_n MAX_ALERTS (alert_log r @ [a]) = log @ [a]"
  proof (cases "t < MAX_ALERTS")
    case True
    then show ?thesis by (simp add: alert_log_def log_def flip: t_def)
  next
    case False
    then have "t - MAX_ALERTS < t" by (simp add: MAX_ALERTS_def)
    then have "[t - MAX_ALERTS ..< t] = (t - MAX_ALERTS) # [Suc t - MAX_ALERTS ..< t]"
      using False by (simp add: upt_conv_Cons Suc_diff_le)
    then show ?thesis using False by (simp add: alert_log_def log_def last_n_def flip: t_def)
  qed
  ultimately show "alert_log (ring_push a r) = last_n MAX_ALERTS (alert_log r @ [a])" by simp
qed

lemma ring_push_frame [simp]:
  "rg_nodes (ring_push a r) = rg_nodes r"
  "rg_boot_id (ring_push a r) = rg_boot_id r"
  "rg_started_at (ring_push a r) = rg_started_at r"
  "rg_datagrams_total (ring_push a r) = rg_datagrams_total r"
  "rg_datagrams_unknown_node (ring_push a r) = rg_datagrams_unknown_node r"
  "rg_datagrams_invalid (ring_push a r) = rg_datagrams_invalid r"
  "rg_total_alerts (ring_push a r) = rg_total_alerts r + 1"
  "(ring_push a r)\<lparr>rg_nodes := ns\<rparr> = ring_push a (r\<lparr>rg_nodes := ns\<rparr>)"
  by (simp_all add: ring_push_def)

lemma ring_pushes_frame [simp]:
  "rg_nodes (fold ring_push xs r) = rg_nodes r"
  "rg_boot_id (fold ring_push xs r) = rg_boot_id r"
  "rg_started_at (fold ring_push xs r) = rg_started_at r"
  "rg_datagrams_total (fold ring_push xs r) = rg_datagrams_total r"
  "rg_datagrams_unknown_node (fold ring_push xs r) = rg_datagrams_unknown_node r"
  "rg_datagrams_invalid (fold ring_push xs r) = rg_datagrams_invalid r"
  "rg_total_alerts (fold ring_push xs r) = rg_total_alerts r + int (length xs)"
  by (induction xs arbitrary: r) simp_all

lemma ring_pushes_nodes [simp]:
  "(fold ring_push xs r)\<lparr>rg_nodes := ns\<rparr> = fold ring_push xs (r\<lparr>rg_nodes := ns\<rparr>)"
  by (induction xs arbitrary: r) simp_all

lemma alert_log_nodes [simp]: "alert_log (r\<lparr>rg_nodes := ns\<rparr>) = alert_log r"
  "ring_ok (r\<lparr>rg_nodes := ns\<rparr>) = ring_ok r"
  by (simp_all add: alert_log_def ring_ok_def)

lemma length_alert_log: "length (alert_log r) = min MAX_ALERTS (nat (rg_total_alerts r))"
  by (auto simp: alert_log_def)

lemma length_alert_log_le: "length (alert_log r) \<le> MAX_ALERTS"
  by (simp add: length_alert_log)

section \<open>The alerts of one datagram\<close>

text \<open>The values that cross into anomaly, and the alert of such a value.\<close>

definition crosses :: "TelemetryNode \<Rightarrow> Measurement \<Rightarrow> bool" where
  "crosses n m = (is_anomalous_value m \<and> \<not> was_anomalous n (ms_name m))"

definition alert_of :: "int \<Rightarrow> string \<Rightarrow> Measurement \<Rightarrow> Alert" where
  "alert_of now node_id m =
     (if ms_name m = ''STATUS''
      then \<lparr>al_timestamp = now, al_node_id = node_id, al_type = ''STATUS_FAIL'', al_value = int64 0\<rparr>
      else \<lparr>al_timestamp = now, al_node_id = node_id, al_type = ms_name m @ ''_HIGH'',
            al_value = ms_value m\<rparr>)"

fun alerts_from :: "(nat \<Rightarrow> int) \<Rightarrow> string \<Rightarrow> nat \<Rightarrow> Measurement list \<Rightarrow> Alert list" where
  "alerts_from clk node_id k [] = []"
| "alerts_from clk node_id k (m # ms) = alert_of (clk k) node_id m # alerts_from clk node_id (Suc k) ms"

lemma length_alerts_from [simp]: "length (alerts_from clk node_id k ms) = length ms"
  by (induction ms arbitrary: k) simp_all

lemma alerts_from_in:
  "a \<in> set (alerts_from clk node_id k ms) \<Longrightarrow> \<exists>m \<in> set ms. \<exists>j. a = alert_of (clk j) node_id m"
  by (induction ms arbitrary: k) auto

lemma add_alert_eq:
  assumes "ring_ok r" and "rg_total_alerts r \<le> INT_MAX" and "length node_id < MAX_NODE_ID"
  shows "add_alert now node_id var suffix v r =
    (if rg_total_alerts r = INT_MAX then Inl Signed_overflow
     else let a = \<lparr>al_timestamp = now, al_node_id = node_id,
                   al_type = snprintf (MAX_VAR_NAME + 8) (var @ ''_'' @ suffix), al_value = v\<rparr>
          in Inr (a, ring_push a r))"
proof -
  have t: "0 \<le> rg_total_alerts r" using assms(1) by (simp add: ring_ok_def)
  then have i: "c_rem (rg_total_alerts r) (int MAX_ALERTS) = rg_total_alerts r mod int MAX_ALERTS"
    by simp
  define k where "k = rg_total_alerts r mod int MAX_ALERTS"
  have k: "\<not> (k < 0 \<or> int MAX_ALERTS \<le> k)" by (simp add: k_def not_le not_less MAX_ALERTS_def)
  have nk: "nat k = nat (rg_total_alerts r) mod MAX_ALERTS"
    using t by (simp add: k_def nat_mod_distrib)
  show ?thesis
    unfolding add_alert_def i Let_def k_def[symmetric] strcpy_fits[OF assms(3)] bindF_Inr nk ring_push_def
    using k by simp
qed

lemma alert_loop_eq:
  "ring_ok r \<Longrightarrow> rg_total_alerts r \<le> INT_MAX \<Longrightarrow> length node_id < MAX_NODE_ID \<Longrightarrow>
   \<forall>m \<in> set ms. measurement_ok m \<Longrightarrow> length acc + length ms \<le> MAX_VARS \<Longrightarrow>
   alert_loop clk node_id n ms acc r =
     (let new_alerts = alerts_from clk node_id (length acc) (filter (crosses n) ms)
      in if rg_total_alerts r + int (length new_alerts) \<le> INT_MAX
         then Inr (acc @ new_alerts, fold ring_push new_alerts r)
         else Inl Signed_overflow)"
proof (induction ms arbitrary: acc r)
  case Nil
  then show ?case by simp
next
  case (Cons m ms)
  show ?case
  proof (cases "crosses n m")
    case False
    then have "\<not> (is_anomalous_value m \<and> \<not> was_anomalous n (ms_name m))" by (simp add: crosses_def)
    then have "alert_loop clk node_id n (m # ms) acc r = alert_loop clk node_id n ms acc r"
      by (simp only: alert_loop.simps if_False)
    then show ?thesis using Cons False by simp
  next
    case True
    define a where "a = alert_of (clk (length acc)) node_id m"
    have fits: "length (ms_name m) < 8"
      using Cons.prems(4) variable_name_fits measurement_ok_name by (fastforce simp: MAX_VAR_NAME_def)
    then have "(if ms_name m = ''STATUS''
          then add_alert (clk (length acc)) node_id ''STATUS'' ''FAIL'' (int64 0) r
          else add_alert (clk (length acc)) node_id (ms_name m) ''HIGH'' (ms_value m) r) =
        (if rg_total_alerts r = INT_MAX then Inl Signed_overflow else Inr (a, ring_push a r))"
      using Cons.prems(1-3) by (simp add: add_alert_eq a_def alert_of_def MAX_VAR_NAME_def Let_def)
    then have "alert_loop clk node_id n (m # ms) acc r =
        (if rg_total_alerts r = INT_MAX then Inl Signed_overflow
         else alert_loop clk node_id n ms (acc @ [a]) (ring_push a r))"
      using True Cons.prems(5) by (simp add: crosses_def)
    moreover have "alert_loop clk node_id n ms (acc @ [a]) (ring_push a r) =
        (let new_alerts = alerts_from clk node_id (length (acc @ [a])) (filter (crosses n) ms)
         in if rg_total_alerts (ring_push a r) + int (length new_alerts) \<le> INT_MAX
            then Inr ((acc @ [a]) @ new_alerts, fold ring_push new_alerts (ring_push a r))
            else Inl Signed_overflow)" if "rg_total_alerts r \<noteq> INT_MAX"
      using Cons.prems that by (intro Cons.IH) (simp_all add: ring.ok_push)
    ultimately show ?thesis
      using True Cons.prems(2) by (auto simp: Let_def a_def)
  qed
qed

section \<open>The invariant of the registry\<close>

definition alert_types :: "string list" where
  "alert_types = [''TEMP_HIGH'', ''HUM_HIGH'', ''POWER_HIGH'', ''VIB_HIGH'', ''STATUS_FAIL'']"

definition alert_ok :: "Alert \<Rightarrow> bool" where
  "alert_ok a =
     (is_valid_node_id (al_node_id a) \<and> al_type a \<in> set alert_types \<and>
      within64 (al_value a) 1000000 \<and> is_finite64 (al_value a))"

definition alerts_wf :: "RegistrySnapshot \<Rightarrow> bool" where
  "alerts_wf r = (ring_ok r \<and> rg_total_alerts r \<le> INT_MAX \<and> (\<forall>a \<in> set (alert_log r). alert_ok a))"

definition counters_wf :: "RegistrySnapshot \<Rightarrow> bool" where
  "counters_wf r =
     (0 \<le> rg_datagrams_total r \<and> 0 \<le> rg_datagrams_unknown_node r \<and> 0 \<le> rg_datagrams_invalid r)"

definition reg_wf :: "registry_state \<Rightarrow> bool" where
  "reg_wf st =
     (nodes_wf (rg_nodes (st_registry st)) (st_seen st) \<and> alerts_wf (st_registry st) \<and>
      counters_wf (st_registry st))"

abbreviation node_at :: "registry_state \<Rightarrow> nat \<Rightarrow> TelemetryNode" where
  "node_at st i \<equiv> rg_nodes (st_registry st) ! i"

abbreviation seen_at :: "registry_state \<Rightarrow> nat \<Rightarrow> nat set" where
  "seen_at st i \<equiv> seen_set (st_seen st ! i)"

text \<open>One slot and its row replaced; the datagram counter; new alerts.\<close>

definition put_node :: "nat \<Rightarrow> TelemetryNode \<Rightarrow> 8 word list \<Rightarrow> registry_state \<Rightarrow> registry_state" where
  "put_node i n row st =
     \<lparr>st_registry = (st_registry st)\<lparr>rg_nodes := (rg_nodes (st_registry st))[i := n]\<rparr>,
      st_seen = (st_seen st)[i := row]\<rparr>"

definition counted :: "registry_state \<Rightarrow> registry_state" where
  "counted st = upd_registry (\<lambda>r. r\<lparr>rg_datagrams_total := rg_datagrams_total r + 1\<rparr>) st"

definition counted_unknown :: "registry_state \<Rightarrow> registry_state" where
  "counted_unknown st =
     upd_registry (\<lambda>r. r\<lparr>rg_datagrams_unknown_node := rg_datagrams_unknown_node r + 1\<rparr>) (counted st)"

definition push_alerts :: "Alert list \<Rightarrow> registry_state \<Rightarrow> registry_state" where
  "push_alerts new_alerts st = upd_registry (fold ring_push new_alerts) st"

lemma reg_wf_slot:
  assumes "reg_wf st" and "i < MAX_NODES"
  shows "row_ok (st_seen st ! i)" and "slot_ok (node_at st i) (seen_at st i)"
    and "tn_in_use (node_at st i) \<Longrightarrow> node_ok (node_at st i) (seen_at st i)"
  using assms nodes_wf_slot unfolding reg_wf_def by blast+

lemma reg_wf_found:
  assumes "reg_wf st" and "find_node (st_registry st) node_id = Some i"
  shows "i < MAX_NODES" and "tn_in_use (node_at st i)" and "tn_node_id (node_at st i) = node_id"
    and "node_ok (node_at st i) (seen_at st i)" and "row_ok (st_seen st ! i)"
    and "i < length (rg_nodes (st_registry st))"
proof -
  have "i < length (rg_nodes (st_registry st)) \<and> tn_in_use (node_at st i) \<and> tn_node_id (node_at st i) = node_id"
    using assms(2) by (rule find_node_Some)
  moreover have "length (rg_nodes (st_registry st)) = MAX_NODES"
    using assms(1) by (simp add: reg_wf_def nodes_wf_def)
  ultimately show "i < MAX_NODES" "tn_in_use (node_at st i)" "tn_node_id (node_at st i) = node_id"
    "node_ok (node_at st i) (seen_at st i)" "row_ok (st_seen st ! i)"
    "i < length (rg_nodes (st_registry st))"
    using reg_wf_slot[OF assms(1), of i] by simp_all
qed

lemma alerts_wf_nodes [simp]: "alerts_wf (r\<lparr>rg_nodes := ns\<rparr>) = alerts_wf r"
  "counters_wf (r\<lparr>rg_nodes := ns\<rparr>) = counters_wf r"
  by (simp_all add: alerts_wf_def counters_wf_def)

lemma reg_wf_put [wf_intros]:
  assumes "reg_wf st" and "i < MAX_NODES" and "tn_in_use (node_at st i)" and "row_ok row"
    and "tn_in_use n" and "tn_node_id n = tn_node_id (node_at st i)" and "node_ok n (seen_set row)"
  shows "reg_wf (put_node i n row st)"
  using assms nodes_wf_same_id[of _ "st_seen st" i row n]
  by (simp add: reg_wf_def put_node_def)

lemma reg_wf_upd_node [wf_intros]:
  assumes "reg_wf st" and "i < MAX_NODES" and "tn_in_use (node_at st i)"
    and "tn_in_use (f (node_at st i))" and "tn_node_id (f (node_at st i)) = tn_node_id (node_at st i)"
    and "node_ok (f (node_at st i)) (seen_at st i)"
  shows "reg_wf (upd_node i f st)"
  using assms nodes_wf_same_row[of _ "st_seen st" i "f (node_at st i)"]
  by (simp add: reg_wf_def upd_node_def)

lemma counted_frame [simp]:
  "rg_nodes (st_registry (counted st)) = rg_nodes (st_registry st)"
  "st_seen (counted st) = st_seen st"
  "find_node (st_registry (counted st)) = find_node (st_registry st)"
  "rg_total_alerts (st_registry (counted st)) = rg_total_alerts (st_registry st)"
  "ring_ok (st_registry (counted st)) = ring_ok (st_registry st)"
  "alert_log (st_registry (counted st)) = alert_log (st_registry st)"
  by (simp_all add: counted_def upd_registry_def find_node_def fun_eq_iff ring_ok_def alert_log_def)

lemma reg_wf_counted [wf_intros]: "reg_wf st \<Longrightarrow> reg_wf (counted st)"
  by (simp add: reg_wf_def alerts_wf_def counters_wf_def) (simp add: counted_def upd_registry_def)

lemma reg_wf_counted_unknown [wf_intros]: "reg_wf st \<Longrightarrow> reg_wf (counted_unknown st)"
  by (simp add: reg_wf_def alerts_wf_def counters_wf_def counted_unknown_def counted_def
      upd_registry_def ring_ok_def alert_log_def)

lemma reg_wf_invalid [wf_intros]: "reg_wf st \<Longrightarrow> reg_wf (registry_invalid_datagram st)"
  by (simp add: reg_wf_def alerts_wf_def counters_wf_def registry_invalid_datagram_def
      upd_registry_def ring_ok_def alert_log_def)

lemma set_last_n: "set (last_n k xs) \<subseteq> set xs"
  by (simp add: last_n_def set_drop_subset)

lemma reg_wf_push_alerts [wf_intros]:
  assumes "reg_wf st" and "\<forall>a \<in> set xs. alert_ok a"
    and "rg_total_alerts (st_registry st) + int (length xs) \<le> INT_MAX"
  shows "reg_wf (push_alerts xs st)"
proof -
  have ok: "ring_ok (st_registry st)" using assms(1) by (simp add: reg_wf_def alerts_wf_def)
  have "set (alert_log (fold ring_push xs (st_registry st))) \<subseteq> set (alert_log (st_registry st)) \<union> set xs"
    using ring.entries_pushes[OF ok length_alert_log_le, of xs]
      set_last_n[of MAX_ALERTS "alert_log (st_registry st) @ xs"] by simp
  then show ?thesis
    using assms ring.ok_pushes[OF ok, of xs]
    by (auto simp: reg_wf_def push_alerts_def upd_registry_def alerts_wf_def counters_wf_def)
qed

lemma alert_of_ok:
  assumes "is_valid_node_id node_id" and "measurement_ok m"
  shows "alert_ok (alert_of now node_id m)"
proof (cases "ms_name m = ''STATUS''")
  case True
  then show ?thesis
    using assms(1) by (simp add: alert_ok_def alert_of_def alert_types_def within64_def int64_def)
next
  case False
  then have "ms_name m \<in> {''TEMP'', ''HUM'', ''POWER'', ''VIB''}"
    using measurement_ok_name[OF assms(2)] by (auto simp: variable_names_def)
  then show ?thesis
    using assms False measurement_ok_within[OF assms(2)]
    by (auto simp: alert_ok_def alert_of_def alert_types_def)
qed

lemma registry_init_wf: "reg_wf (registry_init now sec nsec)"
  by (simp add: reg_wf_def registry_init_def nodes_wf_def slot_ok_def row_ok_def zero_node_def
      alerts_wf_def ring_ok_def alert_log_def counters_wf_def INT_MAX_def SESSION_LIMIT_def)

end
