(* ===== verification/RegistryOps.thy ===== *)
theory RegistryOps
  imports RegistryInv
begin

text \<open>
  The operations of \<^verbatim>\<open>server/node_registry.c\<close> on well-formed registries: each is total (no
  undefined behaviour), keeps the invariant, and equals a transition of the one slot it touches.
\<close>

section \<open>Transitions of one node\<close>

definition fresh_node :: "string \<Rightarrow> string \<Rightarrow> TelemetryNode" where
  "fresh_node node_id session =
     zero_node\<lparr>tn_node_id := node_id, tn_in_use := True, tn_last_sequence := - 1, tn_session := session\<rparr>"

definition dup_node :: "TelemetryNode \<Rightarrow> TelemetryNode" where
  "dup_node n = n\<lparr>tn_duplicates := tn_duplicates n + 1\<rparr>"

text \<open>A sequence number not seen before; \<open>S\<close> already contains it.\<close>

definition accept_node :: "int \<Rightarrow> nat set \<Rightarrow> TelemetryNode \<Rightarrow> TelemetryNode" where
  "accept_node now S n =
     n\<lparr>tn_datagrams_received := tn_datagrams_received n + 1, tn_last_seen := now,
       tn_datagrams_lost := loss_of n S\<rparr>"

definition late_node :: "int \<Rightarrow> nat set \<Rightarrow> TelemetryNode \<Rightarrow> TelemetryNode" where
  "late_node now S n = (accept_node now S n)\<lparr>tn_reordered := tn_reordered n + 1\<rparr>"

definition newest_node :: "int \<Rightarrow> nat \<Rightarrow> Measurement list \<Rightarrow> nat set \<Rightarrow> TelemetryNode \<Rightarrow> TelemetryNode" where
  "newest_node now s ms S n =
     (accept_node now S n)\<lparr>tn_last_sequence := int s, tn_measurements := ms\<rparr>"

definition report_node ::
  "int \<Rightarrow> int \<Rightarrow> int \<Rightarrow> int \<Rightarrow> int \<Rightarrow> nat set \<Rightarrow> TelemetryNode \<Rightarrow> TelemetryNode" where
  "report_node attempts sent omitted errors final S n =
     (let n' = n\<lparr>tn_attempts := attempts, tn_sent := sent, tn_omitted := omitted,
                tn_send_errors := errors, tn_report_seen := 1, tn_final_report := final\<rparr>
      in n'\<lparr>tn_datagrams_lost := loss_of n' S\<rparr>)"

lemmas node_transition_defs =
  fresh_node_def dup_node_def accept_node_def late_node_def newest_node_def report_node_def

lemma fresh_node_simps [simp]:
  "tn_in_use (fresh_node node_id session)"
  "tn_node_id (fresh_node node_id session) = node_id"
  "tn_session (fresh_node node_id session) = session"
  by (simp_all add: fresh_node_def)

lemma node_ok_fresh:
  "is_valid_node_id node_id \<Longrightarrow> is_valid_session session \<Longrightarrow> node_ok (fresh_node node_id session) {}"
  by (simp add: node_ok_def fresh_node_def zero_node_def loss_of_def newest_of_def measurements_ok_def)

lemma node_ok_dup: "node_ok n S \<Longrightarrow> node_ok (dup_node n) S"
  by (auto simp: node_ok_def dup_node_def loss_of_def)

lemma newest_of_insert_late:
  assumes "finite S" and "int s < newest_of S"
  shows "newest_of (insert s S) = newest_of S"
proof -
  have "S \<noteq> {}" "s < Max S" using assms(2) by (auto simp: newest_of_def split: if_splits)
  then show ?thesis using assms(1) by (simp add: newest_of_def)
qed

lemma newest_of_insert_new:
  assumes "finite S" and "newest_of S \<le> int s"
  shows "newest_of (insert s S) = int s"
  using assms by (auto simp: newest_of_def split: if_splits)

lemma newest_of_bound: "finite S \<Longrightarrow> s \<in> S \<Longrightarrow> int s \<le> newest_of S"
  by (auto simp: newest_of_def)

lemma loss_of_frame [simp]:
  "loss_of (n\<lparr>tn_datagrams_received := x\<rparr>) S = loss_of n S"
  "loss_of (n\<lparr>tn_last_seen := x\<rparr>) S = loss_of n S"
  "loss_of (n\<lparr>tn_datagrams_lost := x\<rparr>) S = loss_of n S"
  "loss_of (n\<lparr>tn_reordered := x\<rparr>) S = loss_of n S"
  "loss_of (n\<lparr>tn_last_sequence := x\<rparr>) S = loss_of n S"
  "loss_of (n\<lparr>tn_measurements := ms\<rparr>) S = loss_of n S"
  by (simp_all add: loss_of_def)

lemma node_ok_late:
  assumes "node_ok n S" and "finite S" and "s \<notin> S"
    and "int s < tn_last_sequence n" and "tn_final_report n = 0 \<or> int s < tn_attempts n"
  shows "node_ok (late_node now (insert s S) n) (insert s S)"
  using assms newest_of_insert_late[OF assms(2), of s]
  by (auto simp: node_ok_def late_node_def accept_node_def)

lemma node_ok_newest:
  assumes "node_ok n S" and "finite S" and "s \<notin> S" and "measurements_ok ms"
    and "tn_last_sequence n \<le> int s" and "tn_final_report n = 0 \<or> int s < tn_attempts n"
  shows "node_ok (newest_node now s ms (insert s S) n) (insert s S)"
  using assms newest_of_insert_new[OF assms(2), of s]
  by (auto simp: node_ok_def newest_node_def accept_node_def)

lemma node_ok_report:
  assumes "node_ok n S" and "finite S"
    and "\<not> report_refused n attempts sent omitted errors final"
    and "0 \<le> sent" and "0 \<le> omitted" and "0 \<le> errors" and "attempts \<le> int SESSION_LIMIT"
    and "final \<in> {0, 1}"
  shows "node_ok (report_node attempts sent omitted errors final S n) S"
proof -
  have "S \<subseteq> {..<nat attempts}" if "final = 1"
  proof
    fix s assume "s \<in> S"
    then have "int s \<le> tn_last_sequence n"
      using newest_of_bound[OF assms(2)] assms(1) by (simp add: node_ok_def)
    also have "\<dots> < attempts" using assms(3) that by (simp add: report_refused_def)
    finally show "s \<in> {..<nat attempts}" by simp
  qed
  then show ?thesis
    using assms
    by (auto simp: node_ok_def report_node_def Let_def loss_of_def report_refused_def)
qed

section \<open>Registration\<close>

lemma register_known:
  assumes "find_node (st_registry st) node_id = Some i"
  shows "registry_register_node node_id session st =
    Inr (if tn_session (node_at st i) = session then 0 else ERR_ID_IN_USE, st)"
  using assms by (simp add: registry_register_node_def)

lemma register_full:
  assumes "find_node (st_registry st) node_id = None"
    and "find_index (\<lambda>n. \<not> tn_in_use n) (rg_nodes (st_registry st)) = None"
  shows "registry_register_node node_id session st = Inr (ERR_SERVER_FULL, st)"
  using assms by (simp add: registry_register_node_def create_node_def)

lemma register_new:
  assumes "find_node (st_registry st) node_id = None"
    and "find_index (\<lambda>n. \<not> tn_in_use n) (rg_nodes (st_registry st)) = Some i"
    and "is_valid_node_id node_id" and "is_valid_session session"
  shows "registry_register_node node_id session st =
    Inr (0, upd_node i (\<lambda>n. fresh_node node_id session) st)"
proof -
  have "length node_id < MAX_NODE_ID" "length session < MAX_SESSION"
    using assms(3,4) by (auto simp: is_valid_node_id_def is_valid_session_def MAX_SESSION_def)
  moreover have "i < length (rg_nodes (st_registry st))"
    using find_index_SomeD[OF assms(2)] by simp
  ultimately show ?thesis
    using assms(1,2)
    by (simp add: registry_register_node_def create_node_def upd_node_def fresh_node_def)
qed

lemma reg_wf_fresh:
  assumes wf: "reg_wf st" and none: "find_node (st_registry st) node_id = None"
    and free: "find_index (\<lambda>n. \<not> tn_in_use n) (rg_nodes (st_registry st)) = Some i"
    and ok: "is_valid_node_id node_id" "is_valid_session session"
  shows "reg_wf (upd_node i (\<lambda>n. fresh_node node_id session) st)"
proof -
  have len: "length (rg_nodes (st_registry st)) = MAX_NODES"
    using wf by (simp add: reg_wf_def nodes_wf_def)
  have i: "i < MAX_NODES" "\<not> tn_in_use (node_at st i)"
    using find_index_SomeD[OF free] len by simp_all
  have "seen_at st i = {}"
    using wf i nodes_wf_slot(4) unfolding reg_wf_def by blast
  then have "nodes_wf ((rg_nodes (st_registry st))[i := fresh_node node_id session])
      ((st_seen st)[i := st_seen st ! i])"
    using wf i none len ok reg_wf_slot(1)[OF wf i(1)]
    by (intro nodes_wf_update)
      (auto simp: reg_wf_def node_ok_fresh dest: find_node_None)
  then show ?thesis
    using wf by (simp add: reg_wf_def upd_node_def)
qed

text \<open>Registration always returns, keeps the invariant, and answers with one of three codes.\<close>

lemma register_total:
  assumes "reg_wf st" and "is_valid_node_id node_id" and "is_valid_session session"
  obtains rc st' where "registry_register_node node_id session st = Inr (rc, st')" and "reg_wf st'"
    and "rc \<in> {0, ERR_ID_IN_USE, ERR_SERVER_FULL}"
proof (cases "find_node (st_registry st) node_id")
  case (Some i)
  then show ?thesis using that register_known[OF Some] assms(1) by simp
next
  case None
  show ?thesis
  proof (cases "find_index (\<lambda>n. \<not> tn_in_use n) (rg_nodes (st_registry st))")
    case None': None
    then show ?thesis using that register_full[OF None None'] assms(1) by blast
  next
    case (Some i)
    then show ?thesis
      using that register_new[OF None Some assms(2,3)] reg_wf_fresh[OF assms(1) None Some assms(2,3)] by blast
  qed
qed

section \<open>The loss estimate\<close>

lemma update_loss_eq:
  assumes "row_ok (st_seen st ! i)" and "tn_attempts (node_at st i) \<le> int SESSION_LIMIT"
  shows "update_loss i st =
    Inr (upd_node i (\<lambda>n. n\<lparr>tn_datagrams_lost := loss_of n (seen_at st i)\<rparr>) st)"
proof -
  have "count_seen (st_seen st ! i) (nat (tn_attempts (node_at st i))) =
      Inr (int (card (seen_at st i \<inter> {..<nat (tn_attempts (node_at st i))})))"
    using assms by (intro count_seen_card) auto
  then show ?thesis by (simp add: update_loss_def upd_node_def loss_of_def max_def)
qed

lemma upd_node_twice [simp]:
  "i < length (rg_nodes (st_registry st)) \<Longrightarrow> upd_node i f (upd_node i g st) = upd_node i (\<lambda>n. f (g n)) st"
  by (simp add: upd_node_def)

lemma upd_node_frame [simp]:
  "st_seen (upd_node i f st) = st_seen st"
  "length (rg_nodes (st_registry (upd_node i f st))) = length (rg_nodes (st_registry st))"
  "i < length (rg_nodes (st_registry st)) \<Longrightarrow> node_at (upd_node i f st) i = f (node_at st i)"
  "alert_log (st_registry (upd_node i f st)) = alert_log (st_registry st)"
  "ring_ok (st_registry (upd_node i f st)) = ring_ok (st_registry st)"
  "rg_total_alerts (st_registry (upd_node i f st)) = rg_total_alerts (st_registry st)"
  by (simp_all add: upd_node_def)

section \<open>Sender reports\<close>

text \<open>The received sequence numbers below the reported attempts.\<close>

definition received_below :: "int \<Rightarrow> nat set \<Rightarrow> int" where
  "received_below attempts S = int (card (S \<inter> {..<nat attempts}))"

lemma report_eq:
  assumes wf: "reg_wf st" and i: "find_node (st_registry st) node_id = Some i"
    and sess: "tn_session (node_at st i) = session" and att: "attempts \<le> int SESSION_LIMIT"
  shows "registry_report node_id session attempts sent omitted errors final st =
    (if report_refused (node_at st i) attempts sent omitted errors final \<or>
        sent < received_below attempts (seen_at st i)
     then Inr (ERR_BAD_FORMAT, st)
     else Inr (0, upd_node i (report_node attempts sent omitted errors final (seen_at st i)) st))"
proof -
  note f = reg_wf_found[OF wf i]
  have "count_seen (st_seen st ! i) (nat attempts) = Inr (received_below attempts (seen_at st i))"
    using f(5) att by (simp add: count_seen_card received_below_def)
  then show ?thesis
    using i sess att f(5,6)
    by (simp add: registry_report_def Let_def update_loss_eq report_node_def[abs_def])
qed

lemma report_unknown:
  "find_node (st_registry st) node_id = None \<Longrightarrow>
     registry_report node_id session attempts sent omitted errors final st = Inr (ERR_UNKNOWN_NODE, st)"
  by (simp add: registry_report_def)

lemma report_other_session:
  "find_node (st_registry st) node_id = Some i \<Longrightarrow> tn_session (node_at st i) \<noteq> session \<Longrightarrow>
     registry_report node_id session attempts sent omitted errors final st = Inr (ERR_UNKNOWN_NODE, st)"
  by (simp add: registry_report_def)

lemma report_total:
  assumes wf: "reg_wf st" and nn: "0 \<le> sent" "0 \<le> omitted" "0 \<le> errors"
    and att: "attempts \<le> int SESSION_LIMIT" and fin: "final \<in> {0, 1}"
  obtains rc st' where
    "registry_report node_id session attempts sent omitted errors final st = Inr (rc, st')"
    and "reg_wf st'" and "rc \<in> {0, ERR_UNKNOWN_NODE, ERR_BAD_FORMAT}" and "rc \<noteq> 0 \<Longrightarrow> st' = st"
proof (cases "find_node (st_registry st) node_id")
  case None
  then show ?thesis using that report_unknown wf by blast
next
  case (Some i)
  note f = reg_wf_found[OF wf Some]
  show ?thesis
  proof (cases "tn_session (node_at st i) = session")
    case False
    then show ?thesis using that report_other_session[OF Some] wf by blast
  next
    case True
    note eq = report_eq[OF wf Some True att]
    have fin_S: "finite (seen_at st i)" using f(5) by (rule bm.finite_elems)
    have "reg_wf (upd_node i (report_node attempts sent omitted errors final (seen_at st i)) st)"
      if "\<not> report_refused (node_at st i) attempts sent omitted errors final"
    proof (rule reg_wf_upd_node[OF wf f(1,2)])
      show "node_ok (report_node attempts sent omitted errors final (seen_at st i) (node_at st i)) (seen_at st i)"
        using f(4) fin_S that nn att fin by (rule node_ok_report)
    qed (use f(2) in \<open>simp_all add: report_node_def Let_def\<close>)
    then show ?thesis using that eq wf by (metis insertI1 insertI2)
  qed
qed

section \<open>Telemetry\<close>

text \<open>The alerts of a datagram: those of the values that cross into anomaly, in their order.\<close>

definition new_alerts_of ::
  "(nat \<Rightarrow> int) \<Rightarrow> string \<Rightarrow> TelemetryNode \<Rightarrow> Measurement list \<Rightarrow> Alert list" where
  "new_alerts_of clk node_id n ms = alerts_from clk node_id 0 (filter (crosses n) ms)"

lemma length_new_alerts: "length (new_alerts_of clk node_id n ms) \<le> length ms"
  by (simp add: new_alerts_of_def)

lemma new_alerts_ok:
  assumes "is_valid_node_id node_id" and "\<forall>m \<in> set ms. measurement_ok m"
  shows "\<forall>a \<in> set (new_alerts_of clk node_id n ms). alert_ok a"
  using assms by (auto simp: new_alerts_of_def alert_of_ok dest!: alerts_from_in)

lemma crosses_measurements: "tn_measurements n = tn_measurements n' \<Longrightarrow> crosses n = crosses n'"
  by (simp add: crosses_def was_anomalous_def fun_eq_iff)

text \<open>What one parsed datagram does to a node of the right session: five outcomes.\<close>

definition telemetry_outcome ::
  "int \<Rightarrow> (nat \<Rightarrow> int) \<Rightarrow> string \<Rightarrow> nat \<Rightarrow> nat \<Rightarrow> Measurement list \<Rightarrow> registry_state \<Rightarrow>
     fault + int \<times> Alert list \<times> registry_state" where
  "telemetry_outcome now clk node_id i s ms st =
     (let n = node_at st i; S' = insert s (seen_at st i); row' = seen_mark (st_seen st ! i) (int s);
          new_alerts = new_alerts_of clk node_id n ms
      in if tn_final_report n \<noteq> 0 \<and> tn_attempts n \<le> int s then
           Inr (- 1, [], registry_invalid_datagram (counted st))
         else if s \<in> seen_at st i then Inr (0, [], upd_node i dup_node (counted st))
         else if int s < tn_last_sequence n then
           Inr (0, [], put_node i (late_node now S' n) row' (counted st))
         else if rg_total_alerts (st_registry st) + int (length new_alerts) \<le> INT_MAX then
           Inr (int (length new_alerts), new_alerts,
                push_alerts new_alerts (put_node i (newest_node now s ms S' n) row' (counted st)))
         else Inl Signed_overflow)"

lemma put_node_twice [simp]:
  "i < length (rg_nodes (st_registry st)) \<Longrightarrow>
     upd_node i f (put_node i n row st) = put_node i (f n) row st"
  by (simp add: upd_node_def put_node_def)

lemma accept_eq:
  assumes wf: "reg_wf st" and i: "i < MAX_NODES" and use: "tn_in_use (node_at st i)"
    and s: "s < SESSION_LIMIT"
  shows "update_loss i
      (upd_node i (\<lambda>n. n\<lparr>tn_datagrams_received := tn_datagrams_received n + 1, tn_last_seen := now\<rparr>)
        ((counted st)\<lparr>st_seen := (st_seen st)[i := seen_mark (st_seen st ! i) (int s)]\<rparr>)) =
    Inr (put_node i (accept_node now (insert s (seen_at st i)) (node_at st i))
          (seen_mark (st_seen st ! i) (int s)) (counted st))"
proof -
  have row: "row_ok (st_seen st ! i)" and ok: "node_ok (node_at st i) (seen_at st i)"
    using reg_wf_slot[OF wf i] use by simp_all
  have len: "length (rg_nodes (st_registry st)) = MAX_NODES" "length (st_seen st) = MAX_NODES"
    using wf by (simp_all add: reg_wf_def nodes_wf_def)
  define st1 where "st1 = put_node i ((node_at st i)\<lparr>tn_datagrams_received :=
      tn_datagrams_received (node_at st i) + 1, tn_last_seen := now\<rparr>)
      (seen_mark (st_seen st ! i) (int s)) (counted st)"
  have at: "node_at st1 i = (node_at st i)\<lparr>tn_datagrams_received :=
      tn_datagrams_received (node_at st i) + 1, tn_last_seen := now\<rparr>"
    "st_seen st1 ! i = seen_mark (st_seen st ! i) (int s)"
    using i len by (simp_all add: st1_def put_node_def)
  have "update_loss i st1 = Inr (upd_node i (\<lambda>n. n\<lparr>tn_datagrams_lost := loss_of n (seen_at st1 i)\<rparr>) st1)"
  proof (rule update_loss_eq)
    show "row_ok (st_seen st1 ! i)" using row s by (simp add: at bm.ok_mark)
    show "tn_attempts (node_at st1 i) \<le> int SESSION_LIMIT" using ok by (simp add: at node_ok_def)
  qed
  also have "seen_at st1 i = insert s (seen_at st i)"
    using row s by (simp add: at bm.elems_mark)
  also have "upd_node i (\<lambda>n. n\<lparr>tn_datagrams_lost := loss_of n (insert s (seen_at st i))\<rparr>) st1 =
      put_node i (accept_node now (insert s (seen_at st i)) (node_at st i))
          (seen_mark (st_seen st ! i) (int s)) (counted st)"
    using i len by (simp add: st1_def accept_node_def)
  also have "st1 = upd_node i (\<lambda>n. n\<lparr>tn_datagrams_received := tn_datagrams_received n + 1, tn_last_seen := now\<rparr>)
      ((counted st)\<lparr>st_seen := (st_seen st)[i := seen_mark (st_seen st ! i) (int s)]\<rparr>)"
    by (rule registry_state.equality) (simp_all add: st1_def put_node_def upd_node_def)
  finally show ?thesis .
qed

lemma alerts_after_accept:
  assumes wf: "reg_wf st" and len: "length (rg_nodes (st_registry st)) = MAX_NODES" "i < MAX_NODES"
    and idf: "length node_id < MAX_NODE_ID" and ms: "\<forall>m \<in> set ms. measurement_ok m" "length ms \<le> MAX_VARS"
    and n': "tn_measurements n' = tn_measurements (node_at st i)"
  shows "alert_loop clk node_id n' ms [] (st_registry (put_node i n' row (counted st))) =
    (let new_alerts = new_alerts_of clk node_id (node_at st i) ms
     in if rg_total_alerts (st_registry st) + int (length new_alerts) \<le> INT_MAX
        then Inr (new_alerts, fold ring_push new_alerts (st_registry (put_node i n' row (counted st))))
        else Inl Signed_overflow)"
proof -
  let ?r = "st_registry (put_node i n' row (counted st))"
  have r: "ring_ok ?r" "rg_total_alerts ?r = rg_total_alerts (st_registry st)"
    "rg_total_alerts (st_registry st) \<le> INT_MAX"
    using wf by (simp_all add: reg_wf_def alerts_wf_def put_node_def)
  have "alert_loop clk node_id n' ms [] ?r =
    (let new_alerts = alerts_from clk node_id (length ([]::Alert list)) (filter (crosses n') ms)
     in if rg_total_alerts ?r + int (length new_alerts) \<le> INT_MAX
        then Inr ([] @ new_alerts, fold ring_push new_alerts ?r) else Inl Signed_overflow)"
    using r idf ms by (intro alert_loop_eq) simp_all
  then show ?thesis
    using r(2) crosses_measurements[OF n'] by (simp add: new_alerts_of_def Let_def)
qed

lemma telemetry_eq:
  assumes wf: "reg_wf st" and i: "find_node (st_registry st) node_id = Some i"
    and sess: "tn_session (node_at st i) = session" and s: "s < SESSION_LIMIT"
    and ms: "\<forall>m \<in> set ms. measurement_ok m" "length ms \<le> MAX_VARS"
  shows "registry_record_telemetry now clk node_id session (int s) ms st =
    telemetry_outcome now clk node_id i s ms st"
proof -
  note f = reg_wf_found[OF wf i]
  have len: "length (rg_nodes (st_registry st)) = MAX_NODES"
    using wf by (simp add: reg_wf_def nodes_wf_def)
  have idf: "length node_id < MAX_NODE_ID"
    using f(3,4) by (simp add: node_ok_def is_valid_node_id_def)
  define S' row' n1 where "S' = insert s (seen_at st i)" and "row' = seen_mark (st_seen st ! i) (int s)"
    and "n1 = accept_node now S' (node_at st i)"
  have hit: "seen_test (st_seen st ! i) (int s) = Inr (s \<in> seen_at st i)"
    using f(5) s by (rule bm.test_in)
  have acc: "update_loss i
      (upd_node i (\<lambda>n. n\<lparr>tn_datagrams_received := tn_datagrams_received n + 1, tn_last_seen := now\<rparr>)
        ((counted st)\<lparr>st_seen := (st_seen st)[i := seen_mark (st_seen st ! i) (int s)]\<rparr>)) =
    Inr (put_node i n1 row' (counted st))"
    unfolding n1_def S'_def row'_def by (rule accept_eq[OF wf f(1,2) s])
  have seq: "upd_node i (\<lambda>n. n\<lparr>tn_last_sequence := int s\<rparr>) (put_node i n1 row' (counted st)) =
      put_node i (n1\<lparr>tn_last_sequence := int s\<rparr>) row' (counted st)"
    using f(6) by simp
  have at: "node_at (put_node i (n1\<lparr>tn_last_sequence := int s\<rparr>) row' (counted st)) i =
      n1\<lparr>tn_last_sequence := int s\<rparr>"
    using f(6) by (simp add: put_node_def)
  have loop: "alert_loop clk node_id (n1\<lparr>tn_last_sequence := int s\<rparr>) ms []
      (st_registry (put_node i (n1\<lparr>tn_last_sequence := int s\<rparr>) row' (counted st))) =
    (let new_alerts = new_alerts_of clk node_id (node_at st i) ms
     in if rg_total_alerts (st_registry st) + int (length new_alerts) \<le> INT_MAX
        then Inr (new_alerts, fold ring_push new_alerts
               (st_registry (put_node i (n1\<lparr>tn_last_sequence := int s\<rparr>) row' (counted st))))
        else Inl Signed_overflow)"
    using wf len f(1) idf ms by (rule alerts_after_accept) (simp add: n1_def accept_node_def)
  have store: "upd_node i (\<lambda>n. n\<lparr>tn_measurements := ms\<rparr>)
      ((put_node i (n1\<lparr>tn_last_sequence := int s\<rparr>) row' (counted st))\<lparr>st_registry :=
        fold ring_push xs (st_registry (put_node i (n1\<lparr>tn_last_sequence := int s\<rparr>) row' (counted st)))\<rparr>) =
      push_alerts xs (put_node i (newest_node now s ms S' (node_at st i)) row' (counted st))" for xs
    using f(6) by (simp add: upd_node_def put_node_def push_alerts_def upd_registry_def n1_def newest_node_def)
  have late_eq: "upd_node i (\<lambda>n. n\<lparr>tn_reordered := tn_reordered n + 1\<rparr>) (put_node i n1 row' (counted st)) =
      put_node i (late_node now S' (node_at st i)) row' (counted st)"
    using f(6) by (simp add: late_node_def n1_def accept_node_def)
  note run = registry_record_telemetry_def telemetry_outcome_def Let_def i sess hit counted_def[symmetric]
    S'_def[symmetric] row'_def[symmetric]
  consider (final) "tn_final_report (node_at st i) \<noteq> 0 \<and> tn_attempts (node_at st i) \<le> int s"
    | (dup) "\<not> (tn_final_report (node_at st i) \<noteq> 0 \<and> tn_attempts (node_at st i) \<le> int s)" "s \<in> seen_at st i"
    | (late) "\<not> (tn_final_report (node_at st i) \<noteq> 0 \<and> tn_attempts (node_at st i) \<le> int s)"
        "s \<notin> seen_at st i" "int s < tn_last_sequence (node_at st i)"
    | (newest) "\<not> (tn_final_report (node_at st i) \<noteq> 0 \<and> tn_attempts (node_at st i) \<le> int s)"
        "s \<notin> seen_at st i" "\<not> int s < tn_last_sequence (node_at st i)"
    by blast
  then show ?thesis
  proof cases
    case final
    then show ?thesis by (simp add: run)
  next
    case dup
    then show ?thesis by (simp add: run dup_node_def[abs_def])
  next
    case late
    then show ?thesis by (simp add: run acc[unfolded row'_def[symmetric]] late_eq)
  next
    case newest
    then show ?thesis
      using ms(2) by (simp add: run acc[unfolded row'_def[symmetric]] seq at loop store)
  qed
qed

lemma telemetry_unknown:
  assumes "find_node (st_registry st) node_id = None \<or>
    (\<exists>i. find_node (st_registry st) node_id = Some i \<and> tn_session (node_at st i) \<noteq> session)"
  shows "registry_record_telemetry now clk node_id session s ms st = Inr (- 1, [], counted_unknown st)"
  using assms
  by (auto simp: registry_record_telemetry_def Let_def counted_def[symmetric] counted_unknown_def)

lemma reg_wf_outcome:
  assumes wf: "reg_wf st" and i: "find_node (st_registry st) node_id = Some i"
    and s: "s < SESSION_LIMIT" and ms: "measurements_ok ms"
    and run: "telemetry_outcome now clk node_id i s ms st = Inr (rc, alerts, st')"
  shows "reg_wf st'"
proof -
  note f = reg_wf_found[OF wf i]
  have fin: "finite (seen_at st i)" using f(5) by (rule bm.finite_elems)
  have wfc: "reg_wf (counted st)" using wf by (rule reg_wf_counted)
  have row: "row_ok (seen_mark (st_seen st ! i) (int s))"
    "seen_set (seen_mark (st_seen st ! i) (int s)) = insert s (seen_at st i)"
    using f(5) s by (simp_all add: bm.ok_mark bm.elems_mark)
  have put: "reg_wf (put_node i n (seen_mark (st_seen st ! i) (int s)) (counted st))"
    if "tn_in_use n" "tn_node_id n = tn_node_id (node_at st i)" "node_ok n (insert s (seen_at st i))" for n
    using that f(1,2) row by (intro reg_wf_put[OF wfc]) simp_all
  have open_run: "tn_final_report (node_at st i) = 0 \<or> int s < tn_attempts (node_at st i)"
    if "\<not> (tn_final_report (node_at st i) \<noteq> 0 \<and> tn_attempts (node_at st i) \<le> int s)"
    using that by auto
  note simps = telemetry_outcome_def Let_def
  consider (final) "st' = registry_invalid_datagram (counted st)"
    | (dup) "st' = upd_node i dup_node (counted st)"
    | (late) "s \<notin> seen_at st i" "int s < tn_last_sequence (node_at st i)"
        "tn_final_report (node_at st i) = 0 \<or> int s < tn_attempts (node_at st i)"
        "st' = put_node i (late_node now (insert s (seen_at st i)) (node_at st i))
                 (seen_mark (st_seen st ! i) (int s)) (counted st)"
    | (newest) "s \<notin> seen_at st i" "tn_last_sequence (node_at st i) \<le> int s"
        "tn_final_report (node_at st i) = 0 \<or> int s < tn_attempts (node_at st i)"
        "rg_total_alerts (st_registry st) + int (length (new_alerts_of clk node_id (node_at st i) ms)) \<le> INT_MAX"
        "st' = push_alerts (new_alerts_of clk node_id (node_at st i) ms)
                 (put_node i (newest_node now s ms (insert s (seen_at st i)) (node_at st i))
                   (seen_mark (st_seen st ! i) (int s)) (counted st))"
    using run open_run by (simp add: simps split: if_splits) auto
  then show ?thesis
  proof cases
    case final
    then show ?thesis using wfc by (simp add: reg_wf_invalid)
  next
    case dup
    have "reg_wf (upd_node i dup_node (counted st))"
      using f(1,2) node_ok_dup[OF f(4)] by (intro reg_wf_upd_node[OF wfc]) (simp_all add: dup_node_def)
    then show ?thesis using dup by simp
  next
    case late
    have "reg_wf (put_node i (late_node now (insert s (seen_at st i)) (node_at st i))
        (seen_mark (st_seen st ! i) (int s)) (counted st))"
      using f(2) node_ok_late[OF f(4) fin late(1-3)]
      by (intro put) (simp_all add: late_node_def accept_node_def)
    then show ?thesis using late by simp
  next
    case newest
    have "reg_wf (put_node i (newest_node now s ms (insert s (seen_at st i)) (node_at st i))
        (seen_mark (st_seen st ! i) (int s)) (counted st))"
      using f(2) node_ok_newest[OF f(4) fin newest(1) ms newest(2,3)]
      by (intro put) (simp_all add: newest_node_def accept_node_def)
    moreover have "\<forall>a \<in> set (new_alerts_of clk node_id (node_at st i) ms). alert_ok a"
      using ms f(3,4) by (intro new_alerts_ok) (auto simp: node_ok_def measurements_ok_def)
    ultimately show ?thesis
      using newest(4,5) by (auto intro: reg_wf_push_alerts simp: put_node_def)
  qed
qed

text \<open>
  Telemetry that the parsers accepted: no undefined behaviour while the alert counter has room
  for the values of one datagram, and the invariant is kept.
\<close>

lemma telemetry_wf:
  assumes "reg_wf st" and "s < SESSION_LIMIT" and "measurements_ok ms" and "length ms \<le> MAX_VARS"
    and run: "registry_record_telemetry now clk node_id session (int s) ms st = Inr (rc, alerts, st')"
  shows "reg_wf st'"
proof (cases "\<exists>i. find_node (st_registry st) node_id = Some i \<and> tn_session (node_at st i) = session")
  case True
  then obtain i where i: "find_node (st_registry st) node_id = Some i" "tn_session (node_at st i) = session"
    by blast
  have "\<forall>m \<in> set ms. measurement_ok m" using assms(3) by (simp add: measurements_ok_def)
  then show ?thesis
    using run telemetry_eq[OF assms(1) i assms(2)] reg_wf_outcome[OF assms(1) i(1) assms(2,3)] assms(4)
    by simp
next
  case False
  then have "st' = counted_unknown st"
    using run telemetry_unknown[of st node_id session] by (cases "find_node (st_registry st) node_id") auto
  then show ?thesis using assms(1) by (simp add: reg_wf_counted_unknown)
qed

lemma telemetry_no_fault:
  assumes "reg_wf st" and "s < SESSION_LIMIT" and "measurements_ok ms" and "length ms \<le> MAX_VARS"
    and "rg_total_alerts (st_registry st) + int (length ms) \<le> INT_MAX"
  shows "no_fault (registry_record_telemetry now clk node_id session (int s) ms st)"
proof (cases "\<exists>i. find_node (st_registry st) node_id = Some i \<and> tn_session (node_at st i) = session")
  case True
  then obtain i where i: "find_node (st_registry st) node_id = Some i" "tn_session (node_at st i) = session"
    by blast
  have "rg_total_alerts (st_registry st) + int (length (new_alerts_of clk node_id (node_at st i) ms)) \<le> INT_MAX"
    using assms(5) length_new_alerts[of clk node_id "node_at st i" ms] by linarith
  then have "no_fault (telemetry_outcome now clk node_id i s ms st)"
    by (simp add: telemetry_outcome_def Let_def)
  then show ?thesis
    using telemetry_eq[OF assms(1) i assms(2)] assms(3,4) by (simp add: measurements_ok_def)
next
  case False
  then have "registry_record_telemetry now clk node_id session (int s) ms st = Inr (- 1, [], counted_unknown st)"
    by (intro telemetry_unknown) (cases "find_node (st_registry st) node_id"; auto)
  then show ?thesis by simp
qed

section \<open>A registry with one node\<close>

definition demo_session :: string where
  "demo_session = ''0123456789abcdef0123456789abcdef''"

definition one_node :: registry_state where
  "one_node = upd_node 0 (\<lambda>n. fresh_node ''node-1'' demo_session) (registry_init 100 5 7)"

lemma demo_ids [simp]: "is_valid_node_id ''node-1''" "is_valid_session demo_session"
  by code_simp+

lemma init_empty:
  "find_node (st_registry (registry_init now sec nsec)) node_id = None"
  "find_index (\<lambda>n. \<not> tn_in_use n) (rg_nodes (st_registry (registry_init now sec nsec))) = Some 0"
  by (simp_all add: find_node_def registry_init_def zero_node_def MAX_NODES_def)

lemma one_node_run:
  "registry_register_node ''node-1'' demo_session (registry_init 100 5 7) = Inr (0, one_node)"
  unfolding one_node_def by (rule register_new) (simp_all add: init_empty)

lemma one_node_wf: "reg_wf one_node"
  unfolding one_node_def by (rule reg_wf_fresh) (simp_all add: registry_init_wf init_empty)

lemma one_node_at:
  "node_at one_node 0 = fresh_node ''node-1'' demo_session" "st_seen one_node = st_seen (registry_init 100 5 7)"
  "seen_at one_node 0 = {}" "rg_total_alerts (st_registry one_node) = 0"
  by (simp_all add: one_node_def upd_node_def registry_init_def MAX_NODES_def)

lemma one_node_find: "find_node (st_registry one_node) ''node-1'' = Some 0"
  using find_node_unique[of "st_registry one_node" "st_seen one_node" 0] one_node_wf
  by (simp add: one_node_at reg_wf_def MAX_NODES_def)

text \<open>A hot reading of three variables.\<close>

definition hot_values :: "Measurement list" where
  "hot_values = [\<lparr>ms_name = ''TEMP'', ms_value = int64 50\<rparr>, \<lparr>ms_name = ''HUM'', ms_value = int64 60\<rparr>,
     \<lparr>ms_name = ''STATUS'', ms_value = int64 0\<rparr>]"

lemma hot_values_ok: "measurements_ok hot_values" "length hot_values \<le> MAX_VARS"
  by (auto simp: hot_values_def measurements_ok_def measurement_ok_def variable_range_def le_val64 MAX_VARS_def)

end
