(* ===== verification/Health.thy ===== *)
theory Health
  imports CBase
begin

text \<open>
  The heartbeats of \<^verbatim>\<open>server/service_health.c\<close>: service 0 is the TCP listener, service 1 the UDP
  receiver. \<open>now\<close> is the result of \<open>monotonic_ms\<close>.
\<close>

type_synonym health_state = "int list"

definition health_init :: health_state where
  "health_init = [0, 0]"

definition service_heartbeat :: "nat \<Rightarrow> int \<Rightarrow> health_state \<Rightarrow> health_state" where
  "service_heartbeat service now beats = beats[service := now]"

definition service_healthy :: "nat \<Rightarrow> int \<Rightarrow> health_state \<Rightarrow> bool" where
  "service_healthy service now beats = (beats ! service \<noteq> 0 \<and> now - beats ! service < 3000)"

definition health_wf :: "health_state \<Rightarrow> bool" where
  "health_wf beats = (length beats = 2)"

lemma health_init_wf: "health_wf health_init"
  by (simp add: health_wf_def health_init_def)

lemma service_heartbeat_wf: "health_wf beats \<Longrightarrow> health_wf (service_heartbeat service now beats)"
  by (simp add: health_wf_def service_heartbeat_def)

lemma not_healthy_init: "service < 2 \<Longrightarrow> \<not> service_healthy service now health_init"
  by (auto simp: service_healthy_def health_init_def less_2_cases_iff)

lemma heartbeat_healthy:
  "health_wf beats \<Longrightarrow> service < 2 \<Longrightarrow>
     service_healthy s now (service_heartbeat service t beats) =
       (if s = service then t \<noteq> 0 \<and> now - t < 3000 else service_healthy s now beats)"
  by (auto simp: health_wf_def service_healthy_def service_heartbeat_def)

section \<open>Properties\<close>

text \<open>C39: after any sequence of heartbeats, a service is reported healthy exactly when it has beaten
  and its last beat is less than three seconds old; the beats of the other service do not count.\<close>

theorem healthy_iff_recent_beat:
  assumes "service < 2" and "\<forall>(s, t) \<in> set beats. s < 2 \<and> t \<noteq> 0"
  shows "service_healthy service now (fold (\<lambda>(s, t). service_heartbeat s t) beats health_init) \<longleftrightarrow>
    (let own = filter (\<lambda>(s, t). s = service) beats in own \<noteq> [] \<and> now - snd (last own) < 3000)"
  using assms(2)
proof (induction beats rule: rev_induct)
  case Nil
  then show ?case using not_healthy_init[OF assms(1)] by simp
next
  case (snoc b beats)
  obtain s t where b: "b = (s, t)" by (cases b)
  have wf: "health_wf (fold (\<lambda>(s, t). service_heartbeat s t) beats health_init)" for beats
    by (induction beats rule: rev_induct) (auto intro: health_init_wf service_heartbeat_wf)
  have st: "s < 2" "t \<noteq> 0" using snoc.prems b by simp_all
  show ?case
  proof (cases "s = service")
    case True
    then show ?thesis
      using heartbeat_healthy[OF wf st(1)] st(2) b by simp
  next
    case False
    then show ?thesis
      using heartbeat_healthy[OF wf st(1), of service] snoc b by simp
  qed
qed

lemma healthy_iff_recent_beat_witness:
  "service_healthy 1 5999 (fold (\<lambda>(s, t). service_heartbeat s t) [(0, 100), (1, 3000), (0, 4000)] health_init) \<and>
   \<not> service_healthy 1 6000 (fold (\<lambda>(s, t). service_heartbeat s t) [(0, 100), (1, 3000), (0, 4000)] health_init)"
  using healthy_iff_recent_beat[of 1 "[(0, 100), (1, 3000), (0, 4000)]" 5999]
    healthy_iff_recent_beat[of 1 "[(0, 100), (1, 3000), (0, 4000)]" 6000] by simp

end
