(* ===== verification/Formatting.thy ===== *)
theory Formatting
  imports RegistryOps Health
begin

text \<open>
  The texts of \<^verbatim>\<open>server/response_format.c\<close>: the measurements of a node, its statistics, the status
  of the system, and the counts over a snapshot. A list of \<open>key=value\<close> fields is written as such
  and joined by semicolons, as the format strings do. The clock readings, the health of the two
  services and the number of dropped subscribers, which \<open>format_system_status\<close> reads, are
  arguments.
\<close>

section \<open>Measurements\<close>

text \<open>One turn of the loop writes this text, the separator before every item but the first.\<close>

definition measurement_text :: "Measurement \<Rightarrow> string" where
  "measurement_text m =
     ms_name m @ ''='' @
       (if ms_name m = ''STATUS'' then (if is_zero64 (ms_value m) then ''FAIL'' else ''OK'')
        else fmt_f2 (ms_value m))"

fun format_loop :: "nat \<Rightarrow> nat \<Rightarrow> Measurement list \<Rightarrow> string \<Rightarrow> nat \<Rightarrow> string" where
  "format_loop out_size i [] out written = out"
| "format_loop out_size i (m # ms) out written =
     (if written < out_size then
        let text = (if i = 0 then [] else '';'') @ measurement_text m
        in format_loop out_size (Suc i) ms (out @ snprintf (out_size - written) text) (written + length text)
      else out)"

definition format_measurements :: "TelemetryNode \<Rightarrow> nat \<Rightarrow> string" where
  "format_measurements node out_size = format_loop out_size 0 (tn_measurements node) [] 0"

section \<open>Counts over a snapshot\<close>

definition snapshot_find_node :: "RegistrySnapshot \<Rightarrow> string \<Rightarrow> nat option" where
  "snapshot_find_node snapshot node_id =
     find_index (\<lambda>n. tn_in_use n \<and> tn_node_id n = node_id) (rg_nodes snapshot)"

definition count_registered_nodes :: "RegistrySnapshot \<Rightarrow> int" where
  "count_registered_nodes snapshot = (\<Sum>n \<leftarrow> rg_nodes snapshot. of_bool (tn_in_use n))"

definition count_active_nodes :: "RegistrySnapshot \<Rightarrow> int \<Rightarrow> int" where
  "count_active_nodes snapshot now = (\<Sum>n \<leftarrow> rg_nodes snapshot. of_bool (node_is_active n now))"

definition sum_lost_datagrams :: "RegistrySnapshot \<Rightarrow> int" where
  "sum_lost_datagrams snapshot =
     (\<Sum>n \<leftarrow> filter tn_in_use (rg_nodes snapshot). tn_datagrams_lost n)"

section \<open>Statistics\<close>

definition fields_text :: "(string \<times> string) list \<Rightarrow> string" where
  "fields_text fs = join CHR '';'' (map (\<lambda>(key, v). key @ CHR ''='' # v) fs)"

definition node_stats_fields :: "TelemetryNode \<Rightarrow> (string \<times> string) list" where
  "node_stats_fields n =
     [(''attempts'', show_int (tn_attempts n)), (''sent'', show_int (tn_sent n)),
      (''omitted'', show_int (tn_omitted n)), (''send_errors'', show_int (tn_send_errors n)),
      (''unique'', show_int (tn_datagrams_received n)), (''duplicates'', show_int (tn_duplicates n)),
      (''reordered'', show_int (tn_reordered n)), (''loss_estimated'', show_int (tn_datagrams_lost n)),
      (''report_seen'', show_int (tn_report_seen n)), (''final_report'', show_int (tn_final_report n))]"

definition format_node_stats :: "TelemetryNode \<Rightarrow> nat \<Rightarrow> string" where
  "format_node_stats n out_size = snprintf out_size (fields_text (node_stats_fields n))"

text \<open>The loop that adds up a field over the nodes in use.\<close>

definition sum_nodes :: "(TelemetryNode \<Rightarrow> int) \<Rightarrow> RegistrySnapshot \<Rightarrow> int" where
  "sum_nodes f s = (\<Sum>n \<leftarrow> filter tn_in_use (rg_nodes s). f n)"

text \<open>
  What \<open>format_system_status\<close> reads beside the snapshot: two results of \<open>time(NULL)\<close>, the health
  of the two services, and \<open>subscribers_dropped\<close>.
\<close>

record status_reads =
  sr_now :: int
  sr_now_active :: int
  sr_tcp_ok :: bool
  sr_udp_ok :: bool
  sr_dropped :: int

definition system_status_fields :: "RegistrySnapshot \<Rightarrow> status_reads \<Rightarrow> (string \<times> string) list" where
  "system_status_fields s e =
     [(''boot_id'', show_int (rg_boot_id s)), (''uptime'', show_int (sr_now e - rg_started_at s)),
      (''registered'', show_int (count_registered_nodes s)),
      (''active'', show_int (count_active_nodes s (sr_now_active e))),
      (''tcp_ok'', show_int (of_bool (sr_tcp_ok e))), (''udp_ok'', show_int (of_bool (sr_udp_ok e))),
      (''udp_rx'', show_int (rg_datagrams_total s)), (''udp_invalid'', show_int (rg_datagrams_invalid s)),
      (''udp_unknown'', show_int (rg_datagrams_unknown_node s)),
      (''attempts'', show_int (sum_nodes tn_attempts s)), (''sent'', show_int (sum_nodes tn_sent s)),
      (''omitted'', show_int (sum_nodes tn_omitted s)),
      (''send_errors'', show_int (sum_nodes tn_send_errors s)),
      (''unique'', show_int (sum_nodes tn_datagrams_received s)),
      (''duplicates'', show_int (sum_nodes tn_duplicates s)),
      (''reordered'', show_int (sum_nodes tn_reordered s)),
      (''loss_estimated'', show_int (sum_lost_datagrams s)),
      (''reports'', show_int (sum_nodes tn_report_seen s)),
      (''final_reports'', show_int (sum_nodes tn_final_report s)),
      (''alerts'', show_int (rg_total_alerts s)), (''slow_disconnected'', show_int (sr_dropped e))]"

definition format_system_status :: "RegistrySnapshot \<Rightarrow> status_reads \<Rightarrow> nat \<Rightarrow> string" where
  "format_system_status s e out_size = snprintf out_size (fields_text (system_status_fields s e))"

section \<open>Lengths\<close>

definition is_long :: "int \<Rightarrow> bool" where
  "is_long i = (- LONG_MAX - 1 \<le> i \<and> i \<le> LONG_MAX)"

lemma length_show_long [len_bounds]: "is_long i \<Longrightarrow> length (show_int i) \<le> 20"
proof -
  assume "is_long i"
  then have "\<bar>i\<bar> < 10 ^ 19" by (auto simp: is_long_def LONG_MAX_def)
  then show ?thesis using length_show_int[of 19 i] by simp
qed

lemma length_show_small [len_bounds]: "0 \<le> i \<Longrightarrow> i < 100000 \<Longrightarrow> length (show_int i) \<le> 5"
  using length_show_int_nonneg[of 5 i] by simp

text \<open>Joined fields of at most \<open>b\<close> characters each.\<close>

lemma length_join_le:
  "(\<And>f. f \<in> set fs \<Longrightarrow> length f \<le> b) \<Longrightarrow> length (join d fs) \<le> length fs * Suc b"
proof (induction fs)
  case Nil
  then show ?case by simp
next
  case (Cons f fs)
  then have "length f \<le> b" "length (join d fs) \<le> length fs * Suc b" by simp_all
  then show ?case by (cases "fs = []") (simp_all add: join_Cons)
qed

lemma length_fields_text:
  assumes "\<And>k v. (k, v) \<in> set fs \<Longrightarrow> length k \<le> kb \<and> length v \<le> vb"
  shows "length (fields_text fs) \<le> length fs * Suc (Suc (kb + vb))"
proof -
  have "length (join CHR '';'' (map (\<lambda>(key, v). key @ CHR ''='' # v) fs)) \<le>
      length (map (\<lambda>(key, v). key @ CHR ''='' # v) fs) * Suc (Suc (kb + vb))"
    by (rule length_join_le) (use assms in fastforce)
  then show ?thesis by (simp add: fields_text_def)
qed

lemma join_snoc: "fs \<noteq> [] \<Longrightarrow> join d (fs @ [f]) = join d fs @ d # f"
proof (induction fs)
  case (Cons f' fs)
  then show ?case by (cases "fs = []") (simp_all add: join_Cons)
qed simp

lemma format_loop_fits:
  "length (join CHR '';'' (map measurement_text (ms0 @ ms))) < out_size \<Longrightarrow>
   format_loop out_size (length ms0) ms (join CHR '';'' (map measurement_text ms0))
       (length (join CHR '';'' (map measurement_text ms0))) =
     join CHR '';'' (map measurement_text (ms0 @ ms))"
proof (induction ms arbitrary: ms0)
  case Nil
  then show ?case by simp
next
  case (Cons m ms)
  let ?j = "\<lambda>xs. join CHR '';'' (map measurement_text xs)"
  let ?text = "(if ms0 = [] then [] else '';'') @ measurement_text m"
  have step: "?j (ms0 @ [m]) = ?j ms0 @ ?text" by (simp add: join_snoc)
  have mono: "length (?j xs) \<le> length (?j (xs @ ys))" for xs ys
  proof (induction ys rule: rev_induct)
    case (snoc y ys)
    then show ?case by (cases "xs @ ys = []") (simp_all add: join_snoc flip: append_assoc)
  qed simp
  have "length (?j (ms0 @ [m])) < out_size"
    using mono[of "ms0 @ [m]" ms] Cons.prems by simp
  then have fits: "length (?j ms0) < out_size" "length ?text < out_size - length (?j ms0)"
    unfolding step by simp_all
  have "format_loop out_size (length (ms0 @ [m])) ms (?j (ms0 @ [m])) (length (?j (ms0 @ [m]))) =
      ?j ((ms0 @ [m]) @ ms)"
    using Cons.prems by (intro Cons.IH) simp
  moreover have "format_loop out_size (length ms0) (m # ms) (?j ms0) (length (?j ms0)) =
      format_loop out_size (Suc (length ms0)) ms (?j ms0 @ ?text) (length (?j ms0 @ ?text))"
    using fits by (simp add: Let_def)
  ultimately show ?case by (simp only: step) simp
qed

lemma length_measurement_text:
  assumes "measurement_ok m"
  shows "length (measurement_text m) \<le> 18"
proof -
  have "length (fmt_f2 (ms_value m)) \<le> 7 + 4"
    using measurement_ok_within(1)[OF assms] by (rule length_fmt_f2) simp_all
  moreover have "length (ms_name m) \<le> 6"
    using measurement_ok_name[OF assms] by (auto simp: variable_names_def)
  ultimately show ?thesis by (simp add: measurement_text_def)
qed

lemma measurements_text_length:
  assumes "measurements_ok ms"
  shows "length (join CHR '';'' (map measurement_text ms)) \<le> 95"
proof -
  have "length (join CHR '';'' (map measurement_text ms)) \<le> length (map measurement_text ms) * Suc 18"
    using assms by (intro length_join_le) (auto simp: measurements_ok_def length_measurement_text)
  also have "\<dots> \<le> 5 * 19" using measurements_ok_length[OF assms] by simp
  finally show ?thesis by simp
qed

lemma format_measurements_eq:
  assumes "measurements_ok (tn_measurements n)"
  shows "format_measurements n MAX_LINE = join CHR '';'' (map measurement_text (tn_measurements n))"
  using measurements_text_length[OF assms] format_loop_fits[of "[]" "tn_measurements n" MAX_LINE]
  by (simp add: format_measurements_def MAX_LINE_def)

section \<open>The statistics fit their buffers\<close>

definition node_numbers :: "TelemetryNode \<Rightarrow> int list" where
  "node_numbers n =
     [tn_attempts n, tn_sent n, tn_omitted n, tn_send_errors n, tn_datagrams_received n, tn_duplicates n,
      tn_reordered n, tn_datagrams_lost n, tn_report_seen n, tn_final_report n]"

definition status_numbers :: "RegistrySnapshot \<Rightarrow> status_reads \<Rightarrow> int list" where
  "status_numbers s e =
     [rg_boot_id s, sr_now e - rg_started_at s, count_registered_nodes s,
      count_active_nodes s (sr_now_active e), of_bool (sr_tcp_ok e), of_bool (sr_udp_ok e),
      rg_datagrams_total s, rg_datagrams_invalid s, rg_datagrams_unknown_node s,
      sum_nodes tn_attempts s, sum_nodes tn_sent s, sum_nodes tn_omitted s, sum_nodes tn_send_errors s,
      sum_nodes tn_datagrams_received s, sum_nodes tn_duplicates s, sum_nodes tn_reordered s,
      sum_lost_datagrams s, sum_nodes tn_report_seen s, sum_nodes tn_final_report s,
      rg_total_alerts s, sr_dropped e]"

lemma node_stats_field:
  "(k, v) \<in> set (node_stats_fields n) \<Longrightarrow>
     length k \<le> 14 \<and> (\<exists>i \<in> set (node_numbers n). v = show_int i)"
  by (auto simp: node_stats_fields_def node_numbers_def)

lemma system_status_field:
  "(k, v) \<in> set (system_status_fields s e) \<Longrightarrow>
     length k \<le> 17 \<and> (\<exists>i \<in> set (status_numbers s e). v = show_int i)"
  by (auto simp: system_status_fields_def status_numbers_def)

lemma node_stats_length:
  assumes "\<forall>i \<in> set (node_numbers n). is_long i"
  shows "length (fields_text (node_stats_fields n)) \<le> 360"
proof -
  have "length k \<le> 14 \<and> length v \<le> 20" if "(k, v) \<in> set (node_stats_fields n)" for k v
    using node_stats_field[OF that] assms length_show_long by auto
  then have "length (fields_text (node_stats_fields n)) \<le> length (node_stats_fields n) * Suc (Suc (14 + 20))"
    by (rule length_fields_text)
  then show ?thesis by (simp add: node_stats_fields_def)
qed

lemma format_node_stats_eq:
  assumes "\<forall>i \<in> set (node_numbers n). is_long i"
  shows "format_node_stats n MAX_LINE = fields_text (node_stats_fields n)"
  using node_stats_length[OF assms] by (simp add: format_node_stats_def MAX_LINE_def)

lemma system_status_length:
  assumes "\<forall>i \<in> set (status_numbers s e). is_long i"
  shows "length (fields_text (system_status_fields s e)) \<le> 819"
proof -
  have "length k \<le> 17 \<and> length v \<le> 20" if "(k, v) \<in> set (system_status_fields s e)" for k v
    using system_status_field[OF that] assms length_show_long by auto
  then have "length (fields_text (system_status_fields s e)) \<le> length (system_status_fields s e) * Suc (Suc (17 + 20))"
    by (rule length_fields_text)
  then show ?thesis by (simp add: system_status_fields_def)
qed

lemma format_system_status_eq:
  assumes "\<forall>i \<in> set (status_numbers s e). is_long i"
  shows "format_system_status s e MAX_LINE = fields_text (system_status_fields s e)"
  using system_status_length[OF assms] by (simp add: format_system_status_def MAX_LINE_def)

section \<open>The numbers of a well-formed registry\<close>

lemma is_long_small: "0 \<le> i \<Longrightarrow> i \<le> 100000000 \<Longrightarrow> is_long i"
  by (simp add: is_long_def LONG_MAX_def)

lemma card_seen_le: "row_ok row \<Longrightarrow> card (seen_set row) \<le> SESSION_LIMIT"
  using card_mono[of "{..<SESSION_LIMIT}" "seen_set row"] bm.elems_cap by auto

text \<open>The counters of a node that cannot exceed the sequence numbers of a session.\<close>

lemma node_ok_small:
  assumes "node_ok n S" and "card S \<le> SESSION_LIMIT"
  shows "\<forall>i \<in> {tn_attempts n, tn_sent n, tn_omitted n, tn_send_errors n, tn_datagrams_received n,
      tn_reordered n, tn_datagrams_lost n, tn_report_seen n, tn_final_report n}. 0 \<le> i \<and> i \<le> 65536"
  using assms by (auto simp: node_ok_def loss_of_def SESSION_LIMIT_def)

lemma node_numbers_long:
  assumes "node_ok n S" and "card S \<le> SESSION_LIMIT" and "is_long (tn_duplicates n)"
  shows "\<forall>i \<in> set (node_numbers n). is_long i"
  using node_ok_small[OF assms(1,2)] assms(3) by (auto simp: node_numbers_def intro: is_long_small)

lemma reg_wf_used:
  assumes "reg_wf st" and "n \<in> set (rg_nodes (st_registry st))" and "tn_in_use n"
  obtains i where "i < MAX_NODES" and "n = node_at st i" and "node_ok n (seen_at st i)"
    and "card (seen_at st i) \<le> SESSION_LIMIT"
proof -
  have "length (rg_nodes (st_registry st)) = MAX_NODES" using assms(1) by (simp add: reg_wf_def nodes_wf_def)
  then obtain i where i: "i < MAX_NODES" "n = node_at st i" using assms(2) by (auto simp: in_set_conv_nth)
  then show thesis using reg_wf_slot[OF assms(1) i(1)] assms(3) card_seen_le by (intro that[of i]) auto
qed

lemma sum_list_bounds:
  "(\<And>x. x \<in> set xs \<Longrightarrow> 0 \<le> f x \<and> f x \<le> (b::int)) \<Longrightarrow>
     0 \<le> (\<Sum>x \<leftarrow> xs. f x) \<and> (\<Sum>x \<leftarrow> xs. f x) \<le> int (length xs) * b"
proof (induction xs)
  case (Cons x xs)
  then have "0 \<le> f x \<and> f x \<le> b" "0 \<le> sum_list (map f xs) \<and> sum_list (map f xs) \<le> int (length xs) * b"
    by simp_all
  then show ?case by (simp add: algebra_simps)
qed simp

lemma sum_used_bounds:
  assumes "length ns \<le> MAX_NODES" and "\<And>n. n \<in> set ns \<Longrightarrow> tn_in_use n \<Longrightarrow> 0 \<le> f n \<and> f n \<le> 65536"
  shows "is_long (\<Sum>n \<leftarrow> filter tn_in_use ns. f n)"
proof (rule is_long_small)
  have "0 \<le> (\<Sum>n \<leftarrow> filter tn_in_use ns. f n) \<and>
      (\<Sum>n \<leftarrow> filter tn_in_use ns. f n) \<le> int (length (filter tn_in_use ns)) * 65536"
    by (rule sum_list_bounds) (use assms(2) in auto)
  moreover have "length (filter tn_in_use ns) \<le> 64"
    using assms(1) le_trans[OF length_filter_le[of tn_in_use ns]] by (simp add: MAX_NODES_def)
  ultimately show "0 \<le> (\<Sum>n \<leftarrow> filter tn_in_use ns. f n)" "(\<Sum>n \<leftarrow> filter tn_in_use ns. f n) \<le> 100000000"
    by auto
qed

lemma sum_bool_long:
  assumes "length ns \<le> MAX_NODES"
  shows "is_long (\<Sum>n \<leftarrow> ns. of_bool (P n))"
proof (rule is_long_small)
  have "0 \<le> (\<Sum>n \<leftarrow> ns. of_bool (P n) :: int) \<and> (\<Sum>n \<leftarrow> ns. of_bool (P n)) \<le> int (length ns) * 1"
    by (rule sum_list_bounds) auto
  then show "0 \<le> (\<Sum>n \<leftarrow> ns. of_bool (P n) :: int)" "(\<Sum>n \<leftarrow> ns. of_bool (P n)) \<le> (100000000 :: int)"
    using assms by (simp_all add: MAX_NODES_def)
qed

text \<open>What stays unbounded: clocks, the counters of datagrams and duplicates, the dropped subscribers.\<close>

definition clocks_long :: "registry_state \<Rightarrow> status_reads \<Rightarrow> bool" where
  "clocks_long st e =
     (let s = st_registry st
      in (\<forall>i \<in> {rg_boot_id s, sr_now e - rg_started_at s, rg_datagrams_total s, rg_datagrams_invalid s,
            rg_datagrams_unknown_node s, sum_nodes tn_duplicates s, sr_dropped e}. is_long i))"

lemma status_numbers_long:
  assumes wf: "reg_wf st" and clocks: "clocks_long st e"
  shows "\<forall>i \<in> set (status_numbers (st_registry st) e). is_long i"
proof -
  let ?s = "st_registry st"
  have len: "length (rg_nodes ?s) \<le> MAX_NODES" using wf by (simp add: reg_wf_def nodes_wf_def)
  have small: "0 \<le> i \<and> i \<le> 65536"
    if "n \<in> set (rg_nodes ?s)" "tn_in_use n"
      "i \<in> {tn_attempts n, tn_sent n, tn_omitted n, tn_send_errors n, tn_datagrams_received n,
        tn_reordered n, tn_datagrams_lost n, tn_report_seen n, tn_final_report n}" for n i
    by (rule reg_wf_used[OF wf that(1,2)]) (use node_ok_small that(3) in blast)
  have sums: "is_long (sum_nodes f ?s)"
    if "f \<in> {tn_attempts, tn_sent, tn_omitted, tn_send_errors, tn_datagrams_received, tn_reordered,
        tn_datagrams_lost, tn_report_seen, tn_final_report}" for f
    unfolding sum_nodes_def by (rule sum_used_bounds[OF len]) (use small that in blast)
  have total: "is_long (rg_total_alerts ?s)"
    using wf by (simp add: reg_wf_def alerts_wf_def ring_ok_def is_long_def LONG_MAX_def INT_MAX_def)
  have lost: "is_long (sum_lost_datagrams ?s)"
    using sums[of tn_datagrams_lost] by (simp add: sum_nodes_def sum_lost_datagrams_def)
  have bools: "is_long (of_bool b)" for b by (simp add: is_long_def LONG_MAX_def)
  show ?thesis
    using clocks sums total lost bools sum_bool_long[OF len]
    by (simp add: status_numbers_def clocks_long_def Let_def count_registered_nodes_def count_active_nodes_def)
qed

section \<open>The status of a registry with one node\<close>

definition demo_status :: status_reads where
  "demo_status = \<lparr>sr_now = 160, sr_now_active = 160, sr_tcp_ok = True, sr_udp_ok = False, sr_dropped = 0\<rparr>"

lemma one_node_nodes: "rg_nodes (st_registry one_node) = fresh_node ''node-1'' demo_session # replicate 63 zero_node"
proof -
  have "replicate MAX_NODES zero_node = zero_node # replicate 63 zero_node"
    by (simp add: MAX_NODES_def numeral_eq_Suc)
  then show ?thesis by (simp add: one_node_def upd_node_def registry_init_def)
qed

lemma demo_status_long: "clocks_long one_node demo_status"
proof -
  have "sum_nodes tn_duplicates (st_registry one_node) = 0"
    by (simp add: sum_nodes_def one_node_nodes zero_node_def fresh_node_def)
  moreover have "rg_boot_id (st_registry one_node) = 5000000007" "rg_started_at (st_registry one_node) = 100"
    "rg_datagrams_total (st_registry one_node) = 0" "rg_datagrams_invalid (st_registry one_node) = 0"
    "rg_datagrams_unknown_node (st_registry one_node) = 0"
    by (simp_all add: one_node_def upd_node_def registry_init_def)
  ultimately show ?thesis by (simp add: clocks_long_def demo_status_def is_long_def LONG_MAX_def)
qed

section \<open>Properties\<close>

text \<open>C34: the statistics of a node are printed in full: the text is the ten fields in their order,
  at most 360 characters, so neither the buffer of \<open>format_node_stats\<close> nor the \<open>%.800s\<close> of
  \<open>reply_stats\<close> ever cuts them.\<close>

theorem node_stats_complete:
  assumes "reg_wf st" and "n \<in> set (rg_nodes (st_registry st))" and "tn_in_use n"
    and "is_long (tn_duplicates n)"
  shows "format_node_stats n MAX_LINE = fields_text (node_stats_fields n) \<and>
    length (format_node_stats n MAX_LINE) \<le> 360"
proof -
  have "\<forall>i \<in> set (node_numbers n). is_long i"
    by (rule reg_wf_used[OF assms(1-3)]) (use node_numbers_long assms(4) in blast)
  then show ?thesis using format_node_stats_eq node_stats_length by simp
qed

lemma node_stats_complete_witness:
  "length (format_node_stats (node_at one_node 0) MAX_LINE) \<le> 360"
proof -
  have n: "node_at one_node 0 \<in> set (rg_nodes (st_registry one_node))" "tn_in_use (node_at one_node 0)"
    "is_long (tn_duplicates (node_at one_node 0))"
    by (simp_all add: one_node_nodes) (simp add: fresh_node_def zero_node_def is_long_def LONG_MAX_def)
  show ?thesis using node_stats_complete[OF one_node_wf n] by blast
qed

text \<open>C33: the status of the system is printed in full: at most 819 characters whatever the registry
  holds, so the buffers of \<open>MAX_LINE\<close> bytes and the frame of the reply never cut it.\<close>

theorem system_status_complete:
  assumes "reg_wf st" and "clocks_long st e"
  shows "format_system_status (st_registry st) e MAX_LINE =
      fields_text (system_status_fields (st_registry st) e) \<and>
    length (format_system_status (st_registry st) e MAX_LINE) \<le> 819"
  using format_system_status_eq[OF status_numbers_long[OF assms]]
    system_status_length[OF status_numbers_long[OF assms]] by simp

lemma system_status_complete_witness:
  "length (format_system_status (st_registry one_node) demo_status MAX_LINE) \<le> 819"
  using system_status_complete[OF one_node_wf demo_status_long] by blast

text \<open>The measurements of a node are printed in full, one item each in their order, in at most 95
  characters.\<close>

theorem measurements_complete:
  assumes "measurements_ok (tn_measurements n)"
  shows "format_measurements n MAX_LINE = join CHR '';'' (map measurement_text (tn_measurements n)) \<and>
    length (format_measurements n MAX_LINE) \<le> 95"
  using format_measurements_eq[OF assms] measurements_text_length[OF assms] by simp

lemma measurements_complete_witness:
  "format_measurements (zero_node\<lparr>tn_measurements := hot_values\<rparr>) MAX_LINE = ''TEMP=50.00;HUM=60.00;STATUS=FAIL''"
proof -
  have "join CHR '';'' (map measurement_text hot_values) = ''TEMP=50.00;HUM=60.00;STATUS=FAIL''" by code_simp
  then show ?thesis
    using measurements_complete[of "zero_node\<lparr>tn_measurements := hot_values\<rparr>"] hot_values_ok(1) by simp
qed

end
