(* ===== verification/Sockets.thy ===== *)
theory Sockets
  imports CBase
begin

text \<open>
  The socket helpers of \<^verbatim>\<open>server/socket_helpers.c\<close>. What the kernel answers is explicit: a
  loop takes the list of its turns, each with the clock reading and the results of the system calls
  of that turn, and returns \<open>None\<close> when the turns run out before the loop ends (the call is still
  waiting). A sending call gives the bytes the kernel accepted. By the documented behaviour of
  \<^verbatim>\<open>send(2)\<close> a call never accepts more bytes than it was given; a count beyond that is read as all.
  The timeout a loop gives to \<^verbatim>\<open>poll(2)\<close> is not part of a turn, only the result of the wait is, so
  what is proved holds for every wait.
\<close>

section \<open>Listening sockets\<close>

text \<open>Each function gives its result and the descriptors it closed.\<close>

definition bind_to_port :: "int \<Rightarrow> int \<Rightarrow> int \<times> int list" where
  "bind_to_port socket_fd bind_rc = (if bind_rc < 0 then (- 1, [socket_fd]) else (socket_fd, []))"

definition create_tcp_listener :: "int \<Rightarrow> int \<Rightarrow> int \<Rightarrow> int \<times> int list" where
  "create_tcp_listener listener_fd bind_rc listen_rc =
     (if listener_fd < 0 then (- 1, [])
      else
        let (bound, closed) = bind_to_port listener_fd bind_rc
        in if bound < 0 then (- 1, closed)
           else if listen_rc < 0 then (- 1, closed @ [listener_fd])
           else (listener_fd, closed))"

definition create_udp_socket :: "int \<Rightarrow> int \<Rightarrow> int \<times> int list" where
  "create_udp_socket udp_fd bind_rc = (if udp_fd < 0 then (- 1, []) else bind_to_port udp_fd bind_rc)"

section \<open>Waiting\<close>

text \<open>\<open>ts.tv_sec * 1000L + ts.tv_nsec / 1000000\<close>\<close>

definition monotonic_ms :: "nat \<Rightarrow> nat \<Rightarrow> int" where
  "monotonic_ms tv_sec tv_nsec = int (tv_sec * 1000 + tv_nsec div 1000000)"

text \<open>The result of \<open>poll\<close>: the returned number, or a failure with \<open>EINTR\<close>.\<close>

datatype poll_result = Polled int | Poll_interrupted

fun wait_readable :: "poll_result list \<Rightarrow> int option" where
  "wait_readable [] = None"
| "wait_readable (Polled result # rest) = Some result"
| "wait_readable (Poll_interrupted # rest) = wait_readable rest"

section \<open>Sending\<close>

text \<open>The result of \<open>send\<close>: the bytes accepted, \<open>EINTR\<close> or \<open>EAGAIN\<close>, or another failure.\<close>

datatype send_result = Sent nat | Send_again | Send_failed

record send_turn =
  sd_now :: int
  sd_ready :: poll_result
  sd_sent :: send_result

fun send_from :: "int \<Rightarrow> string \<Rightarrow> send_turn list \<Rightarrow> (int \<times> string \<times> send_turn list) option" where
  "send_from deadline [] turns = Some (0, [], turns)"
| "send_from deadline (c # cs) [] = None"
| "send_from deadline (c # cs) (t # turns) =
     (if deadline - sd_now t \<le> 0 then Some (- 1, [], turns)
      else
        case sd_ready t of
          Poll_interrupted \<Rightarrow> send_from deadline (c # cs) turns
        | Polled ready \<Rightarrow>
            if ready \<le> 0 then Some (- 1, [], turns)
            else
              case sd_sent t of
                Send_again \<Rightarrow> send_from deadline (c # cs) turns
              | Send_failed \<Rightarrow> Some (- 1, [], turns)
              | Sent n \<Rightarrow>
                  if n = 0 then Some (- 1, [], turns)
                  else map_option (\<lambda>(rc, out, rest). (rc, take n (c # cs) @ out, rest))
                         (send_from deadline (drop n (c # cs)) turns))"

text \<open>\<open>start\<close> is the clock when the call starts.\<close>

definition send_full_buffer :: "int \<Rightarrow> string \<Rightarrow> send_turn list \<Rightarrow> (int \<times> string \<times> send_turn list) option" where
  "send_full_buffer start buffer turns = send_from (start + 1000) buffer turns"

text \<open>The result, the bytes accepted, whether the socket is shut down, and the turns left.\<close>

definition send_text_line :: "int \<Rightarrow> string \<Rightarrow> send_turn list \<Rightarrow> (int \<times> string \<times> bool \<times> send_turn list) option" where
  "send_text_line start text turns =
     (if MAX_LINE \<le> length text then Some (- 1, [], False, turns)
      else map_option (\<lambda>(rc, out, rest). (rc, out, rc < 0, rest))
             (send_full_buffer start (text @ [CHR 0x0A]) turns))"

section \<open>Receiving a line\<close>

text \<open>The result of \<open>recv\<close> of one byte: the byte, end of file, \<open>EINTR\<close> or \<open>EAGAIN\<close>, failure.\<close>

datatype recv_result = Byte char | Peer_closed | Recv_again | Recv_failed

record recv_turn =
  rv_now :: int
  rv_wait :: int
  rv_recv :: recv_result

definition finish_line :: "string \<Rightarrow> bool \<Rightarrow> bool \<Rightarrow> int \<times> string" where
  "finish_line buffer invalid overflow =
     (let line = (if buffer \<noteq> [] \<and> last buffer = CHR 0x0D then butlast buffer else buffer);
          invalid' = (invalid \<or> CHR 0x0D \<in> set (c_str line))
      in (if overflow then - 2 else if invalid' then - 3 else int (length line) + 1, line))"

text \<open>The bytes stored so far, and the two flags; the result, the line and the turns left.\<close>

fun receive_from ::
  "nat \<Rightarrow> int \<Rightarrow> string \<Rightarrow> bool \<Rightarrow> bool \<Rightarrow> recv_turn list \<Rightarrow> (int \<times> string \<times> recv_turn list) option" where
  "receive_from capacity deadline buffer invalid overflow [] = None"
| "receive_from capacity deadline buffer invalid overflow (t # turns) =
     (if deadline - rv_now t \<le> 0 \<or> rv_wait t \<le> 0 then Some (- 1, buffer, turns)
      else
        case rv_recv t of
          Recv_again \<Rightarrow> receive_from capacity deadline buffer invalid overflow turns
        | Recv_failed \<Rightarrow> Some (- 1, buffer, turns)
        | Peer_closed \<Rightarrow> Some (0, buffer, turns)
        | Byte c \<Rightarrow>
            if c = CHR 0x0A then
              (let (rc, line) = finish_line buffer invalid overflow in Some (rc, line, turns))
            else
              let invalid' = (invalid \<or> (c \<noteq> CHR 0x0D \<and> (char_code c < 32 \<or> 126 < char_code c)))
              in if Suc (length buffer) < capacity
                 then receive_from capacity deadline (buffer @ [c]) invalid' overflow turns
                 else receive_from capacity deadline buffer invalid' True turns)"

definition receive_line_until :: "nat \<Rightarrow> int \<Rightarrow> recv_turn list \<Rightarrow> (int \<times> string \<times> recv_turn list) option" where
  "receive_line_until capacity deadline turns = receive_from capacity deadline [] False False turns"

definition receive_text_line :: "nat \<Rightarrow> int \<Rightarrow> recv_turn list \<Rightarrow> (int \<times> string \<times> recv_turn list) option" where
  "receive_text_line capacity start turns = receive_line_until capacity (start + 3000) turns"

section \<open>The peer's address\<close>

text \<open>\<open>inet_ntop\<close> of the four bytes of the address, and the port.\<close>

definition describe_peer :: "nat \<Rightarrow> nat \<Rightarrow> nat \<Rightarrow> nat \<Rightarrow> nat \<Rightarrow> nat \<Rightarrow> string" where
  "describe_peer a b c d port out_size =
     snprintf out_size (join CHR ''.'' (map show_nat [a, b, c, d]) @ '':'' @ show_nat port)"

section \<open>Receiving: facts\<close>

definition turn_live :: "int \<Rightarrow> recv_turn \<Rightarrow> bool" where
  "turn_live deadline t = (rv_now t < deadline \<and> 0 < rv_wait t)"

text \<open>A turn that reads a byte or nothing.\<close>

definition turn_reads :: "recv_turn \<Rightarrow> bool" where
  "turn_reads t = (case rv_recv t of Byte c \<Rightarrow> True | Recv_again \<Rightarrow> True | _ \<Rightarrow> False)"

fun bytes_in :: "recv_turn list \<Rightarrow> string" where
  "bytes_in [] = []"
| "bytes_in (t # turns) = (case rv_recv t of Byte c \<Rightarrow> c # bytes_in turns | _ \<Rightarrow> bytes_in turns)"

definition text_char :: "char \<Rightarrow> bool" where
  "text_char c = (32 \<le> char_code c \<and> char_code c \<le> 126)"

text \<open>The line in the bytes before a line feed: one carriage return at the end is dropped.\<close>

definition line_of :: "string \<Rightarrow> string" where
  "line_of bytes = (if bytes \<noteq> [] \<and> last bytes = CHR 0x0D then butlast bytes else bytes)"

definition line_result :: "nat \<Rightarrow> string \<Rightarrow> int" where
  "line_result capacity bytes =
     (if capacity \<le> length bytes then - 2
      else if \<forall>c \<in> set (line_of bytes). text_char c then int (length (line_of bytes)) + 1 else - 3)"

lemma text_char_CR [simp]: "\<not> text_char CHR 0x0D"
  by (simp add: text_char_def char_code_def)

lemma text_char_NUL [simp]: "\<not> text_char CHR 0x00"
  by (simp add: text_char_def char_code_def)

definition bad_byte :: "char \<Rightarrow> bool" where
  "bad_byte c = (c \<noteq> CHR 0x0D \<and> (char_code c < 32 \<or> 126 < char_code c))"

lemma bad_byte_iff: "bad_byte c \<longleftrightarrow> c \<noteq> CHR 0x0D \<and> \<not> text_char c"
  by (auto simp: bad_byte_def text_char_def)

lemma receive_from_bytes:
  "\<forall>t \<in> set turns. turn_live deadline t \<and> turn_reads t \<Longrightarrow> CHR 0x0A \<notin> set (bytes_in turns) \<Longrightarrow>
   length buffer < capacity \<Longrightarrow>
   receive_from capacity deadline buffer invalid overflow (turns @ rest) =
     receive_from capacity deadline (buffer @ take (capacity - 1 - length buffer) (bytes_in turns))
       (invalid \<or> (\<exists>c \<in> set (bytes_in turns). bad_byte c))
       (overflow \<or> capacity \<le> length buffer + length (bytes_in turns)) rest"
proof (induction turns arbitrary: buffer invalid overflow)
  case Nil
  then show ?case by simp
next
  case (Cons t turns)
  have live: "\<not> (deadline - rv_now t \<le> 0 \<or> rv_wait t \<le> 0)"
    using Cons.prems(1) by (auto simp: turn_live_def)
  show ?case
  proof (cases "rv_recv t")
    case (Byte c)
    then have c: "c \<noteq> CHR 0x0A" "CHR 0x0A \<notin> set (bytes_in turns)" using Cons.prems(2) by auto
    show ?thesis
    proof (cases "Suc (length buffer) < capacity")
      case True
      then have "capacity - Suc (length buffer) = Suc (capacity - Suc (Suc (length buffer)))" by simp
      then show ?thesis
        using True Byte c live Cons.prems(1) Cons.IH[of "buffer @ [c]" "invalid \<or> bad_byte c" overflow]
        by (simp add: bad_byte_def disj_assoc)
    next
      case False
      then have "capacity - 1 - length buffer = 0" "capacity = Suc (length buffer)" using Cons.prems(3) by simp_all
      then show ?thesis
        using Byte c live Cons.prems(1,3) Cons.IH[of buffer "invalid \<or> bad_byte c" True]
        by (simp add: bad_byte_def disj_assoc)
    qed
  next
    case Recv_again
    then show ?thesis using live Cons.prems Cons.IH[of buffer] by simp
  qed (use Cons.prems(1) in \<open>simp_all add: turn_reads_def\<close>)
qed

lemma CR_before_NUL:
  "CHR 0x0D \<in> set (c_str line) \<or> (\<exists>c \<in> set line. bad_byte c) \<longleftrightarrow> (\<exists>c \<in> set line. \<not> text_char c)"
proof -
  have "c_str line = line" if "CHR 0x00 \<notin> set line"
    using that by (induction line) (auto simp: c_str_def)
  then have "CHR 0x0D \<in> set (c_str line)" if "CHR 0x0D \<in> set line" "CHR 0x00 \<notin> set line"
    using that by simp
  moreover have "CHR 0x0D \<in> set line" if "CHR 0x0D \<in> set (c_str line)"
    using that by (auto simp: c_str_def dest: set_takeWhileD)
  moreover have "bad_byte CHR 0x00" by (simp add: bad_byte_iff)
  ultimately show ?thesis unfolding bad_byte_iff using text_char_CR by metis
qed

lemma bad_in_line: "(\<exists>c \<in> set bytes. bad_byte c) \<longleftrightarrow> (\<exists>c \<in> set (line_of bytes). bad_byte c)"
proof (cases "bytes \<noteq> [] \<and> last bytes = CHR 0x0D")
  case True
  then have "set bytes = insert CHR 0x0D (set (butlast bytes))"
    by (metis append_butlast_last_id list.set(1,2) set_append Un_insert_right sup_bot_right)
  then show ?thesis using True by (auto simp: line_of_def bad_byte_def)
qed (auto simp: line_of_def)

lemma finish_line_exact:
  assumes "length bytes < capacity"
  shows "finish_line bytes (\<exists>c \<in> set bytes. bad_byte c) False = (line_result capacity bytes, line_of bytes)"
  using assms CR_before_NUL[of "line_of bytes"] bad_in_line[of bytes]
  by (auto simp: finish_line_def line_result_def line_of_def[symmetric] Let_def)

lemma finish_line_overflow: "\<exists>line. finish_line buffer invalid True = (- 2, line)"
  by (simp add: finish_line_def Let_def)

text \<open>What every result satisfies.\<close>

lemma finish_line_result:
  assumes "finish_line buffer invalid overflow = (rc, line)"
    and "\<not> invalid \<Longrightarrow> \<forall>c \<in> set buffer. \<not> bad_byte c"
  shows "length line \<le> length buffer" and "rc \<in> {- 2, - 3, int (length line) + 1}"
    and "0 < rc \<Longrightarrow> rc = int (length line) + 1 \<and> (\<forall>c \<in> set line. text_char c)"
proof -
  have line: "line = line_of buffer" using assms(1) by (simp add: finish_line_def line_of_def Let_def)
  have rc: "rc = (if overflow then - 2 else if invalid \<or> CHR 0x0D \<in> set (c_str line) then - 3
      else int (length line) + 1)"
    using assms(1) by (auto simp: finish_line_def Let_def split del: if_split)
  show "length line \<le> length buffer" by (simp add: line line_of_def)
  show "rc \<in> {- 2, - 3, int (length line) + 1}" by (simp add: rc)
  show "rc = int (length line) + 1 \<and> (\<forall>c \<in> set line. text_char c)" if "0 < rc"
  proof -
    have "\<not> invalid" "CHR 0x0D \<notin> set (c_str line)" "rc = int (length line) + 1"
      using that by (auto simp: rc split: if_splits)
    then show ?thesis using assms(2) CR_before_NUL[of line] bad_in_line[of buffer] line by auto
  qed
qed

lemma receive_from_result:
  "receive_from capacity deadline buffer invalid overflow turns = Some (rc, line, rest) \<Longrightarrow>
   length buffer < capacity \<Longrightarrow> (\<not> invalid \<longrightarrow> (\<forall>c \<in> set buffer. \<not> bad_byte c)) \<Longrightarrow>
   length line < capacity \<and> - 3 \<le> rc \<and> (rc = 0 \<or> rc < 0 \<or> rc = int (length line) + 1) \<and>
   (0 < rc \<longrightarrow> (\<forall>c \<in> set line. text_char c)) \<and> (\<exists>used. turns = used @ rest \<and> used \<noteq> [])"
proof (induction turns arbitrary: buffer invalid overflow)
  case Nil
  then show ?case by simp
next
  case (Cons t turns)
  show ?case
  proof (cases "deadline - rv_now t \<le> 0 \<or> rv_wait t \<le> 0")
    case True
    then show ?thesis using Cons.prems by simp
  next
    case live: False
    have more: ?thesis
      if "receive_from capacity deadline buffer' invalid' overflow' turns = Some (rc, line, rest)"
        "length buffer' < capacity" "\<not> invalid' \<longrightarrow> (\<forall>c \<in> set buffer'. \<not> bad_byte c)"
      for buffer' invalid' overflow'
      using Cons.IH[OF that] by (auto intro: exI[of _ "t # used" for used])
    show ?thesis
    proof (cases "rv_recv t")
      case (Byte c)
      show ?thesis
      proof (cases "c = CHR 0x0A")
        case True
        then have fin: "finish_line buffer invalid overflow = (rc, line)" "rest = turns"
          using Cons.prems(1) live Byte by (auto split: prod.splits)
        show ?thesis
          using finish_line_result[OF fin(1)] Cons.prems(2,3) fin(2) by auto
      next
        case False
        let ?inv = "invalid \<or> bad_byte c"
        show ?thesis
        proof (cases "Suc (length buffer) < capacity")
          case True
          then show ?thesis
            using Cons.prems live Byte False
            by (intro more[of "buffer @ [c]" ?inv overflow]) (auto simp: bad_byte_def)
        next
          case full: False
          then show ?thesis
            using Cons.prems live Byte False
            by (intro more[of buffer ?inv True]) (auto simp: bad_byte_def)
        qed
      qed
    next
      case Recv_again
      then show ?thesis using Cons.prems live by (intro more[of buffer invalid overflow]) auto
    qed (use Cons.prems live in auto)
  qed
qed

lemma receive_from_returns:
  "t \<in> set turns \<Longrightarrow> \<not> turn_live deadline t \<Longrightarrow>
     \<exists>r. receive_from capacity deadline buffer invalid overflow turns = Some r"
proof (induction turns arbitrary: buffer invalid overflow)
  case Nil
  then show ?case by simp
next
  case (Cons u turns)
  show ?case
  proof (cases "turn_live deadline u")
    case True
    then have "t \<in> set turns" using Cons.prems by auto
    then show ?thesis
      using Cons.IH Cons.prems(2) by (auto split: recv_result.splits prod.splits simp: Let_def)
  qed (auto simp: turn_live_def)
qed

section \<open>Sending: facts\<close>

lemma send_from_result:
  "send_from deadline buffer turns = Some (rc, out, rest) \<Longrightarrow>
     (rc = 0 \<and> out = buffer) \<or> (rc = - 1 \<and> (\<exists>more. more \<noteq> [] \<and> buffer = out @ more))"
proof (induction deadline buffer turns arbitrary: rc out rule: send_from.induct)
  case (3 deadline c cs t turns)
  show ?case
  proof (cases "\<exists>n. sd_sent t = Sent n \<and> n \<noteq> 0 \<and> (\<exists>r. sd_ready t = Polled r \<and> 0 < r) \<and> sd_now t < deadline")
    case True
    then obtain n r where t: "sd_sent t = Sent n" "n \<noteq> 0" "sd_ready t = Polled r" "0 < r" "sd_now t < deadline"
      by blast
    then obtain out' where run: "send_from deadline (drop n (c # cs)) turns = Some (rc, out', rest)"
      and out: "out = take n (c # cs) @ out'"
      using 3(4) by auto
    have "(rc = 0 \<and> out' = drop n (c # cs)) \<or> (rc = - 1 \<and> (\<exists>more. more \<noteq> [] \<and> drop n (c # cs) = out' @ more))"
      using 3(1) t run by auto
    then show ?thesis unfolding out using append_take_drop_id[of n "c # cs"] by (metis append.assoc)
  next
    case False
    then show ?thesis
      using 3(2-4) by (auto split: if_splits poll_result.splits send_result.splits)
  qed
qed auto

lemma send_from_returns:
  "t \<in> set turns \<Longrightarrow> deadline \<le> sd_now t \<Longrightarrow> \<exists>r. send_from deadline buffer turns = Some r"
proof (induction deadline buffer turns rule: send_from.induct)
  case (3 deadline c cs u turns)
  show ?case
  proof (cases "deadline - sd_now u \<le> 0")
    case False
    then have "t \<in> set turns" using 3(4,5) by auto
    show ?thesis
    proof (cases "sd_ready u")
      case (Polled r)
      show ?thesis
      proof (cases "sd_sent u")
        case (Sent n)
        have "\<exists>r. send_from deadline (drop n (c # cs)) turns = Some r" if "0 < r" "n \<noteq> 0"
          using 3(1)[OF False Polled _ Sent that(2) \<open>t \<in> set turns\<close> 3(5)] that by simp
        then show ?thesis using False Polled Sent by auto
      qed (use False Polled 3(2)[OF False Polled] 3(5) \<open>t \<in> set turns\<close> in auto)
    qed (use False 3(3)[OF False] 3(5) \<open>t \<in> set turns\<close> in auto)
  qed auto
qed auto

section \<open>Whole lines\<close>

lemma receive_line_bytes:
  assumes "\<forall>t \<in> set turns. turn_live deadline t \<and> turn_reads t"
    and "CHR 0x0A \<notin> set (bytes_in turns)"
    and "turn_live deadline lf" and "rv_recv lf = Byte CHR 0x0A" and "0 < capacity"
  shows "\<exists>line. receive_line_until capacity deadline (turns @ lf # rest) =
      Some (line_result capacity (bytes_in turns), line, rest) \<and>
    (length (bytes_in turns) < capacity \<longrightarrow> line = line_of (bytes_in turns))"
proof -
  let ?bytes = "bytes_in turns"
  have run: "receive_line_until capacity deadline (turns @ lf # rest) =
      receive_from capacity deadline (take (capacity - 1) ?bytes) (\<exists>c \<in> set ?bytes. bad_byte c)
        (capacity \<le> length ?bytes) (lf # rest)"
    unfolding receive_line_until_def
    using receive_from_bytes[OF assms(1,2), of "[]" capacity False False "lf # rest"] assms(5) by simp
  have live: "\<not> (deadline - rv_now lf \<le> 0 \<or> rv_wait lf \<le> 0)"
    using assms(3) by (auto simp: turn_live_def)
  show ?thesis
  proof (cases "capacity \<le> length ?bytes")
    case True
    then obtain line where "finish_line (take (capacity - 1) ?bytes) (\<exists>c \<in> set ?bytes. bad_byte c) True = (- 2, line)"
      using finish_line_overflow by blast
    then show ?thesis using run live assms(4) True by (simp add: line_result_def)
  next
    case False
    then have "take (capacity - 1) ?bytes = ?bytes" by simp
    moreover have "finish_line ?bytes (\<exists>c \<in> set ?bytes. bad_byte c) False =
        (line_result capacity ?bytes, line_of ?bytes)"
      using False by (intro finish_line_exact) simp
    ultimately show ?thesis using run live assms(4) False by simp
  qed
qed

text \<open>Bytes that arrive one per turn, one millisecond apart.\<close>

definition turns_of :: "string \<Rightarrow> recv_turn list" where
  "turns_of bytes = map (\<lambda>c. \<lparr>rv_now = 1, rv_wait = 1, rv_recv = Byte c\<rparr>) bytes"

lemma bytes_turns_of [simp]: "bytes_in (turns_of bytes) = bytes"
  by (induction bytes) (simp_all add: turns_of_def)

lemma turns_of_live: "1 < deadline \<Longrightarrow> \<forall>t \<in> set (turns_of bytes). turn_live deadline t \<and> turn_reads t"
  by (auto simp: turns_of_def turn_live_def turn_reads_def)

text \<open>The turns of a text that holds a line feed: those of its first line, and the rest.\<close>

lemma split_turns:
  "bytes_in turns = l @ CHR 0x0A # r \<Longrightarrow>
     \<exists>before lf after. turns = before @ lf # after \<and> bytes_in before = l \<and> rv_recv lf = Byte CHR 0x0A \<and> bytes_in after = r"
proof (induction turns arbitrary: l)
  case Nil
  then show ?case by simp
next
  case (Cons t turns)
  have more: ?case if bytes: "bytes_in turns = l' @ CHR 0x0A # r" and front: "bytes_in [t] @ l' = l" for l'
  proof -
    obtain before lf after where split: "turns = before @ lf # after" "bytes_in before = l'"
      "rv_recv lf = Byte CHR 0x0A" "bytes_in after = r"
      using Cons.IH[OF bytes] by blast
    have "bytes_in (t # before) = l" using front split(2) by (simp split: recv_result.splits)
    then show ?thesis using split by (intro exI[of _ "t # before"]) auto
  qed
  show ?case
  proof (cases "rv_recv t")
    case (Byte c)
    show ?thesis
    proof (cases l)
      case Nil
      then show ?thesis using Cons.prems Byte by (intro exI[of _ "[]"]) simp
    next
      case (Cons d l')
      then show ?thesis using Cons.prems Byte by (intro more[of l']) simp_all
    qed
  qed (use Cons.prems in \<open>intro more[of l]; simp\<close>)+
qed

text \<open>A printable line ended by carriage return and line feed is read whole, and the next call goes
  on after it.\<close>

lemma receive_crlf_line:
  assumes "bytes_in turns = l @ CHR 0x0D # CHR 0x0A # r" and "\<forall>t \<in> set turns. turn_live deadline t \<and> turn_reads t"
    and "\<forall>c \<in> set l. text_char c" and "Suc (length l) < capacity"
  obtains rest where "receive_line_until capacity deadline turns = Some (int (length l) + 1, l, rest)"
    and "bytes_in rest = r" and "\<forall>t \<in> set rest. turn_live deadline t \<and> turn_reads t" 
proof -
  obtain before lf after where t: "turns = before @ lf # after" "bytes_in before = l @ [CHR 0x0D]"
    "rv_recv lf = Byte CHR 0x0A" "bytes_in after = r"
    using split_turns[of turns "l @ [CHR 0x0D]" r] assms(1) by auto
  have "CHR 0x0A \<notin> set l" using assms(3) by (auto simp: text_char_def char_code_def)
  then obtain line where "receive_line_until capacity deadline turns =
      Some (line_result capacity (l @ [CHR 0x0D]), line, after)" "line = line_of (l @ [CHR 0x0D])"
    using receive_line_bytes[of before deadline lf capacity after] assms(2,4) t by auto
  then show thesis
    using assms(2-4) t by (intro that[of after]) (simp_all add: line_result_def line_of_def)
qed

text \<open>What a successful call used: the bytes of one line, all of them before the deadline.\<close>

lemma receive_from_used:
  "receive_from capacity deadline buffer invalid overflow turns = Some (rc, line, rest) \<Longrightarrow> 0 < rc \<Longrightarrow>
     \<not> overflow \<and> (\<exists>used raw. turns = used @ rest \<and> bytes_in used = raw @ [CHR 0x0A] \<and> CHR 0x0A \<notin> set raw \<and>
       line = line_of (buffer @ raw) \<and> (\<forall>t \<in> set used. turn_live deadline t))"
proof (induction turns arbitrary: buffer invalid overflow)
  case (Cons u turns)
  then have live: "\<not> (deadline - rv_now u \<le> 0 \<or> rv_wait u \<le> 0)" by auto
  then have ulive: "turn_live deadline u" by (simp add: turn_live_def)
  show ?case
  proof (cases "rv_recv u")
    case (Byte c)
    show ?thesis
    proof (cases "c = CHR 0x0A")
      case True
      then obtain fin: "finish_line buffer invalid overflow = (rc, line)" "rest = turns"
        using Cons.prems(1) live Byte by (auto split: prod.splits)
      then have "\<not> overflow" "line = line_of buffer"
        using Cons.prems(2) by (auto simp: finish_line_def line_of_def Let_def split: if_splits)
      then show ?thesis
        using fin(2) Byte True ulive by (intro conjI exI[of _ "[u]"] exI[of _ "[]"]) simp_all
    next
      case False
      have step: ?thesis
        if run: "receive_from capacity deadline (buffer @ [c]) inv overflow turns = Some (rc, line, rest)" for inv
      proof -
        obtain used raw where "\<not> overflow" "turns = used @ rest" "bytes_in used = raw @ [CHR 0x0A]"
          "CHR 0x0A \<notin> set raw" "line = line_of ((buffer @ [c]) @ raw)" "\<forall>t \<in> set used. turn_live deadline t"
          using Cons.IH[OF run Cons.prems(2)] by blast
        then show ?thesis
          using Byte False ulive by (intro conjI exI[of _ "u # used"] exI[of _ "c # raw"]) simp_all
      qed
      show ?thesis
      proof (cases "Suc (length buffer) < capacity")
        case True
        then show ?thesis using Cons.prems(1) live Byte False by (intro step) auto
      next
        case full: False
        then show ?thesis using Cons.prems live Byte False Cons.IH[of buffer _ True] by auto
      qed
    qed
  next
    case Recv_again
    then obtain used raw where "\<not> overflow" "turns = used @ rest" "bytes_in used = raw @ [CHR 0x0A]"
      "CHR 0x0A \<notin> set raw" "line = line_of (buffer @ raw)" "\<forall>t \<in> set used. turn_live deadline t"
      using Cons.prems live Cons.IH[of buffer invalid overflow] by auto
    then show ?thesis
      using Recv_again ulive by (intro conjI exI[of _ "u # used"] exI[of _ raw]) simp_all
  qed (use Cons.prems live in auto)
qed simp

section \<open>Lines that arrive\<close>

text \<open>
  The line \<open>raw\<close>, as the peer sent it before its line feed, is the next one and is complete before
  the deadline: neither an error nor the end of the stream comes first.
\<close>

definition line_arrives :: "int \<Rightarrow> recv_turn list \<Rightarrow> string \<Rightarrow> recv_turn list \<Rightarrow> bool" where
  "line_arrives deadline turns raw rest =
     (\<exists>before lf. turns = before @ lf # rest \<and> (\<forall>t \<in> set before. turn_live deadline t \<and> turn_reads t) \<and>
        CHR 0x0A \<notin> set (bytes_in before) \<and> turn_live deadline lf \<and> rv_recv lf = Byte CHR 0x0A \<and> bytes_in before = raw)"

lemma bytes_in_append [simp]: "bytes_in (xs @ ys) = bytes_in xs @ bytes_in ys"
  by (induction xs) (simp_all split: recv_result.splits)

lemma line_arrives_received:
  assumes "line_arrives deadline turns raw rest" and "0 < capacity"
  obtains line where "receive_line_until capacity deadline turns = Some (line_result capacity raw, line, rest)"
    and "length raw < capacity \<Longrightarrow> line = line_of raw"
  using assms receive_line_bytes[of _ deadline _ capacity rest] unfolding line_arrives_def by metis

lemma line_arrives_bytes:
  "line_arrives deadline turns raw rest \<Longrightarrow> \<exists>used. turns = used @ rest \<and> bytes_in used = raw @ [CHR 0x0A]"
  by (auto simp: line_arrives_def intro: exI[of _ "before @ [lf]" for before lf])

lemma line_arrives_more:
  assumes "line_arrives deadline turns raw rest" and "turn_live deadline t" and "rv_recv t = Recv_again \<or> (\<exists>c. rv_recv t = Byte c \<and> c \<noteq> CHR 0x0A)"
  shows "\<exists>raw'. line_arrives deadline (t # turns) raw' rest"
proof -
  obtain before lf where "turns = before @ lf # rest" "\<forall>t \<in> set before. turn_live deadline t \<and> turn_reads t"
    "CHR 0x0A \<notin> set (bytes_in before)" "turn_live deadline lf" "rv_recv lf = Byte CHR 0x0A"
    using assms(1) by (auto simp: line_arrives_def)
  then have "line_arrives deadline (t # turns) (bytes_in (t # before)) rest"
    using assms(2,3) unfolding line_arrives_def
    by (intro exI[of _ "t # before"] exI[of _ lf]) (auto simp: turn_reads_def)
  then show ?thesis by blast
qed

text \<open>Every result but the failure -1 and the closed stream 0 comes from a whole line.\<close>

lemma receive_from_arrives:
  "receive_from capacity deadline buffer invalid overflow turns = Some (rc, line, rest) \<Longrightarrow> rc \<noteq> 0 \<Longrightarrow> rc \<noteq> - 1 \<Longrightarrow>
     \<exists>raw. line_arrives deadline turns raw rest"
proof (induction turns arbitrary: buffer invalid overflow)
  case (Cons t turns)
  then have live: "\<not> (deadline - rv_now t \<le> 0 \<or> rv_wait t \<le> 0)" by auto
  then have tlive: "turn_live deadline t" by (simp add: turn_live_def)
  show ?case
  proof (cases "rv_recv t = Byte CHR 0x0A")
    case True
    then have "rest = turns" using Cons.prems(1) live by (auto split: prod.splits)
    then have "line_arrives deadline (t # turns) [] rest"
      using True tlive unfolding line_arrives_def by (intro exI[of _ "[]"] exI[of _ t]) simp
    then show ?thesis by blast
  next
    case False
    then have next_turn: "rv_recv t = Recv_again \<or> (\<exists>c. rv_recv t = Byte c \<and> c \<noteq> CHR 0x0A)"
      using Cons.prems live by (cases "rv_recv t") auto
    then obtain b i ov where "receive_from capacity deadline b i ov turns = Some (rc, line, rest)"
      using Cons.prems(1) live False by (auto simp: Let_def split: if_splits)
    then show ?thesis using Cons.IH Cons.prems(2,3) line_arrives_more[OF _ tlive next_turn] by blast
  qed
qed simp

lemma line_arrives_result:
  assumes "receive_line_until capacity deadline turns = Some (n, line, rest)" and "n \<noteq> 0" and "n \<noteq> - 1" and "0 < capacity"
  obtains raw where "line_arrives deadline turns raw rest" and "n = line_result capacity raw"
    and "length raw < capacity \<Longrightarrow> line = line_of raw"
proof -
  obtain raw where raw: "line_arrives deadline turns raw rest"
    using receive_from_arrives assms(1-3) unfolding receive_line_until_def by blast
  obtain line' where "receive_line_until capacity deadline turns = Some (line_result capacity raw, line', rest)"
    "length raw < capacity \<Longrightarrow> line' = line_of raw"
    using line_arrives_received[OF raw assms(4)] by metis
  then show thesis using that raw assms(1) by auto
qed

lemma line_arrives_unique:
  assumes "line_arrives deadline turns raw rest" and "line_arrives deadline turns raw' rest'"
  shows "raw = raw' \<and> rest = rest'"
proof -
  have "rest = rest'"
    using line_arrives_received[OF assms(1), of 1] line_arrives_received[OF assms(2), of 1] by (metis option.inject prod.inject zero_less_one)
  then show ?thesis
    using line_arrives_bytes[OF assms(1)] line_arrives_bytes[OF assms(2)] by auto
qed

lemma turns_of_arrive:
  assumes "CHR 0x0A \<notin> set raw" and "1 < deadline"
  shows "line_arrives deadline (turns_of (raw @ CHR 0x0A # text)) raw (turns_of text)"
proof -
  have "turns_of (raw @ CHR 0x0A # text) = turns_of raw @ \<lparr>rv_now = 1, rv_wait = 1, rv_recv = Byte CHR 0x0A\<rparr> # turns_of text"
    by (simp add: turns_of_def)
  then show ?thesis
    unfolding line_arrives_def using assms turns_of_live[OF assms(2), of raw]
    by (intro exI[of _ "turns_of raw"] exI[of _ "\<lparr>rv_now = 1, rv_wait = 1, rv_recv = Byte CHR 0x0A\<rparr>"])
      (simp add: turn_live_def)
qed

section \<open>Properties\<close>

text \<open>C25: a call that reads a line feed before its deadline returns exactly the line before it: the
  length plus one when every byte is printable ASCII (one carriage return may precede the line
  feed), -3 when a byte is not, -2 when the line does not fit, the rest of it being discarded up to
  the line feed, so the next call starts at the next line.\<close>

theorem receive_line_exact:
  assumes "\<forall>t \<in> set turns. turn_live deadline t \<and> turn_reads t"
    and "CHR 0x0A \<notin> set (bytes_in turns)"
    and "turn_live deadline lf" and "rv_recv lf = Byte CHR 0x0A" and "0 < capacity"
  shows "\<exists>line. receive_line_until capacity deadline (turns @ lf # rest) =
      Some (line_result capacity (bytes_in turns), line, rest) \<and>
    (length (bytes_in turns) < capacity \<longrightarrow> line = line_of (bytes_in turns))"
  using assms by (rule receive_line_bytes)

lemma receive_line_exact_witness:
  "receive_line_until 1024 3000 (turns_of (''GET_NODES'' @ [CHR 0x0D]) @ turns_of [CHR 0x0A]) =
     Some (10, ''GET_NODES'', [])"
proof -
  let ?bytes = "''GET_NODES'' @ [CHR 0x0D]"
  have "line_of ?bytes = ''GET_NODES''" by (simp add: line_of_def)
  moreover have "\<forall>c \<in> set ''GET_NODES''. text_char c" by (simp add: text_char_def char_code_def)
  ultimately have "line_result 1024 ?bytes = 10" by (simp add: line_result_def)
  then show ?thesis
    using receive_line_exact[OF turns_of_live, of 3000 ?bytes "\<lparr>rv_now = 1, rv_wait = 1, rv_recv = Byte CHR 0x0A\<rparr>" 1024 "[]"]
    by (auto simp: turn_live_def line_of_def) (simp add: turns_of_def)
qed

text \<open>C26: whatever the peer sends, a returned line fits the buffer; a positive result is its length
  plus one and every character is printable ASCII, so the parsers never meet a control byte.\<close>

theorem received_line_safe:
  assumes "receive_line_until capacity deadline turns = Some (rc, line, rest)" and "0 < capacity"
  shows "length line < capacity \<and> - 3 \<le> rc \<and>
    (0 < rc \<longrightarrow> rc = int (length line) + 1 \<and> (\<forall>c \<in> set line. text_char c)) \<and>
    (\<exists>used. turns = used @ rest \<and> used \<noteq> [])"
  using receive_from_result[OF assms(1)[unfolded receive_line_until_def]] assms(2) by auto

lemma received_line_safe_witness:
  "\<exists>rc line rest. receive_line_until 1024 3000 (turns_of (''BYE'' @ [CHR 0x0A])) = Some (rc, line, rest) \<and>
     length line < 1024 \<and> rc = int (length line) + 1 \<and> list_all text_char line"
proof -
  have run: "receive_line_until 1024 3000 (turns_of (''BYE'' @ [CHR 0x0A])) = Some (4, ''BYE'', [])"
    by code_simp
  from received_line_safe[OF this] run show ?thesis by (auto simp: list_all_iff)
qed

text \<open>C27: the deadline is absolute: a call returns at the latest at the first turn whose clock has
  reached it, however slowly the peer sends its bytes.\<close>

theorem receive_deadline:
  assumes "t \<in> set turns" and "start + 3000 \<le> rv_now t"
  shows "\<exists>r. receive_text_line capacity start turns = Some r"
proof -
  have "\<not> turn_live (start + 3000) t" using assms(2) by (simp add: turn_live_def)
  then show ?thesis
    unfolding receive_text_line_def receive_line_until_def by (rule receive_from_returns[OF assms(1)])
qed

lemma receive_deadline_witness:
  "\<exists>r. receive_text_line 1024 50 [\<lparr>rv_now = 100, rv_wait = 1, rv_recv = Byte CHR ''B''\<rparr>,
      \<lparr>rv_now = 3050, rv_wait = 1, rv_recv = Byte CHR ''Y''\<rparr>] = Some r"
  by (rule receive_deadline[of "\<lparr>rv_now = 3050, rv_wait = 1, rv_recv = Byte CHR ''Y''\<rparr>"]) simp_all

text \<open>C28: \<open>send_text_line\<close> writes a prefix of the frame (the text and one line feed) and returns 0
  exactly when it wrote all of it; text of \<open>MAX_LINE\<close> characters or more is refused before a byte
  is written, and every other failure shuts the socket down, so no partial frame is followed by
  another. It returns at the latest one second after it started.\<close>

theorem send_line_frame:
  "(case send_text_line start text turns of
      None \<Rightarrow> length text < MAX_LINE \<and> list_all (\<lambda>t. sd_now t < start + 1000) turns
    | Some (rc, out, shut, rest) \<Rightarrow>
        (if MAX_LINE \<le> length text then rc = - 1 \<and> out = [] \<and> \<not> shut
         else if rc = 0 then out = text @ [CHR 0x0A] \<and> \<not> shut
         else rc = - 1 \<and> shut \<and> (\<exists>more. more \<noteq> [] \<and> text @ [CHR 0x0A] = out @ more)))"
proof (cases "MAX_LINE \<le> length text")
  case True
  then show ?thesis by (simp add: send_text_line_def)
next
  case False
  show ?thesis
  proof (cases "send_full_buffer start (text @ [CHR 0x0A]) turns")
    case None
    then have "\<forall>t \<in> set turns. sd_now t < start + 1000"
      using send_from_returns[of _ turns "start + 1000" "text @ [CHR 0x0A]"]
      by (force simp: send_full_buffer_def)
    then show ?thesis using None False by (simp add: send_text_line_def list_all_iff)
  next
    case (Some r)
    obtain rc out rest where r: "r = (rc, out, rest)" by (cases r)
    have "(rc = 0 \<and> out = text @ [CHR 0x0A]) \<or> (rc = - 1 \<and> (\<exists>more. more \<noteq> [] \<and> text @ [CHR 0x0A] = out @ more))"
      using Some unfolding r send_full_buffer_def by (rule send_from_result)
    then show ?thesis using Some False r by (auto simp: send_text_line_def)
  qed
qed

text \<open>Opening a listening socket either succeeds and closes nothing, or fails with -1 and has
  closed the descriptor it had opened: no descriptor leaks.\<close>

theorem listener_no_leak:
  "create_tcp_listener fd bind_rc listen_rc =
     (if 0 \<le> fd \<and> 0 \<le> bind_rc \<and> 0 \<le> listen_rc then (fd, [])
      else (- 1, if 0 \<le> fd then [fd] else [])) \<and>
   create_udp_socket fd bind_rc =
     (if 0 \<le> fd \<and> 0 \<le> bind_rc then (fd, []) else (- 1, if 0 \<le> fd then [fd] else []))"
  by (auto simp: create_tcp_listener_def create_udp_socket_def bind_to_port_def)

end
