(* ===== verification/Status_Page_Css.thy ===== *)
theory Status_Page_Css
  imports CBase
begin

text \<open>
  The stylesheet of the status page, \<^verbatim>\<open>server/status_page_css.h\<close>, one list element per source
  line. A single quote is \<open>sq\<close>, a backslash \<open>bs\<close> and a line feed \<open>nl\<close>.
\<close>

definition sq :: string where "sq = [CHR 0x27]"

definition bs :: string where "bs = [CHR 0x5C]"

definition nl :: string where "nl = [CHR 0x0A]"

definition STATUS_PAGE_CSS :: string where
  "STATUS_PAGE_CSS = concat [
    '':root{color-scheme:light dark;--bg:#f6f5f1;--surface:#fff;--line:#e7e4dc;--text:#1c1b19;--muted:#6b675f;'' @
      ''--accent:#0f5c56;--ok-bg:#e4f1e8;--ok-fg:#1d6a39;--bad-bg:#fbe8e5;--bad-fg:#a12d24;--warn-bg:#fbf0d6;'' @
      ''--warn-fg:#855600}'' @ nl,
    ''@media (prefers-color-scheme:dark){:root{--bg:#141412;--surface:#1c1b19;--line:#2d2b27;--text:#ece9e2;'' @
      ''--muted:#9c978c;--accent:#5fbfb3;--ok-bg:#1a2c20;--ok-fg:#7fd39a;--bad-bg:#35201d;--bad-fg:#f1a59c;'' @
      ''--warn-bg:#332915;--warn-fg:#e6b95a}}'' @ nl,
    ''*{box-sizing:border-box}'' @ nl,
    ''body{margin:0;background:var(--bg);color:var(--text);font:15px/1.55 system-ui,-apple-system,'' @ sq @
      ''Segoe UI'' @ sq @ '',Roboto,'' @ sq @ ''Helvetica Neue'' @ sq @
      '',sans-serif;-webkit-font-smoothing:antialiased}'' @ nl,
    ''.wrap{max-width:1080px;margin:0 auto;padding:44px 24px 72px}'' @ nl,
    ''.top{display:flex;justify-content:space-between;align-items:flex-end;gap:16px;flex-wrap:wrap;margin-bottom:28px}'' @
      nl,
    ''h1{margin:0;font-size:28px;line-height:1.15;font-weight:650;letter-spacing:-.02em}'' @ nl,
    ''h1::before{content:'' @ sq @ sq @
      '';display:inline-block;width:10px;height:10px;margin-right:12px;border-radius:2px;background:var(--accent);'' @
      ''vertical-align:middle;position:relative;top:-2px}'' @ nl,
    ''.sub{margin:8px 0 0;color:var(--muted);font-size:14px}'' @ nl,
    ''.health{display:flex;gap:8px;flex-wrap:wrap}'' @ nl,
    ''.badge{display:inline-flex;align-items:center;gap:7px;padding:3px 10px;border-radius:999px;font-size:11.5px;'' @
      ''font-weight:600;letter-spacing:.04em;text-transform:uppercase;white-space:nowrap;background:var(--ok-bg);'' @
      ''color:var(--ok-fg)}'' @ nl,
    ''.badge::before{content:'' @ sq @ sq @
      '';width:6px;height:6px;border-radius:50%;background:currentColor}'' @ nl,
    ''.badge.bad{background:var(--bad-bg);color:var(--bad-fg)}'' @ nl,
    ''.badge.warn{background:var(--warn-bg);color:var(--warn-fg)}'' @ nl,
    ''.badge.plain::before{display:none}'' @ nl,
    ''.kpis{display:grid;grid-template-columns:repeat(auto-fit,minmax(150px,1fr));gap:12px}'' @ nl,
    ''.kpi{padding:16px 18px;background:var(--surface);border:1px solid var(--line);border-radius:10px}'' @ nl,
    ''.kpi span{display:block;color:var(--muted);font-size:12.5px}'' @ nl,
    ''.kpi strong{display:block;margin-top:4px;font-size:28px;line-height:1.1;font-weight:600;letter-spacing:-.02em;'' @
      ''font-variant-numeric:tabular-nums}'' @ nl,
    ''.kpi.hot strong{color:var(--bad-fg)}'' @ nl,
    ''section{margin-top:40px}'' @ nl,
    ''h2{display:flex;align-items:baseline;gap:10px;margin:0 0 12px;font-size:16px;font-weight:600;letter-spacing:-.01em}'' @
      nl,
    ''h2 small{color:var(--muted);font-size:13px;font-weight:500}'' @ nl,
    ''.card{background:var(--surface);border:1px solid var(--line);border-radius:10px;overflow:hidden}'' @ nl,
    ''.scroll{overflow-x:auto}'' @ nl,
    ''table{width:100%;border-collapse:collapse;font-size:14px}'' @ nl,
    ''th{padding:10px 16px;text-align:left;color:var(--muted);font-size:12px;font-weight:500;white-space:nowrap;'' @
      ''border-bottom:1px solid var(--line)}'' @ nl,
    ''td{padding:12px 16px;vertical-align:middle;border-bottom:1px solid var(--line)}'' @ nl,
    ''tr:last-child td{border-bottom:0}'' @ nl,
    ''tbody tr:hover{background:rgba(127,127,127,.06)}'' @ nl,
    ''.mono,.id,.num,.chip,.kv dt,.kv dd,.links a{font-family:ui-monospace,'' @ sq @ ''SF Mono'' @ sq @
      '',Menlo,Consolas,monospace}'' @ nl,
    ''.id{font-weight:600}'' @ nl,
    ''.num{font-variant-numeric:tabular-nums;white-space:nowrap}'' @ nl,
    ''.muted{color:var(--muted)}'' @ nl,
    ''.chips{display:flex;flex-wrap:wrap;gap:6px}'' @ nl,
    ''.chip{padding:3px 8px;background:var(--bg);border:1px solid var(--line);border-radius:6px;font-size:12.5px;'' @
      ''white-space:nowrap;font-variant-numeric:tabular-nums}'' @ nl,
    ''.chip b{margin-right:6px;color:var(--muted);font-weight:500}'' @ nl,
    ''.chip.hot{background:var(--bad-bg);border-color:transparent;color:var(--bad-fg)}'' @ nl,
    ''.chip.hot b{color:inherit;opacity:.75}'' @ nl,
    ''.empty{padding:32px 16px;text-align:center;color:var(--muted)}'' @ nl,
    ''details.card summary{padding:13px 16px;font-weight:500;cursor:pointer;list-style:none}'' @ nl,
    ''details.card summary::-webkit-details-marker{display:none}'' @ nl,
    ''details.card summary::after{content:'' @ sq @ ''+'' @ sq @ '';float:right;color:var(--muted)}'' @ nl,
    ''details.card[open] summary::after{content:'' @ sq @ bs @ ''2212'' @ sq @ ''}'' @ nl,
    ''.kv{display:grid;grid-template-columns:repeat(auto-fill,minmax(160px,1fr));gap:14px 20px;margin:0;'' @
      ''padding:16px;border-top:1px solid var(--line)}'' @ nl,
    ''.kv dt{color:var(--muted);font-size:12px}'' @ nl,
    ''.kv dd{margin:2px 0 0;font-size:13.5px;font-variant-numeric:tabular-nums;word-break:break-all}'' @ nl,
    ''.links{display:flex;flex-wrap:wrap;align-items:center;gap:10px;margin-top:40px;color:var(--muted);'' @
      ''font-size:13px}'' @ nl,
    ''.links a{padding:4px 10px;background:var(--surface);border:1px solid var(--line);border-radius:6px;'' @
      ''color:var(--text);font-size:12.5px;text-decoration:none}'' @ nl,
    ''.links a:hover{border-color:var(--accent);color:var(--accent)}'' @ nl,
    ''a:focus-visible,summary:focus-visible{outline:2px solid var(--accent);outline-offset:2px}'' @ nl,
    ''@media (max-width:640px){.wrap{padding:26px 14px 56px}h1{font-size:23px}th,td{padding:10px 12px}.kpi strong{'' @
      ''font-size:24px}h2{flex-wrap:wrap;gap:2px 10px}.kv{grid-template-columns:repeat(2,1fr)}.stack thead{'' @
      ''display:none}.stack tr{display:grid;grid-template-columns:1fr auto;align-items:center;gap:8px 12px;'' @
      ''padding:14px;border-bottom:1px solid var(--line)}.stack tr:last-child{border-bottom:0}.stack td{padding:0;'' @
      ''border:0}.stack td:nth-child(2){justify-self:end}.stack td:nth-child(3){grid-column:1/-1;color:var(--muted);'' @
      ''font-size:12.5px}.stack td:nth-child(4){grid-column:1/-1}}'' @ nl
  ]"

text \<open>Its length, for the bound of the page, counted eight characters at a time.\<close>

lemma length_step8: "length (a # b # c # d # e # f # g # h # xs) = 8 + length xs"
  by simp

lemma length_css: "length STATUS_PAGE_CSS = 4999"
  unfolding STATUS_PAGE_CSS_def concat.simps length_append sq_def bs_def nl_def length_step8 by simp

end
