(* ===== verification/Http_Server.thy ===== *)
theory Http_Server
  imports Formatting Sockets Status_Page_Css
begin

text \<open>
  The status server of \<^verbatim>\<open>server/http_status_server.c\<close>: the bodies it builds, the parsing of a
  request and the choice of the response. The local time of day of an alert (\<open>localtime_r\<close> and \<open>strftime\<close>, which
  read the time zone of the host) is the parameter \<open>clock_text\<close>. A double quote is \<open>dq\<close> and a single
  quote \<open>sq\<close>.
\<close>

section \<open>Bodies\<close>

definition HTTP_BODY_SIZE :: nat where "HTTP_BODY_SIZE = 65536"

definition dq :: string where "dq = [CHR 0x22]"

text \<open>\<open>append\<close>, with the formatted text.\<close>

definition append_text :: "nat \<Rightarrow> string \<Rightarrow> string \<Rightarrow> string" where
  "append_text body_size text body =
     (let used = length body
      in if body_size \<le> used then body else body @ snprintf (body_size - used) text)"

section \<open>JSON\<close>

text \<open>
  The loops over the fields of a statistics text: \<open>*eq = 0\<close> without a check, so a field without an
  equals sign is a null pointer.
\<close>

fun json_fields :: "nat \<Rightarrow> bool \<Rightarrow> string list \<Rightarrow> string \<Rightarrow> fault + string" where
  "json_fields body_size first [] body = Inr body"
| "json_fields body_size first (field # rest) body =
     (case cut_at CHR ''='' field of
        (key, None) \<Rightarrow> Inl Null_pointer
      | (key, Some v) \<Rightarrow>
          json_fields body_size False rest
            (append_text body_size ((if first then [] else '','') @ dq @ key @ dq @ '':'' @ v) body))"

definition json_status :: "RegistrySnapshot \<Rightarrow> status_reads \<Rightarrow> nat \<Rightarrow> fault + string" where
  "json_status snapshot e body_size =
     bindF (json_fields body_size True (strtok_all CHR '';'' (format_system_status snapshot e MAX_LINE))
              (append_text body_size ''{'' []))
       (\<lambda>body. Inr (append_text body_size ''}'' body))"

definition json_node_head :: "bool \<Rightarrow> int \<Rightarrow> TelemetryNode \<Rightarrow> string" where
  "json_node_head first now node =
     (if first then [] else '','') @ ''{'' @ dq @ ''id'' @ dq @ '':'' @ dq @ tn_node_id node @ dq @ '','' @
     dq @ ''active'' @ dq @ '':'' @ (if node_is_active node now then ''true'' else ''false'') @ '','' @
     dq @ ''last_seen'' @ dq @ '':'' @ show_int (tn_last_seen node) @ '','' @
     dq @ ''measurements'' @ dq @ '':'' @ dq @ format_measurements node MAX_LINE @ dq @ ''}''"

text \<open>\<open>if (used && body[used-1] == '}') body[used-1] = 0\<close>\<close>

definition drop_brace :: "string \<Rightarrow> string" where
  "drop_brace body = (if body \<noteq> [] \<and> last body = CHR ''}'' then butlast body else body)"

definition json_session :: "TelemetryNode \<Rightarrow> string" where
  "json_session node =
     '','' @ dq @ ''session'' @ dq @ '':'' @ dq @ tn_session node @ dq @ '','' @ dq @ ''statistics'' @ dq @ '':{''"

fun json_nodes_loop :: "nat \<Rightarrow> int \<Rightarrow> bool \<Rightarrow> TelemetryNode list \<Rightarrow> string \<Rightarrow> fault + string" where
  "json_nodes_loop body_size now first [] body = Inr body"
| "json_nodes_loop body_size now first (node # nodes) body =
     (if \<not> tn_in_use node then json_nodes_loop body_size now first nodes body
      else
        let body1 = drop_brace (append_text body_size (json_node_head first now node) body)
        in bindF (json_fields body_size True (strtok_all CHR '';'' (format_node_stats node MAX_LINE))
                    (append_text body_size (json_session node) body1))
             (\<lambda>body2. json_nodes_loop body_size now False nodes (append_text body_size ''}}'' body2)))"

definition json_nodes :: "RegistrySnapshot \<Rightarrow> int \<Rightarrow> nat \<Rightarrow> fault + string" where
  "json_nodes snapshot now body_size =
     bindF (json_nodes_loop body_size now True (rg_nodes snapshot) (append_text body_size ''['' []))
       (\<lambda>body. Inr (append_text body_size '']'' body))"

definition json_alert :: "Alert \<Rightarrow> string" where
  "json_alert a =
     ''{'' @ dq @ ''ts'' @ dq @ '':'' @ show_int (al_timestamp a) @ '','' @
     dq @ ''node'' @ dq @ '':'' @ dq @ al_node_id a @ dq @ '','' @
     dq @ ''type'' @ dq @ '':'' @ dq @ al_type a @ dq @ '','' @ dq @ ''value'' @ dq @ '':'' @ fmt_f2 (al_value a) @ ''}''"

text \<open>The alert at an index of the loops, as in \<open>reply_alert_list\<close>.\<close>

definition snapshot_alert :: "RegistrySnapshot \<Rightarrow> int \<Rightarrow> Alert" where
  "snapshot_alert snapshot index = rg_alerts snapshot ! nat (c_rem index (int MAX_ALERTS))"

definition json_alerts :: "RegistrySnapshot \<Rightarrow> nat \<Rightarrow> string" where
  "json_alerts snapshot body_size =
     (let total = rg_total_alerts snapshot;
          shown = (if total < int MAX_ALERTS then total else int MAX_ALERTS)
      in append_text body_size '']''
           (fold (\<lambda>index. append_text body_size
               ((if index = total - shown then [] else '','') @ json_alert (snapshot_alert snapshot index)))
             [total - shown .. total - 1] (append_text body_size ''['' [])))"

definition build_json ::
  "string \<Rightarrow> RegistrySnapshot \<Rightarrow> status_reads \<Rightarrow> int \<Rightarrow> nat \<Rightarrow> fault + string" where
  "build_json path snapshot e now body_size =
     (if path = ''/status'' then json_status snapshot e body_size
      else if path = ''/nodes'' then json_nodes snapshot now body_size
      else Inr (json_alerts snapshot body_size))"

section \<open>The page\<close>

definition format_uptime :: "int \<Rightarrow> nat \<Rightarrow> string" where
  "format_uptime seconds out_size =
     (if seconds < 60 then snprintf out_size (show_int seconds @ '' s'')
      else if seconds < 3600 then
        snprintf out_size (show_int (seconds div 60) @ ''m '' @ show_02 (nat (seconds mod 60)) @ ''s'')
      else snprintf out_size (show_int (seconds div 3600) @ ''h '' @ show_02 (nat (seconds mod 3600 div 60)) @ ''m''))"

definition measurement_is_hot :: "string \<Rightarrow> string \<Rightarrow> bool" where
  "measurement_is_hot name v =
     (if name = ''STATUS'' then v \<noteq> ''OK''
      else
        let (number, erange, rest) = strtod v
        in if rest = v then False
           else if name = ''TEMP'' then TEMP_MAX < number
           else if name = ''HUM'' then HUM_MAX < number
           else if name = ''POWER'' then POWER_MAX < number
           else if name = ''VIB'' then VIB_MAX < number
           else False)"

text \<open>The texts that the successive calls of \<open>append\<close> add; a field without an equals sign is skipped.\<close>

definition chip_text :: "string \<Rightarrow> string list" where
  "chip_text field =
     (case cut_at CHR ''='' field of
        (name, None) \<Rightarrow> []
      | (name, Some v) \<Rightarrow>
          [''<span class='' @ sq @ ''chip'' @ (if measurement_is_hot name v then '' hot'' else []) @ sq @ ''><b>'' @
           name @ ''</b>'' @ v @ ''</span>''])"

definition chips_texts :: "string \<Rightarrow> string list" where
  "chips_texts measurements =
     (''<div class='' @ sq @ ''chips'' @ sq @ ''>'') #
       concat (map chip_text (strtok_all CHR '';'' (snprintf MAX_LINE measurements))) @ [''</div>'']"

text \<open>What the page reads beside the snapshot.\<close>

record page_reads =
  pr_now :: int
  pr_tcp_ok :: bool
  pr_udp_ok :: bool
  pr_status :: status_reads

definition badge :: "bool \<Rightarrow> string" where
  "badge ok = (if ok then [] else '' bad'')"

definition page_head :: "page_reads \<Rightarrow> string list" where
  "page_head e =
     [''<!doctype html><html lang='' @ sq @ ''en'' @ sq @ ''><head><meta charset='' @ sq @ ''utf-8'' @ sq @ ''>'' @
        ''<meta name='' @ sq @ ''viewport'' @ sq @ '' content='' @ sq @ ''width=device-width,initial-scale=1'' @ sq @ ''>'' @
        ''<meta http-equiv='' @ sq @ ''refresh'' @ sq @ '' content='' @ sq @ ''5'' @ sq @ ''><title>Telemetry</title><style>'' @
        STATUS_PAGE_CSS @ ''</style></head><body><div class='' @ sq @ ''wrap'' @ sq @ ''>'',
      ''<header class='' @ sq @ ''top'' @ sq @ ''><div><h1>Telemetry server</h1><p class='' @ sq @ ''sub'' @ sq @
        ''>Live view of the platform. Refreshes every 5 seconds.</p></div><div class='' @ sq @ ''health'' @ sq @
        ''><span class='' @ sq @ ''badge'' @ badge (pr_tcp_ok e) @ sq @ ''>TCP loop '' @
        (if pr_tcp_ok e then ''responsive'' else ''stalled'') @ ''</span><span class='' @ sq @ ''badge'' @
        badge (pr_udp_ok e) @ sq @ ''>UDP loop '' @ (if pr_udp_ok e then ''responsive'' else ''stalled'') @
        ''</span></div></header>'']"

definition kpi :: "string \<Rightarrow> string \<Rightarrow> string \<Rightarrow> string" where
  "kpi cls label v =
     ''<div class='' @ sq @ ''kpi'' @ cls @ sq @ ''><span>'' @ label @ ''</span><strong>'' @ v @ ''</strong></div>''"

definition page_kpis :: "RegistrySnapshot \<Rightarrow> page_reads \<Rightarrow> string list" where
  "page_kpis s e =
     [''<div class='' @ sq @ ''kpis'' @ sq @ ''>'' @
        kpi [] ''Registered nodes'' (show_int (count_registered_nodes s)) @
        kpi [] ''Active nodes'' (show_int (count_active_nodes s (pr_now e))) @
        kpi (if 0 < rg_total_alerts s then '' hot'' else []) ''Alerts raised'' (show_int (rg_total_alerts s)) @
        kpi [] ''Uptime'' (format_uptime (pr_now e - rg_started_at s) 32) @
        kpi [] ''Parsed UDP datagrams'' (show_int (rg_datagrams_total s)) @
        ''<div class='' @ sq @ ''kpi'' @ (if 0 < sum_lost_datagrams s then '' hot'' else []) @ sq @ '' title='' @ sq @
        ''Estimated missing after sender reports'' @ sq @ ''><span>Estimated missing</span><strong>'' @
        show_int (sum_lost_datagrams s) @ ''</strong></div></div>'']"

definition node_row :: "int \<Rightarrow> TelemetryNode \<Rightarrow> string list" where
  "node_row now node =
     [''<tr><td class='' @ sq @ ''id'' @ sq @ ''>'' @ tn_node_id node @ ''</td><td><span class='' @ sq @ ''badge'' @
        (if node_is_active node now then [] else '' warn'') @ sq @ ''>'' @
        (if node_is_active node now then ''active'' else ''inactive'') @ ''</span></td>''] @
     (if tn_last_seen node \<noteq> 0
      then (''<td class='' @ sq @ ''num'' @ sq @ ''>'' @ show_int (now - tn_last_seen node) @ '' s ago</td><td>'') #
             chips_texts (format_measurements node MAX_LINE)
      else [''<td class='' @ sq @ ''muted'' @ sq @ ''>-</td><td class='' @ sq @ ''muted'' @ sq @ ''>No data yet'']) @
     [''</td></tr>'']"

definition page_nodes :: "RegistrySnapshot \<Rightarrow> page_reads \<Rightarrow> string list" where
  "page_nodes s e =
     [''<section><h2>Nodes and last measurements <small>'' @ show_int (count_registered_nodes s) @ '' registered, '' @
        show_int (count_active_nodes s (pr_now e)) @ '' active</small></h2><div class='' @ sq @ ''card'' @ sq @ ''>''] @
     (if count_registered_nodes s = 0
      then [''<div class='' @ sq @ ''empty'' @ sq @ ''>No nodes have reported yet.</div>'']
      else
        (''<div class='' @ sq @ ''scroll'' @ sq @ ''><table class='' @ sq @ ''stack'' @ sq @
           ''><thead><tr><th>Node</th><th>State</th><th>Last seen</th><th>Measurements</th></tr></thead><tbody>'') #
          concat (map (node_row (pr_now e)) (filter tn_in_use (rg_nodes s))) @ [''</tbody></table></div>'']) @
     [''</div></section>'']"

definition alert_row :: "(int \<Rightarrow> string) \<Rightarrow> Alert \<Rightarrow> string" where
  "alert_row clock_text a =
     ''<tr><td class='' @ sq @ ''num'' @ sq @ ''>'' @ clock_text (al_timestamp a) @ ''</td><td class='' @ sq @ ''id'' @ sq @
     ''>'' @ al_node_id a @ ''</td><td><span class='' @ sq @ ''badge bad plain'' @ sq @ ''>'' @ al_type a @
     ''</span></td><td class='' @ sq @ ''num'' @ sq @ ''>'' @ fmt_f2 (al_value a) @ ''</td></tr>''"

definition page_alerts :: "(int \<Rightarrow> string) \<Rightarrow> RegistrySnapshot \<Rightarrow> string list" where
  "page_alerts clock_text s =
     (let total = rg_total_alerts s; shown = (if total < 20 then total else 20)
      in [''<section><h2>Recent alerts <small>'' @ show_int total @ '' in total, server time</small></h2><div class='' @
            sq @ ''card'' @ sq @ ''>''] @
         (if shown = 0 then [''<div class='' @ sq @ ''empty'' @ sq @ ''>No alerts so far.</div>'']
          else
            (''<div class='' @ sq @ ''scroll'' @ sq @
               ''><table><thead><tr><th>Time</th><th>Node</th><th>Type</th><th>Value</th></tr></thead><tbody>'') #
              map (\<lambda>index. alert_row clock_text (snapshot_alert s index)) (rev [total - shown .. total - 1]) @
              [''</tbody></table></div>'']) @
         [''</div></section>''])"

definition field_cell :: "string \<Rightarrow> string list" where
  "field_cell field =
     (case cut_at CHR ''='' field of
        (key, None) \<Rightarrow> []
      | (key, Some v) \<Rightarrow> [''<div><dt>'' @ key @ ''</dt><dd>'' @ v @ ''</dd></div>''])"

definition page_status :: "RegistrySnapshot \<Rightarrow> page_reads \<Rightarrow> string list" where
  "page_status s e =
     (''<section><details class='' @ sq @ ''card'' @ sq @ '' open><summary>Measured status and counters</summary><dl class='' @
        sq @ ''kv'' @ sq @ ''>'') #
       concat (map field_cell (strtok_all CHR '';'' (format_system_status s (pr_status e) MAX_LINE))) @
       [''</dl></details></section>'',
        ''<nav class='' @ sq @ ''links'' @ sq @ ''>JSON <a href='' @ sq @ ''/status'' @ sq @ ''>/status</a> <a href='' @ sq @
          ''/nodes'' @ sq @ ''>/nodes</a> <a href='' @ sq @ ''/alerts'' @ sq @ ''>/alerts</a></nav></div></body></html>'']"

definition html_texts :: "(int \<Rightarrow> string) \<Rightarrow> RegistrySnapshot \<Rightarrow> page_reads \<Rightarrow> string list" where
  "html_texts clock_text s e =
     page_head e @ page_kpis s e @ page_nodes s e @ page_alerts clock_text s @ page_status s e"

definition build_html :: "(int \<Rightarrow> string) \<Rightarrow> RegistrySnapshot \<Rightarrow> page_reads \<Rightarrow> nat \<Rightarrow> string" where
  "build_html clock_text s e body_size = fold (append_text body_size) (html_texts clock_text s e) []"

end
