(* ===== verification/Http_Request.thy ===== *)
theory Http_Request
  imports Http_Server
begin

text \<open>
  The requests of \<^verbatim>\<open>server/http_status_server.c\<close>: the request line read by \<open>sscanf\<close>, the
  header lines and their limits, the choice of the response and the bytes sent. The turns of the
  connection are those of \<open>receive_line_until\<close>; all lines of a request share one deadline.
\<close>

section \<open>The request line\<close>

definition is_space :: "char \<Rightarrow> bool" where
  "is_space c = (c = CHR '' '' \<or> (9 \<le> char_code c \<and> char_code c \<le> 13))"

text \<open>One \<open>%<w>s\<close>: skip white space, then one to \<open>w\<close> other characters.\<close>

definition scan_word :: "nat \<Rightarrow> string \<Rightarrow> (string \<times> string) option" where
  "scan_word w text =
     (let t = dropWhile is_space text; word = take w (takeWhile (\<lambda>c. \<not> is_space c) t)
      in if word = [] then None else Some (word, drop (length word) t))"

text \<open>\<open>sscanf(line, "%15s %63s %15s %c", \<dots>) == 3\<close>, and the version.\<close>

definition scan_request :: "string \<Rightarrow> (string \<times> string \<times> string) option" where
  "scan_request line =
     (case scan_word 15 line of
        None \<Rightarrow> None
      | Some (meth, r1) \<Rightarrow>
          (case scan_word 63 r1 of
             None \<Rightarrow> None
           | Some (path, r2) \<Rightarrow>
               (case scan_word 15 r2 of
                  None \<Rightarrow> None
                | Some (version, r3) \<Rightarrow>
                    if dropWhile is_space r3 = [] then Some (meth, path, version) else None)))"

definition request_line :: "string \<Rightarrow> (string \<times> string) option" where
  "request_line line =
     (case scan_request line of
        None \<Rightarrow> None
      | Some (meth, path, version) \<Rightarrow>
          if version \<noteq> ''HTTP/1.1'' \<and> version \<noteq> ''HTTP/1.0'' then None else Some (meth, path))"

section \<open>Headers\<close>

definition LINE_SIZE :: nat where "LINE_SIZE = 1024"

text \<open>The loop: the bytes and lines so far; \<open>None\<close> inside when the empty line was read.\<close>

function read_headers ::
  "int \<Rightarrow> int \<Rightarrow> nat \<Rightarrow> recv_turn list \<Rightarrow> ((int \<times> string) option \<times> recv_turn list) option" where
  "read_headers deadline bytes lines turns =
     (case receive_line_until LINE_SIZE deadline turns of
        None \<Rightarrow> None
      | Some (n, line, rest) \<Rightarrow>
          if n = 1 then Some (None, rest)
          else if n \<le> 0 then Some (Some (if n = - 2 then 431 else 408, ''Incomplete headers''), rest)
          else if 64 < lines + 1 \<or> 8192 < bytes + n then Some (Some (431, ''Headers too large''), rest)
          else if CHR '':'' \<notin> set line then Some (Some (400, ''Bad header''), rest)
          else read_headers deadline (bytes + n) (lines + 1) rest)"
  by pat_completeness auto
termination
proof (relation "measure (\<lambda>(d, b, l, turns). length turns)", goal_cases)
  case (2 deadline bytes lines turns r n lr line rest)
  then have "receive_from LINE_SIZE deadline [] False False turns = Some (n, line, rest)"
    by (simp add: receive_line_until_def)
  then have "\<exists>used. turns = used @ rest \<and> used \<noteq> []"
    using receive_from_result[of LINE_SIZE deadline "[]" False False turns n line rest] by (simp add: LINE_SIZE_def)
  then show ?case by auto
qed simp

declare read_headers.simps [simp del]

section \<open>Responses\<close>

record http_response =
  hr_status :: int
  hr_type :: string
  hr_body :: string

definition plain :: "int \<Rightarrow> string \<Rightarrow> http_response" where
  "plain status text = \<lparr>hr_status = status, hr_type = ''text/plain'', hr_body = text\<rparr>"

definition crlf :: string where "crlf = [CHR 0x0D, CHR 0x0A]"

definition http_header :: "http_response \<Rightarrow> string" where
  "http_header r =
     snprintf 256 (''HTTP/1.1 '' @ show_int (hr_status r) @ '' Response'' @ crlf @ ''Content-Type: '' @ hr_type r @ crlf @
       ''Content-Length: '' @ show_nat (length (hr_body r)) @ crlf @ ''Connection: close'' @ crlf @ crlf)"

text \<open>The bytes the two calls of \<open>send_full_buffer\<close> are given; the body only after the whole header.\<close>

definition http_reply :: "int \<Rightarrow> int \<Rightarrow> http_response \<Rightarrow> send_turn list \<Rightarrow> (string \<times> send_turn list) option" where
  "http_reply start start2 r turns =
     (case send_full_buffer start (http_header r) turns of
        None \<Rightarrow> None
      | Some (rc, out, rest) \<Rightarrow>
          if rc = 0 then map_option (\<lambda>(rc2, out2, rest2). (out @ out2, rest2)) (send_full_buffer start2 (hr_body r) rest)
          else Some (out, rest))"

text \<open>
  What a request reads: the snapshot, the clock and health for the body, the health for the status
  of \<^verbatim>\<open>/status\<close>, and whether \<open>malloc\<close> succeeds.
\<close>

record request_reads =
  rq_snapshot :: RegistrySnapshot
  rq_page :: page_reads
  rq_tcp_ok :: bool
  rq_udp_ok :: bool
  rq_malloc_ok :: bool

definition respond :: "(int \<Rightarrow> string) \<Rightarrow> request_reads \<Rightarrow> string \<Rightarrow> string \<Rightarrow> fault + http_response" where
  "respond clock_text e meth path =
     (if meth \<noteq> ''GET'' then Inr (plain 405 ''GET required'')
      else if \<not> rq_malloc_ok e then Inr (plain 503 ''Capacity'')
      else if path = ''/'' then
        Inr \<lparr>hr_status = 200, hr_type = ''text/html; charset=utf-8'',
             hr_body = build_html clock_text (rq_snapshot e) (rq_page e) HTTP_BODY_SIZE\<rparr>
      else if path = ''/status'' \<or> path = ''/nodes'' \<or> path = ''/alerts'' then
        bindF (build_json path (rq_snapshot e) (pr_status (rq_page e)) (pr_now (rq_page e)) HTTP_BODY_SIZE) (\<lambda>body.
          Inr \<lparr>hr_status = (if path = ''/status'' \<and> (\<not> rq_tcp_ok e \<or> \<not> rq_udp_ok e) then 503 else 200),
               hr_type = ''application/json'', hr_body = body\<rparr>)
      else Inr \<lparr>hr_status = 404, hr_type = ''application/json'',
                hr_body = ''{'' @ dq @ ''error'' @ dq @ '':'' @ dq @ ''not found'' @ dq @ ''}''\<rparr>)"

definition serve_http_request ::
  "(int \<Rightarrow> string) \<Rightarrow> request_reads \<Rightarrow> int \<Rightarrow> recv_turn list \<Rightarrow>
     (fault + http_response) option" where
  "serve_http_request clock_text e start turns =
     (let deadline = start + 2000
      in case receive_line_until LINE_SIZE deadline turns of
           None \<Rightarrow> None
         | Some (n, line, rest) \<Rightarrow>
             if n \<le> 0 then Some (Inr (plain (if n = - 2 then 431 else 408) ''Incomplete request''))
             else
               case request_line line of
                 None \<Rightarrow> Some (Inr (plain 400 ''Bad request''))
               | Some (meth, path) \<Rightarrow>
                   (case read_headers deadline n 0 rest of
                      None \<Rightarrow> None
                    | Some (Some (status, text), rest2) \<Rightarrow> Some (Inr (plain status text))
                    | Some (None, rest2) \<Rightarrow> Some (respond clock_text e meth path)))"

section \<open>Workers\<close>

definition MAX_WORKERS :: int where "MAX_WORKERS = 16"

text \<open>The listener's decision for an accepted connection, and the number of workers after it.\<close>

definition accept_worker :: "bool \<Rightarrow> bool \<Rightarrow> int \<Rightarrow> bool \<times> int" where
  "accept_worker malloc_ok create_ok workers =
     (if MAX_WORKERS \<le> workers then (False, workers)
      else
        let workers' = workers + 1
        in if \<not> malloc_ok \<or> \<not> create_ok then (False, workers' - 1) else (True, workers'))"

end
