(* ===== verification/Subscribers.thy ===== *)
theory Subscribers
  imports Registry Contracts
begin

text \<open>
  The alert subscribers of \<^verbatim>\<open>server/alert_subscribers.c\<close>: 32 slots, each with the socket of an
  operator (0 when free) and a ring of up to 32 lines waiting to be sent. Every locked section is
  one function. A broadcast returns the sockets it shuts down. The drain takes its lock once per
  line, so it has a parameter \<open>env\<close> for what the other threads do to the table before its
  \<open>k\<close>-th lock, and a parameter \<open>send\<close> for the outcome of its \<open>k\<close>-th \<open>send_text_line\<close>.
\<close>

section \<open>State and operations\<close>

definition SUBSCRIBERS :: nat where "SUBSCRIBERS = 32"

definition QUEUE_SIZE :: nat where "QUEUE_SIZE = 32"

record Subscriber =
  sb_fd :: int
  sb_head :: nat
  sb_count :: nat
  sb_lines :: "string list"

record subscribers_state =
  su_slots :: "Subscriber list"
  su_dropped :: int

text \<open>\<open>(Subscriber){.fd = fd}\<close>; a zeroed slot is the one of socket 0.\<close>

definition new_subscriber :: "int \<Rightarrow> Subscriber" where
  "new_subscriber fd =
     \<lparr>sb_fd = fd, sb_head = 0, sb_count = 0, sb_lines = replicate QUEUE_SIZE []\<rparr>"

definition subscribers_init :: subscribers_state where
  "subscribers_init = \<lparr>su_slots = replicate SUBSCRIBERS (new_subscriber 0), su_dropped = 0\<rparr>"

text \<open>The scan of \<open>subscribers_add\<close>: \<open>None\<close> when the socket is found, else the last free slot.\<close>

fun add_scan :: "int \<Rightarrow> nat \<Rightarrow> Subscriber list \<Rightarrow> nat option \<Rightarrow> nat option option" where
  "add_scan fd i [] free_slot = Some free_slot"
| "add_scan fd i (s # rest) free_slot =
     (if sb_fd s = fd then None
      else add_scan fd (Suc i) rest (if sb_fd s = 0 then Some i else free_slot))"

definition subscribers_add :: "int \<Rightarrow> subscribers_state \<Rightarrow> int \<times> subscribers_state" where
  "subscribers_add fd st =
     (case add_scan fd 0 (su_slots st) None of
        None \<Rightarrow> (0, st)
      | Some None \<Rightarrow> (- 1, st)
      | Some (Some i) \<Rightarrow> (0, st\<lparr>su_slots := (su_slots st)[i := new_subscriber fd]\<rparr>))"

definition subscribers_remove :: "int \<Rightarrow> subscribers_state \<Rightarrow> subscribers_state" where
  "subscribers_remove fd st =
     st\<lparr>su_slots := map (\<lambda>s. if sb_fd s = fd then s\<lparr>sb_fd := 0\<rparr> else s) (su_slots st)\<rparr>"

definition subscribers_dropped :: "subscribers_state \<Rightarrow> int" where
  "subscribers_dropped st = su_dropped st"

definition alert_line :: "Alert \<Rightarrow> string" where
  "alert_line a =
     snprintf MAX_LINE (''ALERT|'' @ al_node_id a @ ''|'' @ al_type a @ ''|'' @ fmt_f2 (al_value a))"

text \<open>The ring of one slot: the write position is \<open>(head + count) % QUEUE_SIZE\<close>.\<close>

definition enqueue_line :: "string \<Rightarrow> Subscriber \<Rightarrow> Subscriber" where
  "enqueue_line line s =
     s\<lparr>sb_lines := (sb_lines s)[(sb_head s + sb_count s) mod QUEUE_SIZE := line],
       sb_count := sb_count s + 1\<rparr>"

definition front_line :: "Subscriber \<Rightarrow> string" where
  "front_line s = sb_lines s ! sb_head s"

definition dequeue_line :: "Subscriber \<Rightarrow> Subscriber" where
  "dequeue_line s = s\<lparr>sb_head := (sb_head s + 1) mod QUEUE_SIZE, sb_count := sb_count s - 1\<rparr>"

definition broadcast_slot :: "string \<Rightarrow> Subscriber \<Rightarrow> Subscriber" where
  "broadcast_slot line s =
     (if sb_fd s = 0 then s
      else if sb_count s = QUEUE_SIZE then s\<lparr>sb_fd := 0\<rparr>
      else enqueue_line line s)"

definition overflowing :: "Subscriber \<Rightarrow> bool" where
  "overflowing s = (sb_fd s \<noteq> 0 \<and> sb_count s = QUEUE_SIZE)"

text \<open>The sockets shut down because their queue was full, and the new table.\<close>

definition subscribers_broadcast :: "Alert \<Rightarrow> subscribers_state \<Rightarrow> int list \<times> subscribers_state" where
  "subscribers_broadcast a st =
     (map sb_fd (filter overflowing (su_slots st)),
      st\<lparr>su_slots := map (broadcast_slot (alert_line a)) (su_slots st),
         su_dropped := su_dropped st + int (length (filter overflowing (su_slots st)))\<rparr>)"

text \<open>The locked section of one turn of the drain: the line taken, empty when there is none.\<close>

definition drain_pop :: "int \<Rightarrow> subscribers_state \<Rightarrow> string \<times> subscribers_state" where
  "drain_pop fd st =
     (case find_index (\<lambda>s. sb_fd s = fd \<and> sb_count s \<noteq> 0) (su_slots st) of
        None \<Rightarrow> ([], st)
      | Some i \<Rightarrow>
          (front_line (su_slots st ! i),
           st\<lparr>su_slots := (su_slots st)[i := dequeue_line (su_slots st ! i)]\<rparr>))"

fun drain_from ::
  "(nat \<Rightarrow> subscribers_state \<Rightarrow> subscribers_state) \<Rightarrow> (nat \<Rightarrow> string \<Rightarrow> bool) \<Rightarrow> int \<Rightarrow> nat \<Rightarrow> nat \<Rightarrow>
     subscribers_state \<Rightarrow> int \<times> string list \<times> subscribers_state" where
  "drain_from env send fd 0 k st = (0, [], st)"
| "drain_from env send fd (Suc n) k st =
     (case drain_pop fd (env k st) of
        (line, st1) \<Rightarrow>
          if line = [] then (0, [], st1)
          else if \<not> send k line then (- 1, [line], st1)
          else
            (case drain_from env send fd n (Suc k) st1 of
               (rc, lines, st2) \<Rightarrow> (rc, line # lines, st2)))"

text \<open>The result, the lines given to \<open>send_text_line\<close>, and the table.\<close>

definition subscribers_drain ::
  "(nat \<Rightarrow> subscribers_state \<Rightarrow> subscribers_state) \<Rightarrow> (nat \<Rightarrow> string \<Rightarrow> bool) \<Rightarrow> int \<Rightarrow>
     subscribers_state \<Rightarrow> int \<times> string list \<times> subscribers_state" where
  "subscribers_drain env send fd st = drain_from env send fd QUEUE_SIZE 0 st"

section \<open>Invariant\<close>

definition line_ok :: "string \<Rightarrow> bool" where
  "line_ok l = (l \<noteq> [] \<and> length l < MAX_LINE)"

text \<open>The waiting lines of a slot, oldest first.\<close>

definition sub_items :: "Subscriber \<Rightarrow> string list" where
  "sub_items s = map (\<lambda>k. sb_lines s ! ((sb_head s + k) mod QUEUE_SIZE)) [0 ..< sb_count s]"

definition sub_ok :: "Subscriber \<Rightarrow> bool" where
  "sub_ok s =
     (length (sb_lines s) = QUEUE_SIZE \<and> sb_head s < QUEUE_SIZE \<and> sb_count s \<le> QUEUE_SIZE)"

definition subs_wf :: "subscribers_state \<Rightarrow> bool" where
  "subs_wf st =
     (length (su_slots st) = SUBSCRIBERS \<and> 0 \<le> su_dropped st \<and>
      (\<forall>s \<in> set (su_slots st). sub_ok s \<and> (\<forall>l \<in> set (sub_items s). line_ok l)) \<and>
      distinct (filter (\<lambda>fd. fd \<noteq> 0) (map sb_fd (su_slots st))))"

lemma QUEUE_SIZE_pos [simp]: "0 < QUEUE_SIZE"
  by (simp add: QUEUE_SIZE_def)

lemma mod_add_distinct:
  "(j::nat) < k \<Longrightarrow> k < n \<Longrightarrow> (h + j) mod n \<noteq> (h + k) mod n"
proof
  assume jk: "j < k" "k < n" and "(h + j) mod n = (h + k) mod n"
  then have "n dvd (h + k) - (h + j)" by (metis add_le_cancel_left less_imp_le mod_eq_dvd_iff_nat)
  then have "n dvd k - j" by simp
  then show False using jk by (auto dest: dvd_imp_le)
qed

interpretation q: fifo QUEUE_SIZE sub_ok sub_items enqueue_line front_line dequeue_line
proof unfold_locales
  fix s :: Subscriber and line
  assume ok: "sub_ok s"
  show "length (sub_items s) \<le> QUEUE_SIZE" using ok by (simp add: sub_ok_def sub_items_def)
  {
    assume room: "length (sub_items s) < QUEUE_SIZE"
    then have c: "sb_count s < QUEUE_SIZE" by (simp add: sub_items_def)
    show "sub_ok (enqueue_line line s)" using ok c by (simp add: sub_ok_def enqueue_line_def)
    have "(sb_lines s)[(sb_head s + sb_count s) mod QUEUE_SIZE := line] ! ((sb_head s + k) mod QUEUE_SIZE) =
        sb_lines s ! ((sb_head s + k) mod QUEUE_SIZE)" if "k < sb_count s" for k
      using mod_add_distinct[OF that c, of "sb_head s"] by (simp add: eq_commute)
    then show "sub_items (enqueue_line line s) = sub_items s @ [line]"
      using ok by (simp add: sub_items_def enqueue_line_def sub_ok_def)
  }
  assume "sub_items s \<noteq> []"
  then have c: "0 < sb_count s" by (simp add: sub_items_def)
  then have up: "[0 ..< sb_count s] = 0 # map Suc [0 ..< sb_count s - 1]"
    by (metis Suc_pred' map_Suc_upt upt_conv_Cons)
  show "front_line s = hd (sub_items s)"
    using ok by (simp add: sub_items_def front_line_def sub_ok_def up)
  show "sub_ok (dequeue_line s)" using ok by (auto simp: sub_ok_def dequeue_line_def)
  have "(Suc (sb_head s) mod QUEUE_SIZE + k) mod QUEUE_SIZE = (sb_head s + Suc k) mod QUEUE_SIZE" for k
    by (simp add: mod_add_left_eq)
  then show "sub_items (dequeue_line s) = tl (sub_items s)"
    by (simp add: sub_items_def dequeue_line_def up)
qed

text \<open>The queue of a socket, when it is subscribed.\<close>

definition queue_of :: "int \<Rightarrow> subscribers_state \<Rightarrow> string list option" where
  "queue_of fd st = map_option sub_items (find (\<lambda>s. sb_fd s = fd) (su_slots st))"

lemma new_subscriber_simps [simp]:
  "sb_fd (new_subscriber fd) = fd" "sub_items (new_subscriber fd) = []" "sub_ok (new_subscriber fd)"
  by (simp_all add: new_subscriber_def sub_items_def sub_ok_def)

lemma subscribers_init_wf: "subs_wf subscribers_init"
  by (simp add: subs_wf_def subscribers_init_def)

lemma enqueue_fd [simp]: "sb_fd (enqueue_line l s) = sb_fd s" "sb_fd (dequeue_line s) = sb_fd s"
  by (simp_all add: enqueue_line_def dequeue_line_def)

lemma sub_items_fd [simp]: "sub_items (s\<lparr>sb_fd := fd\<rparr>) = sub_items s" "sub_ok (s\<lparr>sb_fd := fd\<rparr>) = sub_ok s"
  by (simp_all add: sub_items_def sub_ok_def)

lemma length_sub_items [simp]: "length (sub_items s) = sb_count s"
  by (simp add: sub_items_def)

lemma sub_items_empty: "sub_items s = [] \<longleftrightarrow> sb_count s = 0"
  by (simp add: sub_items_def)

section \<open>Lookups by socket\<close>

definition fds_distinct :: "Subscriber list \<Rightarrow> bool" where
  "fds_distinct xs = distinct (filter (\<lambda>fd. fd \<noteq> 0) (map sb_fd xs))"

lemma fds_distinct_Cons:
  "fds_distinct (x # xs) \<longleftrightarrow> (sb_fd x \<noteq> 0 \<longrightarrow> (\<forall>s \<in> set xs. sb_fd s \<noteq> sb_fd x)) \<and> fds_distinct xs"
proof -
  have "sb_fd x \<notin> sb_fd ` set xs \<longleftrightarrow> (\<forall>s \<in> set xs. sb_fd s \<noteq> sb_fd x)"
    unfolding image_iff by metis
  then show ?thesis by (auto simp: fds_distinct_def)
qed

lemma fds_distinct_find:
  "fds_distinct xs \<Longrightarrow> s \<in> set xs \<Longrightarrow> sb_fd s \<noteq> 0 \<Longrightarrow> find (\<lambda>t. sb_fd t = sb_fd s) xs = Some s"
  by (induction xs) (auto simp: fds_distinct_Cons)

lemma find_fd_SomeD: "find (\<lambda>t. sb_fd t = fd) xs = Some s \<Longrightarrow> s \<in> set xs \<and> sb_fd s = fd"
  by (induction xs) (auto split: if_splits)

lemma find_fd_None: "find (\<lambda>t. sb_fd t = fd) xs = None \<longleftrightarrow> (\<forall>s \<in> set xs. sb_fd s \<noteq> fd)"
  by (induction xs) auto

text \<open>A change of every slot that keeps its socket or frees it.\<close>

lemma find_fd_map:
  assumes "fds_distinct xs" and "fd \<noteq> 0" and "\<And>s. sb_fd (f s) = sb_fd s \<or> sb_fd (f s) = 0"
  shows "find (\<lambda>t. sb_fd t = fd) (map f xs) =
    (case find (\<lambda>t. sb_fd t = fd) xs of
       None \<Rightarrow> None
     | Some s \<Rightarrow> if sb_fd (f s) = fd then Some (f s) else None)"
  using assms(1)
proof (induction xs)
  case Nil
  then show ?case by simp
next
  case (Cons x xs)
  have "sb_fd (f x) \<noteq> fd" if "sb_fd x \<noteq> fd" using assms(2) assms(3)[of x] that by metis
  moreover have "find (\<lambda>t. sb_fd t = fd) xs = None" if "sb_fd x = fd"
    using Cons.prems assms(2) that by (auto simp: fds_distinct_Cons find_fd_None)
  ultimately show ?case using Cons by (auto simp: fds_distinct_Cons)
qed

lemma fds_distinct_map:
  assumes "fds_distinct xs" and "\<And>s. sb_fd (f s) = sb_fd s \<or> sb_fd (f s) = 0"
  shows "fds_distinct (map f xs)"
  using assms(1)
proof (induction xs)
  case (Cons x xs)
  have "sb_fd (f t) \<noteq> sb_fd x" if "t \<in> set xs" "sb_fd x \<noteq> 0" for t
    using Cons.prems that assms(2)[of t] by (auto simp: fds_distinct_Cons)
  then show ?case using Cons assms(2)[of x] by (auto simp: fds_distinct_Cons)
qed simp

text \<open>A change of one slot that keeps its socket.\<close>

lemma find_fd_update:
  "fds_distinct xs \<Longrightarrow> i < length xs \<Longrightarrow> sb_fd (xs ! i) \<noteq> 0 \<Longrightarrow> sb_fd s = sb_fd (xs ! i) \<Longrightarrow> fd \<noteq> 0 \<Longrightarrow>
   find (\<lambda>t. sb_fd t = fd) (xs[i := s]) =
     (if fd = sb_fd s then Some s else find (\<lambda>t. sb_fd t = fd) xs)"
proof (induction xs arbitrary: i)
  case Nil
  then show ?case by simp
next
  case (Cons x xs)
  show ?case
  proof (cases i)
    case 0
    then show ?thesis using Cons.prems by auto
  next
    case (Suc j)
    then have "xs ! j \<in> set xs" using Cons.prems(2) by simp
    then have "sb_fd (xs ! j) \<noteq> sb_fd x"
      using Cons.prems(1,3) Suc by (auto simp: fds_distinct_Cons)
    moreover have "find (\<lambda>t. sb_fd t = fd) (xs[j := s]) =
        (if fd = sb_fd s then Some s else find (\<lambda>t. sb_fd t = fd) xs)"
      using Cons.prems Suc by (intro Cons.IH) (simp_all add: fds_distinct_Cons)
    ultimately show ?thesis using Cons.prems(4) Suc by auto
  qed
qed

lemma map_fd_update: "sb_fd s = sb_fd (xs ! i) \<Longrightarrow> map sb_fd (xs[i := s]) = map sb_fd xs"
  by (metis list_update_id map_update)

text \<open>A new socket in a free slot.\<close>

lemma find_fd_insert:
  "i < length xs \<Longrightarrow> sb_fd (xs ! i) = 0 \<Longrightarrow> sb_fd s \<noteq> 0 \<Longrightarrow> \<forall>t \<in> set xs. sb_fd t \<noteq> sb_fd s \<Longrightarrow> fd \<noteq> 0 \<Longrightarrow>
   find (\<lambda>t. sb_fd t = fd) (xs[i := s]) =
     (if fd = sb_fd s then Some s else find (\<lambda>t. sb_fd t = fd) xs)"
proof (induction xs arbitrary: i)
  case Nil
  then show ?case by simp
next
  case (Cons x xs)
  then show ?case by (cases i) auto
qed

lemma fds_distinct_insert:
  "i < length xs \<Longrightarrow> sb_fd (xs ! i) = 0 \<Longrightarrow> \<forall>t \<in> set xs. sb_fd t \<noteq> sb_fd s \<Longrightarrow>
   fds_distinct xs \<Longrightarrow> fds_distinct (xs[i := s])"
proof (induction xs arbitrary: i)
  case Nil
  then show ?case by simp
next
  case (Cons x xs)
  show ?case
  proof (cases i)
    case 0
    then show ?thesis using Cons.prems by (simp add: fds_distinct_Cons)
  next
    case (Suc j)
    then have "set (xs[j := s]) \<subseteq> insert s (set xs)" by (simp add: set_update_subset_insert)
    then show ?thesis using Cons Suc by (auto simp: fds_distinct_Cons)
  qed
qed

lemma subs_wf_distinct: "subs_wf st \<Longrightarrow> fds_distinct (su_slots st)"
  by (simp add: subs_wf_def fds_distinct_def)

section \<open>Subscribing and unsubscribing\<close>

lemma add_scan_None: "add_scan fd i xs fr = None \<longleftrightarrow> (\<exists>s \<in> set xs. sb_fd s = fd)"
  by (induction xs arbitrary: i fr) auto

lemma add_scan_Some:
  "add_scan fd i xs fr = Some r \<Longrightarrow>
     (case r of
        None \<Rightarrow> fr = None \<and> (\<forall>s \<in> set xs. sb_fd s \<noteq> 0)
      | Some j \<Rightarrow> fr = Some j \<or> (i \<le> j \<and> j < i + length xs \<and> sb_fd (xs ! (j - i)) = 0))"
proof (induction xs arbitrary: i fr)
  case Nil
  then show ?case by (auto split: option.splits)
next
  case (Cons x xs)
  let ?fr = "if sb_fd x = 0 then Some i else fr"
  have "add_scan fd (Suc i) xs ?fr = Some r" using Cons.prems by (simp split: if_splits)
  from Cons.IH[OF this] show ?case
    by (auto split: option.splits if_splits simp: nth_Cons' Suc_diff_le)
qed

text \<open>What an operator sees of \<open>subscribers_add\<close>.\<close>

lemma subscribers_add_cases:
  assumes wf: "subs_wf st" and fd: "fd \<noteq> 0"
  obtains (again) q where "queue_of fd st = Some q" "subscribers_add fd st = (0, st)"
  | (full) "queue_of fd st = None" "\<forall>s \<in> set (su_slots st). sb_fd s \<noteq> 0"
      "subscribers_add fd st = (- 1, st)"
  | (fresh) i st' where "queue_of fd st = None" "i < SUBSCRIBERS" "sb_fd (su_slots st ! i) = 0"
      "st' = st\<lparr>su_slots := (su_slots st)[i := new_subscriber fd]\<rparr>"
      "subscribers_add fd st = (0, st')"
proof (cases "add_scan fd 0 (su_slots st) None")
  case None
  then have "\<exists>s \<in> set (su_slots st). sb_fd s = fd" by (simp add: add_scan_None)
  then have "find (\<lambda>s. sb_fd s = fd) (su_slots st) \<noteq> None" by (auto simp: find_fd_None)
  then obtain q where "queue_of fd st = Some q" by (auto simp: queue_of_def)
  moreover have "subscribers_add fd st = (0, st)" using None by (simp add: subscribers_add_def)
  ultimately show ?thesis by (rule again)
next
  case (Some r)
  then have nq: "queue_of fd st = None"
    using add_scan_None[of fd 0 "su_slots st" None] by (auto simp: queue_of_def find_fd_None)
  show ?thesis
  proof (cases r)
    case None
    then show ?thesis using full nq Some add_scan_Some[OF Some] by (simp add: subscribers_add_def)
  next
    case (Some j)
    note scan = \<open>add_scan fd 0 (su_slots st) None = Some r\<close>
    have j: "j < SUBSCRIBERS" "sb_fd (su_slots st ! j) = 0"
      using add_scan_Some[OF scan] Some wf by (simp_all add: subs_wf_def)
    have "subscribers_add fd st = (0, st\<lparr>su_slots := (su_slots st)[j := new_subscriber fd]\<rparr>)"
      using scan Some by (simp add: subscribers_add_def)
    with nq j show ?thesis by (intro fresh[OF _ _ _ refl])
  qed
qed

lemma subscribers_add_wf:
  assumes "subs_wf st" and "fd \<noteq> 0"
  shows "subs_wf (snd (subscribers_add fd st))"
  using assms
proof (cases rule: subscribers_add_cases)
  case (fresh i st')
  have "\<forall>t \<in> set (su_slots st). sb_fd t \<noteq> fd" using fresh(1) by (simp add: queue_of_def find_fd_None)
  then have "fds_distinct ((su_slots st)[i := new_subscriber fd])"
    using fresh assms(1) by (intro fds_distinct_insert) (simp_all add: subs_wf_def fds_distinct_def)
  moreover have "set ((su_slots st)[i := new_subscriber fd]) \<subseteq> insert (new_subscriber fd) (set (su_slots st))"
    by (rule set_update_subset_insert)
  ultimately show ?thesis
    using fresh assms(1) by (auto simp: subs_wf_def fds_distinct_def)
qed (use assms in simp_all)

lemma subscribers_add_queue:
  assumes "subs_wf st" and "fd \<noteq> 0" and "g \<noteq> 0" and "subscribers_add fd st = (0, st')"
  shows "queue_of g st' =
    (if g = fd \<and> queue_of fd st = None then Some [] else queue_of g st)"
  using assms(1,2)
proof (cases rule: subscribers_add_cases)
  case (fresh i st'')
  have "\<forall>t \<in> set (su_slots st). sb_fd t \<noteq> fd" using fresh(1) by (simp add: queue_of_def find_fd_None)
  then have "find (\<lambda>t. sb_fd t = g) ((su_slots st)[i := new_subscriber fd]) =
      (if g = fd then Some (new_subscriber fd) else find (\<lambda>t. sb_fd t = g) (su_slots st))"
    using fresh assms(1-3) find_fd_insert[of i "su_slots st" "new_subscriber fd" g] by (simp add: subs_wf_def)
  then show ?thesis using fresh assms(4) by (auto simp: queue_of_def)
qed (use assms(4) in auto)

lemma subscribers_remove_wf: "subs_wf st \<Longrightarrow> subs_wf (subscribers_remove fd st)"
  using fds_distinct_map[of "su_slots st" "\<lambda>s. if sb_fd s = fd then s\<lparr>sb_fd := 0\<rparr> else s"]
  by (auto simp: subs_wf_def subscribers_remove_def fds_distinct_def)

lemma subscribers_remove_queue:
  assumes "subs_wf st" and "g \<noteq> 0"
  shows "queue_of g (subscribers_remove fd st) = (if g = fd then None else queue_of g st)"
proof -
  have "find (\<lambda>t. sb_fd t = g) (map (\<lambda>s. if sb_fd s = fd then s\<lparr>sb_fd := 0\<rparr> else s) (su_slots st)) =
    (case find (\<lambda>t. sb_fd t = g) (su_slots st) of
       None \<Rightarrow> None
     | Some s \<Rightarrow> if sb_fd (if sb_fd s = fd then s\<lparr>sb_fd := 0\<rparr> else s) = g
                then Some (if sb_fd s = fd then s\<lparr>sb_fd := 0\<rparr> else s) else None)"
    using assms by (intro find_fd_map) (auto simp: subs_wf_distinct)
  then show ?thesis
    using assms(2) by (auto simp: queue_of_def subscribers_remove_def split: option.splits dest: find_fd_SomeD)
qed

section \<open>Broadcasting\<close>

lemma alert_line_ok: "line_ok (alert_line a)"
  unfolding alert_line_def line_ok_def
  by (simp add: length_snprintf MAX_LINE_def) (simp add: snprintf_def)

lemma broadcast_slot_fd: "sb_fd (broadcast_slot l s) = sb_fd s \<or> sb_fd (broadcast_slot l s) = 0"
  by (simp add: broadcast_slot_def)

lemma broadcast_slot_wf:
  assumes "sub_ok s" and "\<forall>l \<in> set (sub_items s). line_ok l" and "line_ok line"
  shows "sub_ok (broadcast_slot line s) \<and> (\<forall>l \<in> set (sub_items (broadcast_slot line s)). line_ok l)"
proof (cases "sb_count s < QUEUE_SIZE")
  case True
  then show ?thesis
    using assms q.ok_put[OF assms(1)] q.items_put[OF assms(1)] by (auto simp: broadcast_slot_def)
next
  case False
  then have "sb_count s = QUEUE_SIZE" using assms(1) by (simp add: sub_ok_def)
  then show ?thesis using assms by (simp add: broadcast_slot_def)
qed

lemma subscribers_broadcast_wf: "subs_wf st \<Longrightarrow> subs_wf (snd (subscribers_broadcast a st))"
  using fds_distinct_map[where f = "broadcast_slot (alert_line a)", OF _ broadcast_slot_fd]
    broadcast_slot_wf[OF _ _ alert_line_ok[of a]]
  by (auto simp: subs_wf_def subscribers_broadcast_def fds_distinct_def)

text \<open>A subscriber with room gets the line at the end of its queue; one without is dropped.\<close>

lemma subscribers_broadcast_queue:
  assumes "subs_wf st" and "g \<noteq> 0"
  shows "queue_of g (snd (subscribers_broadcast a st)) =
    (case queue_of g st of
       None \<Rightarrow> None
     | Some ls \<Rightarrow> if length ls = QUEUE_SIZE then None else Some (ls @ [alert_line a]))"
proof -
  have "find (\<lambda>t. sb_fd t = g) (map (broadcast_slot (alert_line a)) (su_slots st)) =
    (case find (\<lambda>t. sb_fd t = g) (su_slots st) of
       None \<Rightarrow> None
     | Some s \<Rightarrow> if sb_fd (broadcast_slot (alert_line a) s) = g
                then Some (broadcast_slot (alert_line a) s) else None)"
    using assms by (intro find_fd_map) (auto simp: subs_wf_distinct broadcast_slot_fd)
  moreover have "sub_items (enqueue_line l s) = sub_items s @ [l]"
    if "find (\<lambda>t. sb_fd t = g) (su_slots st) = Some s" "sb_count s \<noteq> QUEUE_SIZE" for s l
  proof -
    have "sub_ok s" using assms(1) find_fd_SomeD[OF that(1)] by (simp add: subs_wf_def)
    then show ?thesis using that(2) q.items_put[of s] by (simp add: sub_ok_def)
  qed
  ultimately show ?thesis
    using assms(2)
    by (auto simp: queue_of_def subscribers_broadcast_def broadcast_slot_def split: option.splits dest: find_fd_SomeD)
qed

lemma subscribers_broadcast_shutdown:
  assumes "subs_wf st" and "g \<noteq> 0"
  shows "g \<in> set (fst (subscribers_broadcast a st)) \<longleftrightarrow>
    (\<exists>ls. queue_of g st = Some ls \<and> length ls = QUEUE_SIZE)"
proof
  assume "g \<in> set (fst (subscribers_broadcast a st))"
  then obtain s where "s \<in> set (su_slots st)" "sb_fd s = g" "sb_count s = QUEUE_SIZE"
    by (auto simp: subscribers_broadcast_def overflowing_def)
  then show "\<exists>ls. queue_of g st = Some ls \<and> length ls = QUEUE_SIZE"
    using fds_distinct_find[OF subs_wf_distinct[OF assms(1)], of s] assms(2) by (simp add: queue_of_def)
next
  assume "\<exists>ls. queue_of g st = Some ls \<and> length ls = QUEUE_SIZE"
  then show "g \<in> set (fst (subscribers_broadcast a st))"
    using assms(2) by (auto simp: subscribers_broadcast_def overflowing_def queue_of_def dest: find_fd_SomeD)
qed

section \<open>Draining while the other threads work\<close>

lemma sub_at:
  assumes "subs_wf st" and "i < length (su_slots st)"
  shows "sub_ok (su_slots st ! i)" and "\<forall>l \<in> set (sub_items (su_slots st ! i)). line_ok l"
  using assms by (auto simp: subs_wf_def)

lemma drain_pop_none:
  assumes "subs_wf st" and "fd \<noteq> 0" and "queue_of fd st = None \<or> queue_of fd st = Some []"
  shows "drain_pop fd st = ([], st)"
proof -
  have "\<not> (sb_fd s = fd \<and> sb_count s \<noteq> 0)" if "s \<in> set (su_slots st)" for s
    using assms fds_distinct_find[OF subs_wf_distinct[OF assms(1)] that]
    by (auto simp: queue_of_def sub_items_empty)
  then have "find_index (\<lambda>s. sb_fd s = fd \<and> sb_count s \<noteq> 0) (su_slots st) = None"
    by (auto simp: find_index_None)
  then show ?thesis by (simp add: drain_pop_def)
qed

lemma drain_pop_some:
  assumes wf: "subs_wf st" and fd: "fd \<noteq> 0" and q: "queue_of fd st = Some (l # ls)"
  obtains st' where "drain_pop fd st = (l, st')" "subs_wf st'" "line_ok l" "su_dropped st' = su_dropped st"
    "queue_of fd st' = Some ls" "\<And>g. g \<noteq> 0 \<Longrightarrow> g \<noteq> fd \<Longrightarrow> queue_of g st' = queue_of g st"
proof -
  obtain s where s: "s \<in> set (su_slots st)" "sb_fd s = fd" "sub_items s = l # ls"
    using q by (auto simp: queue_of_def dest: find_fd_SomeD)
  have "sb_count s \<noteq> 0" using s(3) by (auto simp flip: sub_items_empty)
  then obtain i where i: "find_index (\<lambda>s. sb_fd s = fd \<and> sb_count s \<noteq> 0) (su_slots st) = Some i"
    using s by (cases "find_index (\<lambda>s. sb_fd s = fd \<and> sb_count s \<noteq> 0) (su_slots st)")
      (auto simp: find_index_None)
  let ?t = "su_slots st ! i"
  have il: "i < length (su_slots st)" and t: "sb_fd ?t = fd" using find_index_SomeD[OF i] by simp_all
  have "find (\<lambda>t. sb_fd t = fd) (su_slots st) = Some ?t"
    using fds_distinct_find[OF subs_wf_distinct[OF wf], of ?t] il t fd by simp
  then have items: "sub_items ?t = l # ls" using q by (simp add: queue_of_def)
  have ok: "sub_ok ?t" and lines: "\<forall>l \<in> set (sub_items ?t). line_ok l" using sub_at[OF wf il] by auto
  have hd: "front_line ?t = l" and tl: "sub_items (dequeue_line ?t) = ls" and ok': "sub_ok (dequeue_line ?t)"
    using q.front_items[OF ok] q.items_pop[OF ok] q.ok_pop[OF ok] items by simp_all
  let ?st = "st\<lparr>su_slots := (su_slots st)[i := dequeue_line ?t]\<rparr>"
  have fds: "map sb_fd ((su_slots st)[i := dequeue_line ?t]) = map sb_fd (su_slots st)"
    by (rule map_fd_update) simp
  have "set ((su_slots st)[i := dequeue_line ?t]) \<subseteq> insert (dequeue_line ?t) (set (su_slots st))"
    by (rule set_update_subset_insert)
  then have "subs_wf ?st" using wf ok' lines tl items unfolding subs_wf_def by (auto simp: fds)
  moreover have "queue_of g ?st = (if g = fd then Some ls else queue_of g st)" if "g \<noteq> 0" for g
    using find_fd_update[OF subs_wf_distinct[OF wf] il _ _ that, of "dequeue_line ?t"] fd t tl
    by (simp add: queue_of_def)
  moreover have "line_ok l" using lines items by simp
  moreover have "drain_pop fd st = (l, ?st)" using i hd by (simp add: drain_pop_def)
  ultimately show thesis using fd by (intro that[of ?st]) simp_all
qed

text \<open>What the other threads call between two locked sections of a drain.\<close>

datatype table_call = Broadcast Alert | Add int | Remove int

fun table_step :: "table_call \<Rightarrow> subscribers_state \<Rightarrow> subscribers_state" where
  "table_step (Broadcast a) st = snd (subscribers_broadcast a st)"
| "table_step (Add fd) st = snd (subscribers_add fd st)"
| "table_step (Remove fd) st = subscribers_remove fd st"

text \<open>Calls on sockets other than \<open>fd\<close>: the connection's own thread is the only one that names it.\<close>

fun other_call :: "int \<Rightarrow> table_call \<Rightarrow> bool" where
  "other_call fd (Broadcast a) = True"
| "other_call fd (Add g) = (g \<noteq> 0 \<and> g \<noteq> fd)"
| "other_call fd (Remove g) = (g \<noteq> 0 \<and> g \<noteq> fd)"

fun alerts_in :: "table_call list \<Rightarrow> Alert list" where
  "alerts_in [] = []"
| "alerts_in (Broadcast a # cs) = a # alerts_in cs"
| "alerts_in (Add g # cs) = alerts_in cs"
| "alerts_in (Remove g # cs) = alerts_in cs"

lemma alerts_in_append: "alerts_in (cs @ ds) = alerts_in cs @ alerts_in ds"
  by (induction cs rule: alerts_in.induct) auto

lemma table_step_wf: "subs_wf st \<Longrightarrow> other_call fd c \<Longrightarrow> subs_wf (table_step c st)"
  by (cases c) (auto intro: subscribers_broadcast_wf subscribers_add_wf subscribers_remove_wf)

lemma table_step_queue:
  assumes "subs_wf st" and "fd \<noteq> 0" and "other_call fd c"
  shows "queue_of fd (table_step c st) =
    (case (c, queue_of fd st) of
       (Broadcast a, Some q) \<Rightarrow> if length q = QUEUE_SIZE then None else Some (q @ [alert_line a])
     | _ \<Rightarrow> queue_of fd st)"
proof (cases c)
  case (Broadcast a)
  then show ?thesis
    using subscribers_broadcast_queue[OF assms(1,2)] by (simp split: option.splits)
next
  case (Add g)
  then have g: "g \<noteq> 0" "g \<noteq> fd" using assms(3) by simp_all
  have "queue_of fd (snd (subscribers_add g st)) = queue_of fd st"
    using subscribers_add_queue[OF assms(1) g(1) assms(2)] g(2)
    by (cases rule: subscribers_add_cases[OF assms(1) g(1)]) auto
  then show ?thesis using Add by simp
next
  case (Remove g)
  then show ?thesis using subscribers_remove_queue[OF assms(1,2)] assms(3) by auto
qed

lemma run_calls_wf:
  "subs_wf st \<Longrightarrow> \<forall>c \<in> set cs. other_call fd c \<Longrightarrow> subs_wf (fold table_step cs st)"
  by (induction cs arbitrary: st) (auto intro: table_step_wf)

lemma run_calls_gone:
  "subs_wf st \<Longrightarrow> fd \<noteq> 0 \<Longrightarrow> \<forall>c \<in> set cs. other_call fd c \<Longrightarrow> queue_of fd st = None \<Longrightarrow>
   queue_of fd (fold table_step cs st) = None"
  by (induction cs arbitrary: st) (auto simp: table_step_queue table_step_wf split: table_call.splits)

text \<open>
  The queue \<open>r\<close> of a subscriber that was to hold the lines \<open>due\<close>: all of them, or none because it
  was dropped when a full queue was waiting and one more line came.
\<close>

definition kept_or_dropped :: "string list \<Rightarrow> string list option \<Rightarrow> bool" where
  "kept_or_dropped due r =
     (case r of
        Some ls \<Rightarrow> ls = due
      | None \<Rightarrow> \<exists>lost more. due = lost @ more \<and> length lost = QUEUE_SIZE \<and> more \<noteq> [])"

lemma kept_or_dropped_simps [simp]:
  "kept_or_dropped due (Some ls) \<longleftrightarrow> ls = due"
  "kept_or_dropped due None \<longleftrightarrow> (\<exists>lost more. due = lost @ more \<and> length lost = QUEUE_SIZE \<and> more \<noteq> [])"
  by (simp_all add: kept_or_dropped_def)

lemma kept_or_dropped_more: "kept_or_dropped due None \<Longrightarrow> kept_or_dropped (due @ ls) None"
proof -
  assume "kept_or_dropped due None"
  then obtain lost more where "due = lost @ more" "length lost = QUEUE_SIZE" "more \<noteq> []" by auto
  then show ?thesis by (simp, intro exI[of _ lost] exI[of _ "more @ ls"]) simp
qed

lemma run_calls_queue:
  "subs_wf st \<Longrightarrow> fd \<noteq> 0 \<Longrightarrow> \<forall>c \<in> set cs. other_call fd c \<Longrightarrow> queue_of fd st = Some q \<Longrightarrow>
   kept_or_dropped (q @ map alert_line (alerts_in cs)) (queue_of fd (fold table_step cs st))"
proof (induction cs arbitrary: st q)
  case Nil
  then show ?case by simp
next
  case (Cons c cs)
  let ?st = "table_step c st"
  have wf: "subs_wf ?st" using Cons.prems by (auto intro: table_step_wf)
  have parts: "alerts_in (c # cs) = alerts_in [c] @ alerts_in cs" using alerts_in_append[of "[c]" cs] by simp
  show ?case
  proof (cases "queue_of fd ?st")
    case None
    then have "kept_or_dropped (q @ map alert_line (alerts_in [c])) None"
      using table_step_queue[OF Cons.prems(1,2), of c] Cons.prems(3,4)
      by (cases c) (auto split: if_splits)
    moreover have "queue_of fd (fold table_step (c # cs) st) = None"
      using run_calls_gone[OF wf Cons.prems(2) _ None] Cons.prems(3) by simp
    ultimately show ?thesis
      using kept_or_dropped_more[of _ "map alert_line (alerts_in cs)"]
      unfolding parts map_append append_assoc[symmetric] by (simp only:)
  next
    case (Some r)
    then have "r = q @ map alert_line (alerts_in [c])"
      using table_step_queue[OF Cons.prems(1,2), of c] Cons.prems(3,4)
      by (cases c) (auto split: if_splits)
    then show ?thesis
      using Cons.IH[OF wf Cons.prems(2) _ Some] Cons.prems(3) by (simp add: parts del: kept_or_dropped_simps)
  qed
qed

text \<open>
  The lines a drain takes from the queue: all given to \<open>send_text_line\<close> in turn, of which only the
  last can fail.
\<close>

definition sends_until_failure :: "(nat \<Rightarrow> string \<Rightarrow> bool) \<Rightarrow> nat \<Rightarrow> int \<Rightarrow> string list \<Rightarrow> bool" where
  "sends_until_failure send k rc taken =
     (rc = (if \<forall>j < length taken. send (k + j) (taken ! j) then 0 else - 1) \<and>
      (\<forall>j. Suc j < length taken \<longrightarrow> send (k + j) (taken ! j)))"

lemma sends_until_failure_Nil [simp]: "sends_until_failure send k rc [] \<longleftrightarrow> rc = 0"
  by (simp add: sends_until_failure_def)

lemma sends_until_failure_last: "\<not> send k l \<Longrightarrow> sends_until_failure send k (- 1) [l]"
  by (simp add: sends_until_failure_def)

lemma sends_until_failure_Cons:
  assumes "send k l" and "sends_until_failure send (Suc k) rc ls"
  shows "sends_until_failure send k rc (l # ls)"
proof -
  have "(\<forall>j < length (l # ls). send (k + j) ((l # ls) ! j)) \<longleftrightarrow> (\<forall>j < length ls. send (Suc k + j) (ls ! j))"
    using assms(1) by (auto simp: nth_Cons split: nat.splits)
  moreover have "send (k + j) ((l # ls) ! j)" if "Suc j < length (l # ls)" for j
    using assms that by (cases j) (simp_all add: sends_until_failure_def)
  ultimately show ?thesis using assms(2) unfolding sends_until_failure_def by simp
qed

text \<open>
  A drain of \<open>n\<close> turns from turn \<open>k\<close> enters the locked section once for every line it takes and
  once more when it finds none. The lines due by then are those queued and those of the alerts
  raised; the lines taken come first, and what is left is queued, or lost with the connection.
\<close>

definition sections_entered :: "nat \<Rightarrow> int \<Rightarrow> string list \<Rightarrow> nat" where
  "sections_entered n rc taken = (if rc = 0 \<and> length taken < n then Suc (length taken) else length taken)"

definition lines_due :: "(nat \<Rightarrow> table_call list) \<Rightarrow> nat \<Rightarrow> nat \<Rightarrow> string list \<Rightarrow> string list" where
  "lines_due calls k m q = q @ map alert_line (alerts_in (concat (map calls [k ..< k + m])))"

lemma lines_due_simps [simp]:
  "lines_due calls k 0 q = q"
  "lines_due calls k (Suc m) q = lines_due calls (Suc k) m (q @ map alert_line (alerts_in (calls k)))"
  by (simp_all add: lines_due_def upt_conv_Cons alerts_in_append del: upt_Suc)

lemma lines_due_Cons: "lines_due calls k m (l # ls) = l # lines_due calls k m ls"
  by (simp add: lines_due_def)

lemma drain_from_queue:
  fixes calls :: "nat \<Rightarrow> table_call list"
  defines "env \<equiv> \<lambda>k. fold table_step (calls k)"
  assumes fd: "fd \<noteq> 0" and others: "\<forall>k. \<forall>c \<in> set (calls k). other_call fd c"
  shows "subs_wf st \<Longrightarrow> drain_from env send fd n k st = (rc, taken, st') \<Longrightarrow>
    subs_wf st' \<and> length taken \<le> n \<and> (\<forall>l \<in> set taken. line_ok l) \<and> sends_until_failure send k rc taken \<and>
    (case queue_of fd st of
       None \<Rightarrow> taken = [] \<and> queue_of fd st' = None
     | Some q \<Rightarrow>
         \<exists>left. lines_due calls k (sections_entered n rc taken) q = taken @ left \<and>
           kept_or_dropped left (queue_of fd st') \<and> (queue_of fd st' = None \<longrightarrow> rc = 0) \<and>
           (queue_of fd st' \<noteq> None \<and> rc = 0 \<and> length taken < n \<longrightarrow> left = []))"
proof (induction n arbitrary: k st rc taken)
  case 0
  then show ?case by (auto simp: sections_entered_def split: option.splits)
next
  case (Suc n)
  let ?st = "env k st"
  have oth: "\<forall>c \<in> set (calls k). other_call fd c" using others by simp
  have wf: "subs_wf ?st" unfolding env_def by (rule run_calls_wf[OF Suc.prems(1) oth])
  have gone: "queue_of fd ?st = None" if "queue_of fd st = None"
    unfolding env_def by (rule run_calls_gone[OF Suc.prems(1) fd oth that])
  have more: "kept_or_dropped (q @ map alert_line (alerts_in (calls k))) (queue_of fd ?st)"
    if "queue_of fd st = Some q" for q
    unfolding env_def by (rule run_calls_queue[OF Suc.prems(1) fd oth that])
  show ?case
  proof (cases "\<exists>l ls. queue_of fd ?st = Some (l # ls)")
    case False
    then have none: "queue_of fd ?st = None \<or> queue_of fd ?st = Some []"
      by (metis list.exhaust option.exhaust)
    then have out: "taken = []" "st' = ?st" "rc = 0"
      using Suc.prems(2) drain_pop_none[OF wf fd] by auto
    then show ?thesis
      using wf gone more none by (cases "queue_of fd st") (auto simp: sections_entered_def)
  next
    case True
    then obtain l ls where q: "queue_of fd ?st = Some (l # ls)" by blast
    obtain st1 where st1: "drain_pop fd ?st = (l, st1)" "subs_wf st1" "line_ok l" "queue_of fd st1 = Some ls"
      using drain_pop_some[OF wf fd q] by metis
    have l: "l \<noteq> []" using st1(3) by (simp add: line_ok_def)
    obtain q' where q': "queue_of fd st = Some q'" using gone q by fastforce
    have due: "lines_due calls k (Suc m) q' = l # lines_due calls (Suc k) m ls" for m
      using more[OF q'] q by (simp flip: lines_due_Cons)
    show ?thesis
    proof (cases "send k l")
      case False
      then have out: "taken = [l]" "st' = st1" "rc = - 1" using Suc.prems(2) st1(1) l by auto
      then have "sections_entered (Suc n) rc taken = Suc 0" by (simp add: sections_entered_def)
      then show ?thesis
        using out q' st1(2,3,4) sends_until_failure_last[of send k l] False due[of 0] by simp
    next
      case True
      then obtain taken' where rest: "drain_from env send fd n (Suc k) st1 = (rc, taken', st')" "taken = l # taken'"
        using Suc.prems(2) st1(1) l by (auto split: prod.splits)
      note ih = Suc.IH[OF st1(2) rest(1), unfolded st1(4) option.case]
      have "sections_entered (Suc n) rc taken = Suc (sections_entered n rc taken')"
        using rest(2) by (simp add: sections_entered_def)
      then show ?thesis
        using ih sends_until_failure_Cons[of send k l rc taken'] True st1(3) rest(2) q' due
        by (simp del: lines_due_simps)
    qed
  qed
qed

lemma drain_result:
  assumes "subs_wf st" and "fd \<noteq> 0" and "\<forall>k. \<forall>c \<in> set (calls k). other_call fd c"
    and "subscribers_drain (\<lambda>k. fold table_step (calls k)) send fd st = (rc, taken, st')"
  shows "subs_wf st'" and "rc < 0 \<longleftrightarrow> (\<exists>j < length taken. \<not> send j (taken ! j))"
  using drain_from_queue[OF assms(2,3,1) assms(4)[unfolded subscribers_drain_def]]
  by (auto simp: sends_until_failure_def)

text \<open>Alone and with every send accepted, the drain sends the whole queue.\<close>

lemma drain_from_alone:
  "subs_wf st \<Longrightarrow> fd \<noteq> 0 \<Longrightarrow> queue_of fd st = Some q \<Longrightarrow> length q \<le> n \<Longrightarrow>
   \<exists>st'. drain_from (\<lambda>_ st. st) (\<lambda>_ _. True) fd n k st = (0, q, st') \<and> subs_wf st' \<and>
     queue_of fd st' = Some [] \<and> (\<forall>g. g \<noteq> 0 \<longrightarrow> g \<noteq> fd \<longrightarrow> queue_of g st' = queue_of g st)"
proof (induction n arbitrary: q k st)
  case 0
  then show ?case by simp
next
  case (Suc n)
  show ?case
  proof (cases q)
    case Nil
    then show ?thesis using Suc.prems drain_pop_none[of st fd] by simp
  next
    case (Cons l ls)
    obtain st1 where st1: "drain_pop fd st = (l, st1)" "subs_wf st1" "line_ok l" "queue_of fd st1 = Some ls"
      "\<And>g. g \<noteq> 0 \<Longrightarrow> g \<noteq> fd \<Longrightarrow> queue_of g st1 = queue_of g st"
      using drain_pop_some[OF Suc.prems(1,2)] Suc.prems(3) Cons by metis
    obtain st' where "drain_from (\<lambda>_ st. st) (\<lambda>_ _. True) fd n (Suc k) st1 = (0, ls, st')" "subs_wf st'"
      "queue_of fd st' = Some []" "\<And>g. g \<noteq> 0 \<Longrightarrow> g \<noteq> fd \<Longrightarrow> queue_of g st' = queue_of g st1"
      using Suc.IH[OF st1(2) Suc.prems(2) st1(4)] Suc.prems(4) Cons by auto
    then show ?thesis using st1 Cons by (auto simp: line_ok_def)
  qed
qed

section \<open>Properties\<close>

text \<open>The sockets that have a queue.\<close>

definition subscribed :: "subscribers_state \<Rightarrow> int set" where
  "subscribed st = set (filter (\<lambda>fd. fd \<noteq> 0) (map sb_fd (su_slots st)))"

lemma subscribed_queue: "g \<noteq> 0 \<Longrightarrow> g \<in> subscribed st \<longleftrightarrow> queue_of g st \<noteq> None"
  by (auto simp: subscribed_def queue_of_def find_fd_None)

lemma card_subscribed:
  assumes "subs_wf st"
  shows "card (subscribed st) = SUBSCRIBERS \<longleftrightarrow> (\<forall>s \<in> set (su_slots st). sb_fd s \<noteq> 0)"
proof -
  have d: "distinct (filter (\<lambda>fd. fd \<noteq> 0) (map sb_fd (su_slots st)))" and l: "length (su_slots st) = SUBSCRIBERS"
    using assms by (simp_all add: subs_wf_def)
  have "card (subscribed st) = length (filter (\<lambda>fd. fd \<noteq> 0) (map sb_fd (su_slots st)))"
    unfolding subscribed_def by (rule distinct_card[OF d])
  also have "\<dots> = SUBSCRIBERS \<longleftrightarrow> filter (\<lambda>fd. fd \<noteq> 0) (map sb_fd (su_slots st)) = map sb_fd (su_slots st)"
    using l length_filter_less[of _ "map sb_fd (su_slots st)" "\<lambda>fd. fd \<noteq> 0"] filter_id_conv[of "\<lambda>fd. fd \<noteq> 0" "map sb_fd (su_slots st)"]
    by (metis length_map less_irrefl_nat)
  also have "\<dots> \<longleftrightarrow> (\<forall>s \<in> set (su_slots st). sb_fd s \<noteq> 0)" by (simp add: filter_id_conv)
  finally show ?thesis .
qed

text \<open>A table with one subscriber, for the witnesses.\<close>

definition one_subscriber :: subscribers_state where
  "one_subscriber = snd (subscribers_add 7 subscribers_init)"

lemma no_queue_init: "g \<noteq> 0 \<Longrightarrow> queue_of g subscribers_init = None"
  by (auto simp: queue_of_def subscribers_init_def find_fd_None)

lemma one_subscriber_run: "subscribers_add 7 subscribers_init = (0, one_subscriber)"
  by (rule subscribers_add_cases[OF subscribers_init_wf, of 7])
    (auto simp: one_subscriber_def subscribers_init_def no_queue_init[unfolded subscribers_init_def] SUBSCRIBERS_def)

lemma one_subscriber_ok: "subs_wf one_subscriber" "queue_of 7 one_subscriber = Some []"
  using subscribers_add_wf[OF subscribers_init_wf, of 7]
    subscribers_add_queue[OF subscribers_init_wf _ _ one_subscriber_run, of 7] no_queue_init[of 7]
  by (simp_all add: one_subscriber_def)

text \<open>C22: \<open>SUBSCRIBE\<close> fails exactly when 32 other connections are subscribed, and then changes
  nothing; otherwise the connection is subscribed, with the queue it had or an empty one, and no
  other queue changes. The table stays well formed.\<close>

theorem subscribe_outcome:
  assumes "subs_wf st" and "fd \<noteq> 0" and "g \<noteq> 0" and "subscribers_add fd st = (rc, st')"
  shows "subs_wf st' \<and>
    rc = (if queue_of fd st = None \<and> card (subscribed st) = SUBSCRIBERS then - 1 else 0) \<and>
    (if rc = 0
     then queue_of g st' = (if g = fd \<and> queue_of fd st = None then Some [] else queue_of g st)
     else st' = st)"
proof (intro conjI)
  have free: "\<not> (\<forall>s \<in> set (su_slots st). sb_fd s \<noteq> 0)"
    if "i < SUBSCRIBERS" "sb_fd (su_slots st ! i) = 0" for i
    using assms(1) that by (auto simp: subs_wf_def intro!: bexI[of _ "su_slots st ! i"])
  note full = card_subscribed[OF assms(1)]
  show "subs_wf st'" using subscribers_add_wf[OF assms(1,2)] assms(4) by simp
  show "rc = (if queue_of fd st = None \<and> card (subscribed st) = SUBSCRIBERS then - 1 else 0)"
    using assms(1,2)
  proof (cases rule: subscribers_add_cases)
    case (fresh i st'')
    then show ?thesis using assms(4) free[of i] full by simp
  qed (use assms(4) full in auto)
  show "if rc = 0
     then queue_of g st' = (if g = fd \<and> queue_of fd st = None then Some [] else queue_of g st)
     else st' = st"
    using subscribers_add_queue[OF assms(1-3)] assms(4)
    by (cases rule: subscribers_add_cases[OF assms(1,2)]) auto
qed

lemma subscribe_outcome_witness:
  "subs_wf one_subscriber \<and> queue_of 7 one_subscriber = Some []"
  using subscribe_outcome[OF subscribers_init_wf _ _ one_subscriber_run, of 7] no_queue_init[of 7] by simp

text \<open>C21: a broadcast appends the line of the alert to the queue of every subscriber that has room,
  shuts down and forgets exactly those whose queue holds 32 lines, and touches nothing else; a
  slow subscriber never affects another one. The line is one well-formed frame.\<close>

theorem broadcast_reaches_subscribers:
  assumes "subs_wf st" and "g \<noteq> 0" and "subscribers_broadcast a st = (shut, st')"
  shows "subs_wf st' \<and> line_ok (alert_line a) \<and>
    queue_of g st' =
      (case queue_of g st of
         None \<Rightarrow> None
       | Some ls \<Rightarrow> if length ls = QUEUE_SIZE then None else Some (ls @ [alert_line a])) \<and>
    (g \<in> set shut \<longleftrightarrow> (\<exists>ls. queue_of g st = Some ls \<and> length ls = QUEUE_SIZE)) \<and>
    su_dropped st' = su_dropped st + int (length shut)"
  using subscribers_broadcast_wf[OF assms(1), of a] subscribers_broadcast_queue[OF assms(1,2), of a]
    subscribers_broadcast_shutdown[OF assms(1,2), of a] assms(3) alert_line_ok[of a]
  by (auto simp: subscribers_broadcast_def)

lemma broadcast_reaches_subscribers_witness:
  "queue_of 7 (snd (subscribers_broadcast zero_alert one_subscriber)) = Some [''ALERT|||0.00'']"
proof -
  have "alert_line zero_alert = ''ALERT|||0.00''" by code_simp
  then show ?thesis
    using broadcast_reaches_subscribers[OF one_subscriber_ok(1), of 7 zero_alert] one_subscriber_ok(2)
    by (cases "subscribers_broadcast zero_alert one_subscriber") (simp add: QUEUE_SIZE_def)
qed

text \<open>C13: whatever the other threads do between the locked sections of a drain (alerts, other
  connections subscribing or leaving), the lines the drain takes are, in order, the first of those
  queued at the start and those of the alerts raised meanwhile, at most 32. Each is given to
  \<open>send_text_line\<close>; only the last of them can fail, exactly when the drain reports -1. The lines
  not taken are still queued, in order, and there is none unless 32 were taken or one failed; they
  are lost only with the connection, which is dropped only when 32 lines wait and one more comes.\<close>

theorem drain_keeps_order:
  assumes "subs_wf st" and "fd \<noteq> 0" and "\<forall>k. \<forall>c \<in> set (calls k). other_call fd c"
    and "subscribers_drain (\<lambda>k. fold table_step (calls k)) send fd st = (rc, taken, st')"
  shows "subs_wf st' \<and> length taken \<le> QUEUE_SIZE \<and> (\<forall>l \<in> set taken. line_ok l) \<and>
    rc = (if \<forall>j < length taken. send j (taken ! j) then 0 else - 1) \<and>
    (\<forall>j. Suc j < length taken \<longrightarrow> send j (taken ! j)) \<and>
    (let sections = (if rc = 0 \<and> length taken < QUEUE_SIZE then Suc (length taken) else length taken)
     in case queue_of fd st of
          None \<Rightarrow> taken = [] \<and> queue_of fd st' = None
        | Some q \<Rightarrow>
            \<exists>left. q @ map alert_line (alerts_in (concat (map calls [0 ..< sections]))) = taken @ left \<and>
              (case queue_of fd st' of
                 Some r \<Rightarrow> r = left \<and> (rc = 0 \<and> length taken < QUEUE_SIZE \<longrightarrow> r = [])
               | None \<Rightarrow> rc = 0 \<and> (\<exists>lost more. left = lost @ more \<and> length lost = QUEUE_SIZE \<and> more \<noteq> [])))"
proof -
  note d = drain_from_queue[OF assms(2,3,1) assms(4)[unfolded subscribers_drain_def],
      unfolded sends_until_failure_def sections_entered_def lines_due_def kept_or_dropped_def add_0]
  show ?thesis
    unfolding Let_def
    by (insert d, cases "queue_of fd st"; cases "queue_of fd st'"; simp only: option.case option.simps simp_thms; blast)
qed

lemma drain_keeps_order_witness:
  "\<exists>rc st'. subscribers_drain (\<lambda>k. fold table_step (if k = 0 then [Broadcast zero_alert, Add 9] else []))
       (\<lambda>_ _. False) 7 one_subscriber = (rc, [alert_line zero_alert], st') \<and> rc = - 1 \<and> queue_of 7 st' = Some []"
proof -
  let ?calls = "\<lambda>k::nat. if k = 0 then [Broadcast zero_alert, Add 9] else []"
  obtain rc taken st' where run: "subscribers_drain (\<lambda>k. fold table_step (?calls k)) (\<lambda>_ _. False) 7 one_subscriber =
      (rc, taken, st')"
    using prod_cases3 by blast
  have other: "\<forall>k. \<forall>c \<in> set (?calls k). other_call 7 c" by simp
  have dropped: "\<not> (\<exists>lost more. left = lost @ more \<and> length lost = QUEUE_SIZE \<and> more \<noteq> [])"
    if "length left \<le> 1" for left :: "string list"
    using that by (auto simp: QUEUE_SIZE_def)
  note order = drain_keeps_order[OF one_subscriber_ok(1) _ other run, unfolded one_subscriber_ok(2) option.case Let_def]
  have "taken = [alert_line zero_alert] \<and> rc = - 1 \<and> queue_of 7 st' = Some []"
  proof (cases taken)
    case Nil
    then have "rc = 0" using order by simp
    then show ?thesis
      using order dropped[of "[alert_line zero_alert]"] Nil by (auto simp: QUEUE_SIZE_def split: option.splits)
  next
    case (Cons a ls)
    moreover have ls: "ls = []" using order Cons by (cases ls) auto
    moreover have rc: "rc = - 1" using order Cons ls by auto
    ultimately show ?thesis using order by (auto split: option.splits)
  qed
  then show ?thesis using run by blast
qed

text \<open>C23: when no other thread intervenes and every send is accepted, one drain sends the whole
  queue, in order, leaves it empty, returns 0 and changes no other queue.\<close>

theorem drain_sends_all:
  assumes "subs_wf st" and "fd \<noteq> 0" and "queue_of fd st = Some q"
  shows "\<exists>st'. subscribers_drain (\<lambda>_ st. st) (\<lambda>_ _. True) fd st = (0, q, st') \<and> subs_wf st' \<and>
     queue_of fd st' = Some [] \<and> (\<forall>g. g \<noteq> 0 \<longrightarrow> g \<noteq> fd \<longrightarrow> queue_of g st' = queue_of g st)"
proof -
  obtain s where "find (\<lambda>s. sb_fd s = fd) (su_slots st) = Some s" "q = sub_items s"
    using assms(3) by (auto simp: queue_of_def)
  then have "length q \<le> QUEUE_SIZE"
    using assms(1) find_fd_SomeD[of fd "su_slots st" s] by (auto simp: subs_wf_def sub_ok_def)
  then show ?thesis
    using drain_from_alone[OF assms] by (simp add: subscribers_drain_def)
qed

lemma drain_sends_all_witness:
  "fst (subscribers_drain (\<lambda>_ st. st) (\<lambda>_ _. True) 7
      (snd (subscribers_broadcast zero_alert one_subscriber))) = 0"
proof -
  have "\<exists>q. queue_of 7 (snd (subscribers_broadcast zero_alert one_subscriber)) = Some q"
    using subscribers_broadcast_queue[OF one_subscriber_ok(1), of 7 zero_alert] one_subscriber_ok(2)
    by (simp add: QUEUE_SIZE_def)
  then obtain q where "queue_of 7 (snd (subscribers_broadcast zero_alert one_subscriber)) = Some q" by blast
  then show ?thesis
    using drain_sends_all[OF subscribers_broadcast_wf[OF one_subscriber_ok(1)], of 7 zero_alert q] by auto
qed

end
