(* ===== verification/Tcp_Server.thy ===== *)
theory Tcp_Server
  imports Formatting Subscribers Sockets
begin

text \<open>
  The command server of \<^verbatim>\<open>server/tcp_command_server.c\<close>. A reply is the list of the texts given
  to \<open>send_text_line\<close>, in order (\<open>Sockets\<close> says what each becomes on the wire). A command changes
  the registry or the subscribers in one locked section, and reads them in one snapshot; the clock
  and the other values it reads are in \<open>command_reads\<close>. \<open>client_turn\<close> is the loop of a
  connection from the received line on, \<open>serve_client_round\<close> a whole round, from the drain and the
  bytes of the socket.
\<close>

section \<open>Replies\<close>

definition reply_error :: "int \<Rightarrow> string list" where
  "reply_error error_code = [build_error_response 64 error_code]"

definition reply_status :: "RegistrySnapshot \<Rightarrow> status_reads \<Rightarrow> string list" where
  "reply_status snapshot e =
     [snprintf (MAX_LINE * 2) (''OK|'' @ format_system_status snapshot e MAX_LINE)]"

definition seconds_ago :: "TelemetryNode \<Rightarrow> int \<Rightarrow> int" where
  "seconds_ago node now = (if tn_last_seen node \<noteq> 0 then now - tn_last_seen node else - 1)"

definition node_line :: "int \<Rightarrow> TelemetryNode \<Rightarrow> string" where
  "node_line now node =
     snprintf MAX_LINE (tn_node_id node @ ''|'' @ (if node_is_active node now then ''ACTIVE'' else ''INACTIVE'')
       @ ''|'' @ show_int (seconds_ago node now))"

definition reply_node_list :: "RegistrySnapshot \<Rightarrow> int \<Rightarrow> string list" where
  "reply_node_list snapshot now =
     snprintf MAX_LINE (''OK|'' @ show_int (count_registered_nodes snapshot)) #
       map (node_line now) (filter tn_in_use (rg_nodes snapshot)) @ [''END'']"

definition reply_last_measurement :: "RegistrySnapshot \<Rightarrow> string \<Rightarrow> string list" where
  "reply_last_measurement snapshot node_id =
     (case snapshot_find_node snapshot node_id of
        None \<Rightarrow> reply_error ERR_UNKNOWN_NODE
      | Some i \<Rightarrow>
          let node = rg_nodes snapshot ! i
          in if tn_last_seen node = 0
             then [snprintf (MAX_LINE * 2) (''OK|'' @ tn_node_id node @ ''|0|NO_DATA'')]
             else [snprintf (MAX_LINE * 2) (''OK|'' @ tn_node_id node @ ''|'' @ show_int (tn_last_seen node)
                     @ ''|'' @ format_measurements node MAX_LINE)])"

text \<open>The alert at an index of the loop; the ring index has the sign of C's remainder.\<close>

definition ring_alert :: "RegistrySnapshot \<Rightarrow> int \<Rightarrow> Alert" where
  "ring_alert snapshot index = rg_alerts snapshot ! nat (c_rem index (int MAX_ALERTS))"

definition alert_list_line :: "Alert \<Rightarrow> string" where
  "alert_list_line a =
     snprintf MAX_LINE (show_int (al_timestamp a) @ ''|'' @ al_node_id a @ ''|'' @ al_type a @ ''|''
       @ fmt_f2 (al_value a))"

definition reply_alert_list :: "RegistrySnapshot \<Rightarrow> string list" where
  "reply_alert_list snapshot =
     (let total = rg_total_alerts snapshot;
          shown = (if total < int MAX_ALERTS then total else int MAX_ALERTS)
      in snprintf MAX_LINE (''OK|'' @ show_int shown) #
           map (\<lambda>index. alert_list_line (ring_alert snapshot index)) [total - shown .. total - 1] @ [''END''])"

definition stats_line :: "TelemetryNode \<Rightarrow> string" where
  "stats_line n =
     snprintf MAX_LINE (tn_node_id n @ ''|'' @ tn_session n @ ''|'' @ take 800 (format_node_stats n MAX_LINE))"

definition reply_stats :: "RegistrySnapshot \<Rightarrow> string option \<Rightarrow> string list" where
  "reply_stats snapshot node_id =
     (if \<exists>k. node_id = Some k \<and> snapshot_find_node snapshot k = None then reply_error ERR_UNKNOWN_NODE
      else
        snprintf MAX_LINE (''OK|'' @ show_int (if node_id \<noteq> None then 1 else count_registered_nodes snapshot)) #
          map stats_line (filter (\<lambda>n. tn_in_use n \<and> (node_id = None \<or> node_id = Some (tn_node_id n))) (rg_nodes snapshot))
          @ [''END''])"

section \<open>Commands\<close>

text \<open>The variable \<open>expected\<close>: the number of arguments, or -1 for an unknown command.\<close>

definition expected_args :: "string \<Rightarrow> nat \<Rightarrow> int" where
  "expected_args command arg_count =
     (if command = ''HELLO'' then 2
      else if command = ''REPORT'' then 7
      else if command = ''GET_LAST'' then 1
      else if command = ''STATS'' then (if arg_count \<le> 1 then int arg_count else 0)
      else if command = ''BYE'' \<or> command = ''GET_STATUS'' \<or> command = ''GET_NODES'' \<or>
              command = ''GET_ALERTS'' \<or> command = ''SUBSCRIBE'' then 0
      else - 1)"

text \<open>The five numbers of a report: four counts and the finality.\<close>

definition report_values :: "string list \<Rightarrow> int option list" where
  "report_values args =
     map (\<lambda>i. parse_uint (args ! (i + 2)) (if i = 4 then 1 else int SESSION_LIMIT)) [0, 1, 2, 3, 4]"

record command_reads =
  cr_status :: status_reads
  cr_now :: int

text \<open>What the threads share that a command uses.\<close>

record shared_state =
  sh_registry :: registry_state
  sh_subscribers :: subscribers_state

text \<open>The result: whether the connection closes, the reply, and the state.\<close>

type_synonym command_result = "bool \<times> string list \<times> shared_state"

definition command_report :: "string list \<Rightarrow> shared_state \<Rightarrow> fault + command_result" where
  "command_report args st =
     (let valid = (is_valid_node_id (args ! 0) \<and> is_valid_session (args ! 1) \<and>
                   (\<forall>v \<in> set (report_values args). v \<noteq> None));
          v = map the (report_values args)
      in if \<not> valid then Inr (False, reply_error ERR_BAD_FORMAT, st)
         else
           bindF (registry_report (args ! 0) (args ! 1) (v ! 0) (v ! 1) (v ! 2) (v ! 3) (v ! 4) (sh_registry st))
             (\<lambda>(result, reg).
               Inr (False, if result \<noteq> 0 then reply_error result else [''OK|REPORTED''],
                    st\<lparr>sh_registry := reg\<rparr>)))"

definition command_subscribe :: "int \<Rightarrow> shared_state \<Rightarrow> command_result" where
  "command_subscribe fd st =
     (case subscribers_add fd (sh_subscribers st) of
        (rc, subs) \<Rightarrow>
          (False, if rc < 0 then reply_error ERR_SERVER_FULL else [''OK|SUBSCRIBED''],
           st\<lparr>sh_subscribers := subs\<rparr>))"

definition command_hello :: "string list \<Rightarrow> shared_state \<Rightarrow> fault + command_result" where
  "command_hello args st =
     (if \<not> is_valid_session (args ! 1) then Inr (False, reply_error ERR_BAD_FORMAT, st)
      else
        bindF (registry_register_node (args ! 0) (args ! 1) (sh_registry st)) (\<lambda>(result, reg).
          Inr (False, if result \<noteq> 0 then reply_error result else [''OK|REGISTERED''],
               st\<lparr>sh_registry := reg\<rparr>)))"

definition dispatch :: "int \<Rightarrow> ParsedMessage \<Rightarrow> command_reads \<Rightarrow> shared_state \<Rightarrow> fault + command_result" where
  "dispatch fd message e st =
     (let command = pm_command message; args = pm_args message; snapshot = registry_copy_snapshot (sh_registry st);
          first_arg = (if 1 \<le> length args then Some (args ! 0) else None);
          expected = expected_args command (length args)
      in if expected < 0 then Inr (False, reply_error ERR_UNKNOWN_CMD, st)
         else if int (length args) \<noteq> expected then Inr (False, reply_error ERR_BAD_FORMAT, st)
         else if command = ''STATS'' then
           (if \<exists>a. first_arg = Some a \<and> \<not> is_valid_node_id a then Inr (False, reply_error ERR_BAD_FORMAT, st)
            else Inr (False, reply_stats snapshot first_arg, st))
         else if command = ''REPORT'' then command_report args st
         else if command = ''BYE'' then Inr (True, [''OK|BYE''], st)
         else if command = ''GET_STATUS'' then Inr (False, reply_status snapshot (cr_status e), st)
         else if command = ''GET_NODES'' then Inr (False, reply_node_list snapshot (cr_now e), st)
         else if command = ''GET_ALERTS'' then Inr (False, reply_alert_list snapshot, st)
         else if command = ''SUBSCRIBE'' then Inr (command_subscribe fd st)
         else if \<not> (\<exists>a. first_arg = Some a \<and> is_valid_node_id a) then
           Inr (False, reply_error
             (if command = ''HELLO'' \<or> command = ''GET_LAST'' then ERR_BAD_FORMAT else ERR_UNKNOWN_CMD), st)
         else if command = ''HELLO'' then command_hello args st
         else if command = ''GET_LAST'' then Inr (False, reply_last_measurement snapshot (args ! 0), st)
         else Inr (False, reply_error ERR_UNKNOWN_CMD, st))"

definition handle_command :: "int \<Rightarrow> string \<Rightarrow> command_reads \<Rightarrow> shared_state \<Rightarrow> fault + command_result" where
  "handle_command fd line e st =
     (case parse_message line of
        None \<Rightarrow> Inr (False, reply_error ERR_BAD_FORMAT, st)
      | Some message \<Rightarrow> dispatch fd message e st)"

section \<open>Connections\<close>

text \<open>
  One turn of \<open>serve_client\<close> after the drain: the result of \<open>wait_readable\<close>, the result and line
  of \<open>receive_text_line\<close>, and what the command reads. The flag is whether the loop is left.
\<close>

record client_input =
  ci_ready :: int
  ci_received :: int
  ci_line :: string
  ci_reads :: command_reads

definition client_turn :: "int \<Rightarrow> client_input \<Rightarrow> shared_state \<Rightarrow> fault + command_result" where
  "client_turn fd i st =
     (if ci_ready i < 0 then Inr (True, [], st)
      else if ci_ready i = 0 then Inr (False, [], st)
      else if ci_received i = 0 \<or> ci_received i = - 1 then Inr (True, [], st)
      else if ci_received i = - 3 then Inr (False, reply_error ERR_BAD_FORMAT, st)
      else if ci_received i = - 2 then Inr (False, reply_error ERR_TOO_LONG, st)
      else handle_command fd (ci_line i) (ci_reads i) st)"

text \<open>
  A whole round of the loop of \<open>serve_client\<close>: the drain, the wait, the line read from the bytes of
  the socket and the command. The round records what happens meanwhile: the calls of the other
  threads between the locked sections of the drain, whether \<open>send_text_line\<close> accepts the
  \<open>j\<close>-th pushed line, what the other threads make of the shared state before the command runs, the
  result of \<open>wait_readable\<close>, the clock when the read starts and what the command reads. The result is
  the lines pushed, the outcome of the turn and the turns of the socket left; \<open>None\<close> while the line
  is still being read.
\<close>

record client_round =
  rd_calls :: "nat \<Rightarrow> table_call list"
  rd_send :: "nat \<Rightarrow> string \<Rightarrow> bool"
  rd_others :: "shared_state \<Rightarrow> shared_state"
  rd_ready :: int
  rd_start :: int
  rd_reads :: command_reads

definition drain_client :: "int \<Rightarrow> client_round \<Rightarrow> shared_state \<Rightarrow> int \<times> string list \<times> shared_state" where
  "drain_client fd r st =
     (case subscribers_drain (\<lambda>k. fold table_step (rd_calls r k)) (rd_send r) fd (sh_subscribers st) of
        (rc, pushed, subs) \<Rightarrow> (rc, pushed, st\<lparr>sh_subscribers := subs\<rparr>))"

definition serve_client_round ::
  "int \<Rightarrow> client_round \<Rightarrow> recv_turn list \<Rightarrow> shared_state \<Rightarrow>
     (string list \<times> (fault + command_result) \<times> recv_turn list) option" where
  "serve_client_round fd r turns st =
     (case drain_client fd r st of
        (rc, pushed, st1) \<Rightarrow>
          if rc < 0 then Some (pushed, Inr (True, [], st1), turns)
          else if rd_ready r < 0 then Some (pushed, Inr (True, [], rd_others r st1), turns)
          else if rd_ready r = 0 then Some (pushed, Inr (False, [], rd_others r st1), turns)
          else
            (case receive_text_line MAX_LINE (rd_start r) turns of
               None \<Rightarrow> None
             | Some (result, line, rest) \<Rightarrow>
                 Some (pushed,
                   client_turn fd \<lparr>ci_ready = rd_ready r, ci_received = result, ci_line = line, ci_reads = rd_reads r\<rparr>
                     (rd_others r st1), rest)))"

definition MAX_CLIENTS :: int where "MAX_CLIENTS = 64"

text \<open>What the listener does with an accepted connection: \<open>malloc\<close> and \<open>pthread_create\<close> may fail.\<close>

datatype accept_outcome = Refused | Started

definition accept_client :: "bool \<Rightarrow> bool \<Rightarrow> int \<Rightarrow> accept_outcome \<times> int" where
  "accept_client malloc_ok create_ok clients =
     (if MAX_CLIENTS \<le> clients then (Refused, clients)
      else
        let clients' = clients + 1
        in if \<not> malloc_ok then (Refused, clients' - 1)
           else if \<not> create_ok then (Refused, clients' - 1)
           else (Started, clients'))"

end
