(* ===== verification/RegistrySpec.thy ===== *)
theory RegistrySpec
  imports RegistryOps
begin

text \<open>
  What the registry promises, without slots, bitmaps or stored counters: a partial map from node
  identifiers to the view of a session, with three operations on it. The operations of
  \<open>Registry\<close> refine them (\<open>abs (f x) = g (abs x)\<close>), and the order in which a session can only
  grow is proved on the views.
\<close>

section \<open>The abstract registry\<close>

record session_view =
  sv_session :: string
  sv_received :: "nat set"
  sv_attempts :: int
  sv_sent :: int
  sv_omitted :: int
  sv_errors :: int
  sv_reported :: int
  sv_final :: int
  sv_values :: "Measurement list"
  sv_duplicates :: int
  sv_reordered :: int
  sv_last_seen :: int

definition view_of :: "TelemetryNode \<Rightarrow> nat set \<Rightarrow> session_view" where
  "view_of n S =
     \<lparr>sv_session = tn_session n, sv_received = S, sv_attempts = tn_attempts n, sv_sent = tn_sent n,
      sv_omitted = tn_omitted n, sv_errors = tn_send_errors n, sv_reported = tn_report_seen n,
      sv_final = tn_final_report n, sv_values = tn_measurements n,
      sv_duplicates = tn_duplicates n, sv_reordered = tn_reordered n, sv_last_seen = tn_last_seen n\<rparr>"

definition abs_nodes :: "registry_state \<Rightarrow> string \<Rightarrow> session_view option" where
  "abs_nodes st node_id =
     map_option (\<lambda>i. view_of (node_at st i) (seen_at st i)) (find_node (st_registry st) node_id)"

definition fresh_view :: "string \<Rightarrow> session_view" where
  "fresh_view session =
     \<lparr>sv_session = session, sv_received = {}, sv_attempts = 0, sv_sent = 0, sv_omitted = 0,
      sv_errors = 0, sv_reported = 0, sv_final = 0, sv_values = [], sv_duplicates = 0,
      sv_reordered = 0, sv_last_seen = 0\<rparr>"

definition spec_register ::
  "string \<Rightarrow> string \<Rightarrow> (string \<Rightarrow> session_view option) \<Rightarrow> int \<times> (string \<Rightarrow> session_view option)" where
  "spec_register node_id session m =
     (case m node_id of
        Some v \<Rightarrow> (if sv_session v = session then 0 else ERR_ID_IN_USE, m)
      | None \<Rightarrow>
          if card (dom m) < MAX_NODES then (0, m(node_id \<mapsto> fresh_view session))
          else (ERR_SERVER_FULL, m))"

definition spec_telemetry :: "int \<Rightarrow> nat \<Rightarrow> Measurement list \<Rightarrow> session_view \<Rightarrow> session_view" where
  "spec_telemetry now s ms v =
     (if sv_final v \<noteq> 0 \<and> sv_attempts v \<le> int s then v
      else if s \<in> sv_received v then v\<lparr>sv_duplicates := sv_duplicates v + 1\<rparr>
      else
        let v' = v\<lparr>sv_received := insert s (sv_received v), sv_last_seen := now\<rparr>
        in if \<exists>t \<in> sv_received v. s < t then v'\<lparr>sv_reordered := sv_reordered v + 1\<rparr>
           else v'\<lparr>sv_values := ms\<rparr>)"

definition report_fits :: "int \<Rightarrow> int \<Rightarrow> int \<Rightarrow> int \<Rightarrow> int \<Rightarrow> session_view \<Rightarrow> bool" where
  "report_fits attempts sent omitted errors final v =
     (attempts = sent + omitted + errors \<and>
      sv_attempts v \<le> attempts \<and> sv_sent v \<le> sent \<and> sv_omitted v \<le> omitted \<and> sv_errors v \<le> errors \<and>
      (final \<noteq> 0 \<longrightarrow> (\<forall>t \<in> sv_received v. int t < attempts) \<and> 0 \<le> attempts) \<and>
      (sv_final v \<noteq> 0 \<longrightarrow> final \<noteq> 0 \<and> attempts = sv_attempts v \<and> sent = sv_sent v \<and>
         omitted = sv_omitted v \<and> errors = sv_errors v) \<and>
      received_below attempts (sv_received v) \<le> sent)"

definition spec_report :: "int \<Rightarrow> int \<Rightarrow> int \<Rightarrow> int \<Rightarrow> int \<Rightarrow> session_view \<Rightarrow> session_view" where
  "spec_report attempts sent omitted errors final v =
     v\<lparr>sv_attempts := attempts, sv_sent := sent, sv_omitted := omitted, sv_errors := errors,
       sv_reported := 1, sv_final := final\<rparr>"

section \<open>Lookups through the abstraction\<close>

lemma find_index_map: "find_index P xs = find_index (\<lambda>b. b) (map P xs)"
  by (induction xs) auto

lemma find_index_update_same:
  assumes "i < length xs" and "P x = P (xs ! i)"
  shows "find_index P (xs[i := x]) = find_index P xs"
proof -
  have "map P (xs[i := x]) = (map P xs)[i := map P xs ! i]"
    using assms by (simp add: map_update)
  also have "\<dots> = map P xs" by (rule list_update_id)
  finally show ?thesis by (simp only: find_index_map[of P])
qed

lemma abs_nodes_found:
  "find_node (st_registry st) node_id = Some i \<Longrightarrow>
     abs_nodes st node_id = Some (view_of (node_at st i) (seen_at st i))"
  by (simp add: abs_nodes_def)

lemma abs_nodes_None: "abs_nodes st node_id = None \<longleftrightarrow> find_node (st_registry st) node_id = None"
  by (simp add: abs_nodes_def)

text \<open>Replacing a slot in use, with its row, changes the map at its identifier.\<close>

lemma abs_nodes_put:
  assumes wf: "reg_wf st" and i: "find_node (st_registry st) node_id = Some i"
    and n: "tn_in_use n" "tn_node_id n = node_id"
  shows "abs_nodes (put_node i n row st) = (abs_nodes st)(node_id \<mapsto> view_of n (seen_set row))"
proof
  fix k
  note f = reg_wf_found[OF wf i]
  have len: "length (st_seen st) = MAX_NODES" using wf by (simp add: reg_wf_def nodes_wf_def)
  have find: "find_node (st_registry (put_node i n row st)) k = find_node (st_registry st) k"
    using f n by (simp add: find_node_def put_node_def find_index_update_same)
  show "abs_nodes (put_node i n row st) k = ((abs_nodes st)(node_id \<mapsto> view_of n (seen_set row))) k"
  proof (cases "k = node_id")
    case True
    then show ?thesis using find i f len by (simp add: abs_nodes_def put_node_def)
  next
    case False
    have "j \<noteq> i" if "find_node (st_registry st) k = Some j" for j
      using that reg_wf_found(3)[OF wf that] f(3) False by blast
    then show ?thesis
      using find False by (cases "find_node (st_registry st) k") (auto simp: abs_nodes_def put_node_def)
  qed
qed

lemma upd_node_as_put:
  "upd_node i f st = put_node i (f (node_at st i)) (st_seen st ! i) st"
  by (simp add: upd_node_def put_node_def)

lemma abs_nodes_frame [simp]:
  "abs_nodes (counted st) = abs_nodes st"
  "abs_nodes (counted_unknown st) = abs_nodes st"
  "abs_nodes (registry_invalid_datagram st) = abs_nodes st"
  "abs_nodes (push_alerts xs st) = abs_nodes st"
  by (auto simp: abs_nodes_def counted_def counted_unknown_def registry_invalid_datagram_def
      push_alerts_def upd_registry_def find_node_def fun_eq_iff)

lemma dom_abs_nodes:
  assumes "reg_wf st"
  shows "dom (abs_nodes st) = (\<lambda>i. tn_node_id (node_at st i)) ` {i. i < MAX_NODES \<and> tn_in_use (node_at st i)}"
proof -
  have "abs_nodes st (tn_node_id (node_at st i)) \<noteq> None" if "i < MAX_NODES" "tn_in_use (node_at st i)" for i
    using assms that find_node_unique[of "st_registry st" "st_seen st" i] by (simp add: abs_nodes_def reg_wf_def)
  moreover have "\<exists>i. i < MAX_NODES \<and> tn_in_use (node_at st i) \<and> tn_node_id (node_at st i) = k"
    if "find_node (st_registry st) k = Some i" for k i
    using reg_wf_found[OF assms that] by blast
  ultimately show ?thesis by (fastforce simp: abs_nodes_def)
qed

lemma card_abs_nodes:
  assumes "reg_wf st"
  shows "card (dom (abs_nodes st)) = card {i. i < MAX_NODES \<and> tn_in_use (node_at st i)}"
  unfolding dom_abs_nodes[OF assms]
  by (rule card_image) (use assms in \<open>auto simp: inj_on_def reg_wf_def nodes_wf_def\<close>)

lemma card_abs_nodes_le: "reg_wf st \<Longrightarrow> card (dom (abs_nodes st)) \<le> MAX_NODES"
  using card_mono[of "{..<MAX_NODES}" "{i. i < MAX_NODES \<and> tn_in_use (node_at st i)}"]
  by (auto simp: card_abs_nodes)

lemma free_slot_iff:
  assumes "reg_wf st"
  shows "card (dom (abs_nodes st)) < MAX_NODES \<longleftrightarrow>
    find_index (\<lambda>n. \<not> tn_in_use n) (rg_nodes (st_registry st)) \<noteq> None"
proof -
  have len: "length (rg_nodes (st_registry st)) = MAX_NODES"
    using assms by (simp add: reg_wf_def nodes_wf_def)
  let ?U = "{i. i < MAX_NODES \<and> tn_in_use (node_at st i)}"
  have "card ?U < card {..<MAX_NODES} \<longleftrightarrow> ?U \<noteq> {..<MAX_NODES}"
  proof
    show "card ?U < card {..<MAX_NODES} \<Longrightarrow> ?U \<noteq> {..<MAX_NODES}" by (metis less_irrefl)
    show "?U \<noteq> {..<MAX_NODES} \<Longrightarrow> card ?U < card {..<MAX_NODES}"
      by (rule psubset_card_mono, simp, rule psubsetI, blast, assumption)
  qed
  also have "?U \<noteq> {..<MAX_NODES} \<longleftrightarrow> (\<exists>i < MAX_NODES. \<not> tn_in_use (node_at st i))"
    by auto
  also have "\<dots> \<longleftrightarrow> find_index (\<lambda>n. \<not> tn_in_use n) (rg_nodes (st_registry st)) \<noteq> None"
    unfolding find_index_None not_not all_set_conv_all_nth len by blast
  finally show ?thesis by (simp add: card_abs_nodes[OF assms])
qed

lemma abs_nodes_fresh:
  assumes wf: "reg_wf st" and none: "find_node (st_registry st) node_id = None"
    and free: "find_index (\<lambda>n. \<not> tn_in_use n) (rg_nodes (st_registry st)) = Some i"
    and ok: "is_valid_node_id node_id" "is_valid_session session"
  shows "abs_nodes (upd_node i (\<lambda>n. fresh_node node_id session) st) = (abs_nodes st)(node_id \<mapsto> fresh_view session)"
proof
  fix k
  define st' where "st' = upd_node i (\<lambda>n. fresh_node node_id session) st"
  have wf': "reg_wf st'" unfolding st'_def by (rule reg_wf_fresh[OF wf none free ok])
  have i: "i < length (rg_nodes (st_registry st))" "\<not> tn_in_use (node_at st i)"
    using find_index_SomeD[OF free] by simp_all
  have len: "length (rg_nodes (st_registry st)) = MAX_NODES"
    using wf by (simp add: reg_wf_def nodes_wf_def)
  have S: "seen_at st i = {}"
    using wf i len nodes_wf_slot(4) unfolding reg_wf_def by metis
  have at: "node_at st' i = fresh_node node_id session" "st_seen st' = st_seen st"
    using i by (simp_all add: st'_def)
  show "abs_nodes st' k = ((abs_nodes st)(node_id \<mapsto> fresh_view session)) k"
  proof (cases "k = node_id")
    case True
    have "find_node (st_registry st') node_id = Some i"
      using find_node_unique[of "st_registry st'" "st_seen st'" i] wf' i len at by (simp add: reg_wf_def)
    then show ?thesis
      using True S by (simp add: abs_nodes_def at view_of_def fresh_view_def fresh_node_def zero_node_def)
  next
    case False
    then have find: "find_node (st_registry st') k = find_node (st_registry st) k"
      using i by (simp add: st'_def find_node_def upd_node_def find_index_update_same)
    have "j \<noteq> i" if "find_node (st_registry st) k = Some j" for j
      using reg_wf_found(2)[OF wf that] i(2) by blast
    then show ?thesis
      using find False at(2) by (cases "find_node (st_registry st) k") (auto simp: abs_nodes_def st'_def upd_node_def)
  qed
qed

section \<open>Refinement\<close>

lemma register_refines:
  assumes wf: "reg_wf st" and ok: "is_valid_node_id node_id" "is_valid_session session"
    and run: "registry_register_node node_id session st = Inr (rc, st')"
  shows "spec_register node_id session (abs_nodes st) = (rc, abs_nodes st')"
proof (cases "find_node (st_registry st) node_id")
  case (Some i)
  then show ?thesis
    using run by (auto simp: register_known[OF Some] spec_register_def abs_nodes_found view_of_def)
next
  case None
  show ?thesis
  proof (cases "find_index (\<lambda>n. \<not> tn_in_use n) (rg_nodes (st_registry st))")
    case full: None
    then have "\<not> card (dom (abs_nodes st)) < MAX_NODES" using free_slot_iff[OF wf] by simp
    then show ?thesis
      using run register_full[OF None full] None by (simp add: spec_register_def abs_nodes_None[THEN iffD2])
  next
    case (Some i)
    then have "card (dom (abs_nodes st)) < MAX_NODES" using free_slot_iff[OF wf] by simp
    then show ?thesis
      using run register_new[OF None Some ok] abs_nodes_fresh[OF wf None Some ok] None
      by (auto simp: spec_register_def abs_nodes_None[THEN iffD2])
  qed
qed

lemma view_of_simps [simp]:
  "sv_session (view_of n S) = tn_session n"
  "sv_received (view_of n S) = S"
  "sv_attempts (view_of n S) = tn_attempts n"
  "sv_final (view_of n S) = tn_final_report n"
  "sv_duplicates (view_of n S) = tn_duplicates n"
  "sv_reordered (view_of n S) = tn_reordered n"
  by (simp_all add: view_of_def)

lemma view_of_dup: "view_of (dup_node n) S = (view_of n S)\<lparr>sv_duplicates := tn_duplicates n + 1\<rparr>"
  by (simp add: view_of_def dup_node_def)

lemma view_of_late:
  "view_of (late_node now T n) T =
    (view_of n S)\<lparr>sv_received := T, sv_last_seen := now, sv_reordered := tn_reordered n + 1\<rparr>"
  by (simp add: view_of_def late_node_def accept_node_def)

lemma view_of_newest:
  "view_of (newest_node now s ms T n) T =
    (view_of n S)\<lparr>sv_received := T, sv_last_seen := now, sv_values := ms\<rparr>"
  by (simp add: view_of_def newest_node_def accept_node_def)

text \<open>The comparison with \<open>last_sequence\<close> asks whether a later sequence number was received.\<close>

lemma newest_of_less: "finite S \<Longrightarrow> int s < newest_of S \<longleftrightarrow> (\<exists>t \<in> S. s < t)"
  by (auto simp: newest_of_def Max_gr_iff)

lemma newest_of_reaches:
  "finite S \<Longrightarrow> a \<le> newest_of S \<longleftrightarrow> \<not> ((\<forall>t \<in> S. int t < a) \<and> 0 \<le> a)"
proof -
  assume fin: "finite S"
  show ?thesis
  proof (cases "S = {}")
    case True
    then show ?thesis by (auto simp: newest_of_def)
  next
    case False
    then have "Max S \<in> S" "\<And>t. t \<in> S \<Longrightarrow> t \<le> Max S" using fin by auto
    then show ?thesis using False by (force simp: newest_of_def)
  qed
qed

lemma telemetry_refines:
  assumes wf: "reg_wf st" and s: "s < SESSION_LIMIT" and ms: "measurements_ok ms" "length ms \<le> MAX_VARS"
    and run: "registry_record_telemetry now clk node_id session (int s) ms st = Inr (rc, alerts, st')"
  shows "abs_nodes st' =
    (case abs_nodes st node_id of
       None \<Rightarrow> abs_nodes st
     | Some v \<Rightarrow> if sv_session v = session then (abs_nodes st)(node_id \<mapsto> spec_telemetry now s ms v)
                 else abs_nodes st)"
proof (cases "\<exists>i. find_node (st_registry st) node_id = Some i \<and> tn_session (node_at st i) = session")
  case False
  then have "st' = counted_unknown st"
    using run telemetry_unknown[of st node_id session] by (cases "find_node (st_registry st) node_id") auto
  then show ?thesis
    using False by (auto simp: abs_nodes_def view_of_def split: option.splits)
next
  case True
  then obtain i where i: "find_node (st_registry st) node_id = Some i" and sess: "tn_session (node_at st i) = session"
    by blast
  note f = reg_wf_found[OF wf i]
  define S n where "S = seen_at st i" and "n = node_at st i"
  have fin: "finite S" unfolding S_def using f(5) by (rule bm.finite_elems)
  have row: "seen_set (seen_mark (st_seen st ! i) (int s)) = insert s S"
    using f(5) s by (simp add: S_def bm.elems_mark)
  have found: "abs_nodes st node_id = Some (view_of n S)" using i by (simp add: abs_nodes_found n_def S_def)
  have last: "tn_last_sequence n = newest_of S" using f(4) by (simp add: n_def S_def node_ok_def)
  have wfc: "reg_wf (counted st)" "find_node (st_registry (counted st)) node_id = Some i"
    using wf i by (simp_all add: reg_wf_counted)
  have put: "abs_nodes (put_node i n' row (counted st)) = (abs_nodes st)(node_id \<mapsto> view_of n' (seen_set row))"
    if "tn_in_use n'" "tn_node_id n' = node_id" for n' row
    using abs_nodes_put[OF wfc that, of row] by simp
  have dup: "abs_nodes (upd_node i dup_node (counted st)) = (abs_nodes st)(node_id \<mapsto> view_of (dup_node n) S)"
    using put[of "dup_node n" "st_seen st ! i"] f by (simp add: upd_node_as_put n_def S_def dup_node_def)
  have late: "abs_nodes (put_node i (late_node now (insert s S) n) (seen_mark (st_seen st ! i) (int s)) (counted st)) =
      (abs_nodes st)(node_id \<mapsto> view_of (late_node now (insert s S) n) (insert s S))"
    using put[of "late_node now (insert s S) n" "seen_mark (st_seen st ! i) (int s)"] f
    by (simp add: row n_def late_node_def accept_node_def)
  have newest: "abs_nodes (put_node i (newest_node now s ms (insert s S) n) (seen_mark (st_seen st ! i) (int s)) (counted st)) =
      (abs_nodes st)(node_id \<mapsto> view_of (newest_node now s ms (insert s S) n) (insert s S))"
    using put[of "newest_node now s ms (insert s S) n" "seen_mark (st_seen st ! i) (int s)"] f
    by (simp add: row n_def newest_node_def accept_node_def)
  have okm: "\<forall>m \<in> set ms. measurement_ok m" using ms(1) by (simp add: measurements_ok_def)
  have out: "telemetry_outcome now clk node_id i s ms st = Inr (rc, alerts, st')"
    using run telemetry_eq[OF wf i sess s okm ms(2)] by simp
  have "abs_nodes st' = (abs_nodes st)(node_id \<mapsto> spec_telemetry now s ms (view_of n S))"
  proof (cases "tn_final_report n \<noteq> 0 \<and> tn_attempts n \<le> int s")
    case True
    then have "st' = registry_invalid_datagram (counted st)"
      using out by (simp add: telemetry_outcome_def Let_def flip: n_def)
    then show ?thesis using True found by (simp add: spec_telemetry_def fun_upd_idem)
  next
    case open_run: False
    show ?thesis
    proof (cases "s \<in> S")
      case True
      then have "st' = upd_node i dup_node (counted st)"
        using out open_run by (simp add: telemetry_outcome_def Let_def flip: n_def S_def)
      then show ?thesis using True open_run dup by (auto simp: spec_telemetry_def view_of_dup)
    next
      case new: False
      show ?thesis
      proof (cases "int s < newest_of S")
        case True
        then have "st' = put_node i (late_node now (insert s S) n) (seen_mark (st_seen st ! i) (int s)) (counted st)"
          using out open_run new last by (simp add: telemetry_outcome_def Let_def flip: n_def S_def)
        moreover have "\<exists>t \<in> S. s < t" using True newest_of_less[OF fin] by simp
        ultimately show ?thesis
          using open_run new late by (auto simp: spec_telemetry_def Let_def view_of_late[of _ _ _ S])
      next
        case False
        then have "st' = push_alerts (new_alerts_of clk node_id n ms)
            (put_node i (newest_node now s ms (insert s S) n) (seen_mark (st_seen st ! i) (int s)) (counted st))"
          using out open_run new last
          by (auto simp: telemetry_outcome_def Let_def simp flip: n_def S_def split: if_splits)
        moreover have "\<not> (\<exists>t \<in> S. s < t)" using False newest_of_less[OF fin] by simp
        ultimately show ?thesis
          using open_run new newest by (auto simp: spec_telemetry_def Let_def view_of_newest[of _ _ _ _ _ S])
      qed
    qed
  qed
  then show ?thesis using found sess by (simp add: n_def)
qed

lemma report_fits_iff:
  assumes "finite S" and "tn_last_sequence n = newest_of S"
  shows "report_fits attempts sent omitted errors final (view_of n S) \<longleftrightarrow>
    \<not> report_refused n attempts sent omitted errors final \<and> received_below attempts S \<le> sent"
  using newest_of_reaches[OF assms(1), of attempts]
  by (auto simp: report_fits_def report_refused_def view_of_def assms(2))

lemma report_refines:
  assumes wf: "reg_wf st" and att: "attempts \<le> int SESSION_LIMIT"
    and run: "registry_report node_id session attempts sent omitted errors final st = Inr (rc, st')"
  shows "case abs_nodes st node_id of
      None \<Rightarrow> rc = ERR_UNKNOWN_NODE \<and> st' = st
    | Some v \<Rightarrow>
        if sv_session v \<noteq> session then rc = ERR_UNKNOWN_NODE \<and> st' = st
        else if report_fits attempts sent omitted errors final v
        then rc = 0 \<and> abs_nodes st' =
               (abs_nodes st)(node_id \<mapsto> spec_report attempts sent omitted errors final v)
        else rc = ERR_BAD_FORMAT \<and> st' = st"
proof (cases "find_node (st_registry st) node_id")
  case None
  then show ?thesis using run by (simp add: report_unknown abs_nodes_None[THEN iffD2])
next
  case (Some i)
  note f = reg_wf_found[OF wf Some]
  define S n where "S = seen_at st i" and "n = node_at st i"
  have fin: "finite S" unfolding S_def using f(5) by (rule bm.finite_elems)
  have last: "tn_last_sequence n = newest_of S" using f(4) by (simp add: n_def S_def node_ok_def)
  have found: "abs_nodes st node_id = Some (view_of n S)" using Some by (simp add: abs_nodes_found n_def S_def)
  show ?thesis
  proof (cases "tn_session n = session")
    case False
    then have "rc = ERR_UNKNOWN_NODE \<and> st' = st"
      using run report_other_session[OF Some] by (simp add: n_def)
    then show ?thesis using found False by simp
  next
    case True
    define n' where "n' = report_node attempts sent omitted errors final S n"
    have "abs_nodes (put_node i n' (st_seen st ! i) st) = (abs_nodes st)(node_id \<mapsto> view_of n' (seen_at st i))"
      using f by (intro abs_nodes_put[OF wf Some]) (simp_all add: n'_def report_node_def Let_def n_def)
    then have upd: "abs_nodes (upd_node i (report_node attempts sent omitted errors final S) st) =
        (abs_nodes st)(node_id \<mapsto> view_of n' S)"
      by (simp add: upd_node_as_put n'_def n_def S_def)
    have "view_of n' S = spec_report attempts sent omitted errors final (view_of n S)"
      by (simp add: n'_def report_node_def Let_def view_of_def spec_report_def)
    then show ?thesis
      using run report_eq[OF wf Some True[unfolded n_def] att] found True upd
        report_fits_iff[OF fin last, of attempts sent omitted errors final]
      by (auto simp: view_of_def simp flip: n_def S_def split: if_splits)
  qed
qed

section \<open>A session only grows\<close>

definition view_le :: "session_view \<Rightarrow> session_view \<Rightarrow> bool" where
  "view_le v w =
     (sv_session w = sv_session v \<and> sv_received v \<subseteq> sv_received w \<and>
      sv_attempts v \<le> sv_attempts w \<and> sv_sent v \<le> sv_sent w \<and> sv_omitted v \<le> sv_omitted w \<and>
      sv_errors v \<le> sv_errors w \<and> sv_duplicates v \<le> sv_duplicates w \<and>
      sv_reordered v \<le> sv_reordered w \<and>
      (sv_final v \<noteq> 0 \<longrightarrow> sv_final w \<noteq> 0 \<and> sv_attempts w = sv_attempts v \<and>
         sv_sent w = sv_sent v \<and> sv_omitted w = sv_omitted v \<and> sv_errors w = sv_errors v))"

text \<open>Every known identifier stays known, with a view that is not smaller.\<close>

definition nodes_le :: "registry_state \<Rightarrow> registry_state \<Rightarrow> bool" where
  "nodes_le st st' =
     (\<forall>node_id v. abs_nodes st node_id = Some v \<longrightarrow>
        (\<exists>w. abs_nodes st' node_id = Some w \<and> view_le v w))"

lemma view_le_refl [simp]: "view_le v v"
  by (simp add: view_le_def)

lemma view_le_trans: "view_le u v \<Longrightarrow> view_le v w \<Longrightarrow> view_le u w"
  by (auto simp: view_le_def)

lemma nodes_le_refl [simp]: "nodes_le st st"
  by (auto simp: nodes_le_def)

lemma nodes_le_trans: "nodes_le a b \<Longrightarrow> nodes_le b c \<Longrightarrow> nodes_le a c"
  unfolding nodes_le_def by (meson view_le_trans)

lemma view_le_telemetry: "view_le v (spec_telemetry now s ms v)"
  by (auto simp: view_le_def spec_telemetry_def Let_def)

lemma view_le_report:
  "report_fits attempts sent omitted errors final v \<Longrightarrow>
     view_le v (spec_report attempts sent omitted errors final v)"
  by (auto simp: view_le_def spec_report_def report_fits_def)

lemma nodes_le_same: "abs_nodes st' = abs_nodes st \<Longrightarrow> nodes_le st st'"
  by (auto simp: nodes_le_def)

lemma nodes_le_update:
  "abs_nodes st' = (abs_nodes st)(node_id \<mapsto> w) \<Longrightarrow>
     (\<And>v. abs_nodes st node_id = Some v \<Longrightarrow> view_le v w) \<Longrightarrow> nodes_le st st'"
  by (auto simp: nodes_le_def)

lemma register_grows:
  assumes "reg_wf st" and "is_valid_node_id node_id" and "is_valid_session session"
    and "registry_register_node node_id session st = Inr (rc, st')"
  shows "nodes_le st st'"
  using register_refines[OF assms]
  by (auto simp: spec_register_def split: option.splits if_splits
      intro: nodes_le_same nodes_le_update[OF sym])

lemma telemetry_grows:
  assumes "reg_wf st" and "s < SESSION_LIMIT" and "measurements_ok ms" and "length ms \<le> MAX_VARS"
    and "registry_record_telemetry now clk node_id session (int s) ms st = Inr (rc, alerts, st')"
  shows "nodes_le st st'"
  using telemetry_refines[OF assms] view_le_telemetry
  by (auto split: option.splits if_splits intro: nodes_le_same nodes_le_update)

lemma report_grows:
  assumes "reg_wf st" and "attempts \<le> int SESSION_LIMIT"
    and "registry_report node_id session attempts sent omitted errors final st = Inr (rc, st')"
  shows "nodes_le st st'"
  using report_refines[OF assms] view_le_report
  by (auto split: option.splits if_splits intro: nodes_le_update)

section \<open>Accounting of datagrams\<close>

text \<open>
  Every parsed datagram is counted once: as a new sequence number, a duplicate, a datagram of an
  unknown session, or one after the final report (which \<open>rg_datagrams_invalid\<close> counts together
  with the malformed ones).
\<close>

definition per_node_total :: "registry_state \<Rightarrow> int" where
  "per_node_total st =
     (\<Sum>n \<leftarrow> rg_nodes (st_registry st). tn_datagrams_received n + tn_duplicates n)"

definition accounts_ok :: "registry_state \<Rightarrow> bool" where
  "accounts_ok st =
     (let r = st_registry st; known = per_node_total st + rg_datagrams_unknown_node r
      in known \<le> rg_datagrams_total r \<and> rg_datagrams_total r \<le> known + rg_datagrams_invalid r)"

lemma sum_list_map_update:
  "i < length xs \<Longrightarrow>
     (\<Sum>x \<leftarrow> xs[i := y]. f x) = (\<Sum>x \<leftarrow> xs. f x) + f y - (f (xs ! i) :: int)"
proof (induction xs arbitrary: i)
  case Nil
  then show ?case by simp
next
  case (Cons x xs)
  then show ?case by (cases i) simp_all
qed

lemma per_node_total_put:
  "i < length (rg_nodes (st_registry st)) \<Longrightarrow>
     per_node_total (put_node i n row st) = per_node_total st +
       (tn_datagrams_received n + tn_duplicates n) -
       (tn_datagrams_received (node_at st i) + tn_duplicates (node_at st i))"
  by (simp add: per_node_total_def put_node_def sum_list_map_update)

lemma per_node_total_frame [simp]:
  "per_node_total (counted st) = per_node_total st"
  "per_node_total (counted_unknown st) = per_node_total st"
  "per_node_total (registry_invalid_datagram st) = per_node_total st"
  "per_node_total (push_alerts xs st) = per_node_total st"
  by (simp_all add: per_node_total_def counted_def counted_unknown_def registry_invalid_datagram_def
      push_alerts_def upd_registry_def)

lemma put_node_frame [simp]:
  "rg_datagrams_total (st_registry (put_node i n row st)) = rg_datagrams_total (st_registry st)"
  "rg_datagrams_unknown_node (st_registry (put_node i n row st)) = rg_datagrams_unknown_node (st_registry st)"
  "rg_datagrams_invalid (st_registry (put_node i n row st)) = rg_datagrams_invalid (st_registry st)"
  by (simp_all add: put_node_def)

text \<open>The four numbers the accounts are made of, unchanged.\<close>

definition same_accounts :: "registry_state \<Rightarrow> registry_state \<Rightarrow> bool" where
  "same_accounts st st' =
     (per_node_total st' = per_node_total st \<and>
      rg_datagrams_total (st_registry st') = rg_datagrams_total (st_registry st) \<and>
      rg_datagrams_unknown_node (st_registry st') = rg_datagrams_unknown_node (st_registry st) \<and>
      rg_datagrams_invalid (st_registry st') = rg_datagrams_invalid (st_registry st))"

lemma same_accounts_refl [simp]: "same_accounts st st"
  by (simp add: same_accounts_def)

lemma same_accounts_ok: "same_accounts st st' \<Longrightarrow> accounts_ok st \<Longrightarrow> accounts_ok st'"
  by (simp add: same_accounts_def accounts_ok_def Let_def)

text \<open>A slot replaced by one with the same number of datagrams.\<close>

lemma same_put:
  assumes "i < length (rg_nodes (st_registry st))"
    and "tn_datagrams_received n + tn_duplicates n =
      tn_datagrams_received (node_at st i) + tn_duplicates (node_at st i)"
  shows "same_accounts st (put_node i n row st)"
  using assms by (simp add: same_accounts_def per_node_total_put)

lemma accounts_init: "accounts_ok (registry_init now sec nsec)"
  by (simp add: accounts_ok_def per_node_total_def registry_init_def zero_node_def Let_def
      map_replicate sum_list_replicate)

lemma accounts_invalid: "accounts_ok st \<Longrightarrow> accounts_ok (registry_invalid_datagram st)"
  by (simp add: accounts_ok_def Let_def) (simp add: registry_invalid_datagram_def upd_registry_def)

lemma same_register:
  assumes wf: "reg_wf st"
    and ok: "is_valid_node_id node_id" "is_valid_session session"
    and run: "registry_register_node node_id session st = Inr (rc, st')"
  shows "same_accounts st st'"
proof (cases "find_node (st_registry st) node_id")
  case (Some i)
  then show ?thesis using run by (simp add: register_known)
next
  case None
  show ?thesis
  proof (cases "find_index (\<lambda>n. \<not> tn_in_use n) (rg_nodes (st_registry st))")
    case full: None
    then show ?thesis using run register_full[OF None full] by simp
  next
    case (Some i)
    have i: "i < length (rg_nodes (st_registry st))" "\<not> tn_in_use (node_at st i)"
      using find_index_SomeD[OF Some] by simp_all
    then have "node_at st i = zero_node"
      using wf nodes_wf_slot(4) unfolding reg_wf_def nodes_wf_def by (metis slot_ok_def)
    moreover have "st' = put_node i (fresh_node node_id session) (st_seen st ! i) st"
      using run register_new[OF None Some ok] by (simp add: upd_node_as_put)
    moreover have "tn_datagrams_received (fresh_node node_id session) + tn_duplicates (fresh_node node_id session) = 0"
      "tn_datagrams_received zero_node + tn_duplicates zero_node = 0"
      by (simp_all add: fresh_node_def zero_node_def)
    ultimately show ?thesis using i by (simp add: same_put)
  qed
qed

lemma accounts_register:
  assumes "reg_wf st" and "accounts_ok st" and "is_valid_node_id node_id" and "is_valid_session session"
    and "registry_register_node node_id session st = Inr (rc, st')"
  shows "accounts_ok st'"
  using same_accounts_ok[OF same_register] assms by blast

lemma same_report:
  assumes wf: "reg_wf st" and att: "attempts \<le> int SESSION_LIMIT"
    and run: "registry_report node_id session attempts sent omitted errors final st = Inr (rc, st')"
  shows "same_accounts st st'"
proof (cases "\<exists>i. find_node (st_registry st) node_id = Some i \<and> tn_session (node_at st i) = session")
  case False
  then have "st' = st"
    using run by (cases "find_node (st_registry st) node_id") (auto simp: report_unknown report_other_session)
  then show ?thesis by simp
next
  case True
  then obtain i where i: "find_node (st_registry st) node_id = Some i" "tn_session (node_at st i) = session"
    by blast
  have "st' = st \<or> st' = put_node i (report_node attempts sent omitted errors final (seen_at st i) (node_at st i))
      (st_seen st ! i) st"
    using run report_eq[OF wf i att] by (auto simp: upd_node_as_put split: if_splits)
  then show ?thesis
    using reg_wf_found(6)[OF wf i(1)]
    by (auto simp: report_node_def Let_def intro!: same_put)
qed

lemma accounts_report:
  assumes "reg_wf st" and "accounts_ok st" and "attempts \<le> int SESSION_LIMIT"
    and "registry_report node_id session attempts sent omitted errors final st = Inr (rc, st')"
  shows "accounts_ok st'"
  using same_accounts_ok[OF same_report] assms by blast

lemma telemetry_outcome_cases:
  assumes "telemetry_outcome now clk node_id i s ms st = Inr (rc, alerts, st')"
    and "i < length (rg_nodes (st_registry st))"
  shows "st' = registry_invalid_datagram (counted st) \<or>
    (\<exists>n row. st' = push_alerts alerts (put_node i n row (counted st)) \<and>
       tn_datagrams_received n + tn_duplicates n =
         tn_datagrams_received (node_at st i) + tn_duplicates (node_at st i) + 1)"
proof -
  have nil: "push_alerts [] x = x" for x by (simp add: push_alerts_def upd_registry_def)
  have dup: "upd_node i dup_node (counted st) = put_node i (dup_node (node_at st i)) (st_seen st ! i) (counted st)"
    by (simp add: upd_node_as_put)
  have plus: "tn_datagrams_received n + tn_duplicates n =
      tn_datagrams_received (node_at st i) + tn_duplicates (node_at st i) + 1"
    if "n = dup_node (node_at st i) \<or> n = late_node now (insert s (seen_at st i)) (node_at st i) \<or>
        n = newest_node now s ms (insert s (seen_at st i)) (node_at st i)" for n
    using that by (auto simp: dup_node_def late_node_def newest_node_def accept_node_def)
  show ?thesis
    using assms(1) plus unfolding telemetry_outcome_def Let_def dup
    by (auto simp: nil split: if_splits)
qed

text \<open>A parsed datagram is counted in the total and in exactly one other counter.\<close>

definition known_datagrams :: "registry_state \<Rightarrow> int" where
  "known_datagrams st = per_node_total st + rg_datagrams_unknown_node (st_registry st)"

lemma telemetry_counts_once:
  assumes wf: "reg_wf st" and s: "s < SESSION_LIMIT" and ms: "measurements_ok ms" "length ms \<le> MAX_VARS"
    and run: "registry_record_telemetry now clk node_id session (int s) ms st = Inr (rc, alerts, st')"
  shows "rg_datagrams_total (st_registry st') = rg_datagrams_total (st_registry st) + 1 \<and>
    (\<exists>d \<in> {0, 1}. known_datagrams st' = known_datagrams st + d \<and>
       rg_datagrams_invalid (st_registry st') = rg_datagrams_invalid (st_registry st) + 1 - d)"
proof (cases "\<exists>i. find_node (st_registry st) node_id = Some i \<and> tn_session (node_at st i) = session")
  case False
  then have st': "st' = counted_unknown st"
    using run telemetry_unknown[of st node_id session] by (cases "find_node (st_registry st) node_id") auto
  have "rg_datagrams_total (st_registry (counted_unknown st)) = rg_datagrams_total (st_registry st) + 1"
    "rg_datagrams_unknown_node (st_registry (counted_unknown st)) = rg_datagrams_unknown_node (st_registry st) + 1"
    "rg_datagrams_invalid (st_registry (counted_unknown st)) = rg_datagrams_invalid (st_registry st)"
    by (simp_all add: counted_unknown_def counted_def upd_registry_def)
  then show ?thesis by (simp add: st' known_datagrams_def)
next
  case True
  then obtain i where i: "find_node (st_registry st) node_id = Some i" "tn_session (node_at st i) = session"
    by blast
  have i': "i < length (rg_nodes (st_registry (counted st)))" using reg_wf_found(6)[OF wf i(1)] by simp
  have okm: "\<forall>m \<in> set ms. measurement_ok m" using ms(1) by (simp add: measurements_ok_def)
  have "telemetry_outcome now clk node_id i s ms st = Inr (rc, alerts, st')"
    using run telemetry_eq[OF wf i s okm ms(2)] by simp
  then consider "st' = registry_invalid_datagram (counted st)"
    | n row xs where "st' = push_alerts xs (put_node i n row (counted st))"
        "tn_datagrams_received n + tn_duplicates n =
           tn_datagrams_received (node_at st i) + tn_duplicates (node_at st i) + 1"
    using telemetry_outcome_cases reg_wf_found(6)[OF wf i(1)] by blast
  then show ?thesis
  proof cases
    case 1
    then have "rg_datagrams_total (st_registry st') = rg_datagrams_total (st_registry st) + 1"
      "rg_datagrams_unknown_node (st_registry st') = rg_datagrams_unknown_node (st_registry st)"
      "rg_datagrams_invalid (st_registry st') = rg_datagrams_invalid (st_registry st) + 1"
      by (simp_all add: registry_invalid_datagram_def counted_def upd_registry_def)
    then show ?thesis using 1 by (simp add: known_datagrams_def)
  next
    case 2
    have "per_node_total st' = per_node_total st + 1"
      using 2 i' by (simp add: per_node_total_put)
    moreover have "rg_datagrams_total (st_registry st') = rg_datagrams_total (st_registry st) + 1"
      "rg_datagrams_unknown_node (st_registry st') = rg_datagrams_unknown_node (st_registry st)"
      "rg_datagrams_invalid (st_registry st') = rg_datagrams_invalid (st_registry st)"
      using 2(1) by (simp_all add: push_alerts_def put_node_def counted_def upd_registry_def)
    ultimately show ?thesis by (simp add: known_datagrams_def)
  qed
qed

lemma accounts_telemetry:
  assumes "reg_wf st" and "accounts_ok st" and "s < SESSION_LIMIT" and "measurements_ok ms" and "length ms \<le> MAX_VARS"
    and "registry_record_telemetry now clk node_id session (int s) ms st = Inr (rc, alerts, st')"
  shows "accounts_ok st'"
  using telemetry_counts_once[OF assms(1,3-6)] assms(2)
  by (auto simp: accounts_ok_def Let_def known_datagrams_def)

section \<open>Alerts\<close>

text \<open>The whole threshold of a numeric variable.\<close>

definition whole_threshold :: "string \<Rightarrow> int" where
  "whole_threshold name =
     (if name = ''TEMP'' then 40 else if name = ''HUM'' then 85 else if name = ''POWER'' then 500 else 7)"

lemma anomalous_threshold:
  assumes "is_anomalous_value m" and "ms_name m \<noteq> ''STATUS''"
  shows "int64 (whole_threshold (ms_name m)) < ms_value m"
  using assms
  by (auto simp: is_anomalous_value_def alert_threshold_def whole_threshold_def TEMP_MAX_def HUM_MAX_def
      POWER_MAX_def VIB_MAX_def less_val64 Let_def split: if_splits)

lemma whole_threshold_small: "\<bar>whole_threshold name\<bar> < 2 ^ 53"
  by (simp add: whole_threshold_def)

lemma telemetry_found_outcome:
  assumes wf: "reg_wf st" and i: "find_node (st_registry st) node_id = Some i"
    and sess: "tn_session (node_at st i) = session"
    and s: "s < SESSION_LIMIT" and ms: "measurements_ok ms" "length ms \<le> MAX_VARS"
  shows "registry_record_telemetry now clk node_id session (int s) ms st =
    telemetry_outcome now clk node_id i s ms st"
  using assms by (intro telemetry_eq) (simp_all add: measurements_ok_def)

text \<open>What one parsed datagram adds to the log of alerts.\<close>

lemma telemetry_alerts:
  assumes "reg_wf st" and "find_node (st_registry st) node_id = Some i"
    and "tn_session (node_at st i) = session"
    and "s < SESSION_LIMIT" and "measurements_ok ms" and "length ms \<le> MAX_VARS"
    and "registry_record_telemetry now clk node_id session (int s) ms st = Inr (rc, alerts, st')"
  shows "alerts =
      (if (tn_final_report (node_at st i) \<noteq> 0 \<and> tn_attempts (node_at st i) \<le> int s) \<or>
          s \<in> seen_at st i \<or> int s < tn_last_sequence (node_at st i)
       then [] else new_alerts_of clk node_id (node_at st i) ms) \<and>
    alert_log (st_registry st') = last_n MAX_ALERTS (alert_log (st_registry st) @ alerts) \<and>
    rg_total_alerts (st_registry st') = rg_total_alerts (st_registry st) + int (length alerts)"
proof -
  have ok: "ring_ok (st_registry st)" using assms(1) by (simp add: reg_wf_def alerts_wf_def)
  have outcome: "telemetry_outcome now clk node_id i s ms st = Inr (rc, alerts, st')"
    using telemetry_found_outcome[OF assms(1-6)] assms(7) by simp
  have nil: "last_n MAX_ALERTS (alert_log (st_registry st)) = alert_log (st_registry st)"
    using length_alert_log_le[of "st_registry st"] by (simp add: last_n_def)
  have put: "alert_log (st_registry (put_node j n row (counted st))) = alert_log (st_registry st)"
    "ring_ok (st_registry (put_node j n row (counted st)))"
    "rg_total_alerts (st_registry (put_node j n row (counted st))) = rg_total_alerts (st_registry st)" for j n row
    using ok by (simp_all add: put_node_def)
  have inv: "alert_log (st_registry (registry_invalid_datagram (counted st))) = alert_log (st_registry st)"
    "rg_total_alerts (st_registry (registry_invalid_datagram (counted st))) = rg_total_alerts (st_registry st)"
    by (simp_all add: registry_invalid_datagram_def upd_registry_def alert_log_def counted_def)
  have push: "alert_log (st_registry (push_alerts xs (put_node j n row (counted st)))) =
      last_n MAX_ALERTS (alert_log (st_registry st) @ xs)"
    "rg_total_alerts (st_registry (push_alerts xs (put_node j n row (counted st)))) =
      rg_total_alerts (st_registry st) + int (length xs)" for xs j n row
    using ring.entries_pushes[OF put(2)] length_alert_log_le
    by (simp_all add: push_alerts_def upd_registry_def put)
  show ?thesis
    using outcome nil put inv push
    by (auto simp: telemetry_outcome_def Let_def split: if_splits)
qed

text \<open>
  The specification of the alerts, over the numbers the values denote: a numeric value above the
  whole threshold of its variable, or a failed status; reported when the session does not hold a
  value of that variable in the same condition.
\<close>

definition above_threshold :: "Measurement \<Rightarrow> bool" where
  "above_threshold m =
     (if ms_name m = ''STATUS'' then val64 (ms_value m) = 0
      else real_of_int (whole_threshold (ms_name m)) < val64 (ms_value m))"

definition newly_above :: "Measurement list \<Rightarrow> Measurement \<Rightarrow> bool" where
  "newly_above stored m =
     (above_threshold m \<and> \<not> (\<exists>p \<in> set stored. ms_name p = ms_name m \<and> above_threshold p))"

definition spec_alerts ::
  "(nat \<Rightarrow> int) \<Rightarrow> string \<Rightarrow> nat \<Rightarrow> Measurement list \<Rightarrow> session_view \<Rightarrow> Alert list" where
  "spec_alerts clk node_id s ms v =
     (if (sv_final v \<noteq> 0 \<and> sv_attempts v \<le> int s) \<or> s \<in> sv_received v \<or> (\<exists>t \<in> sv_received v. s < t) then []
      else alerts_from clk node_id 0 (filter (newly_above (sv_values v)) ms))"

lemma is_anomalous_above: "measurement_ok m \<Longrightarrow> is_anomalous_value m \<longleftrightarrow> above_threshold m"
  using measurement_ok_name[of m] measurement_ok_within(2)[of m]
  by (auto simp: is_anomalous_value_def above_threshold_def alert_threshold_def whole_threshold_def variable_names_def
      TEMP_MAX_def HUM_MAX_def POWER_MAX_def VIB_MAX_def less_val64 is_zero_val64 Let_def)

lemma find_name: "distinct (map ms_name ms) \<Longrightarrow> p \<in> set ms \<Longrightarrow> find (\<lambda>m. ms_name m = ms_name p) ms = Some p"
  by (induction ms) auto

lemma was_anomalous_above:
  assumes "measurements_ok (tn_measurements n)"
  shows "was_anomalous n name \<longleftrightarrow> (\<exists>p \<in> set (tn_measurements n). ms_name p = name \<and> above_threshold p)"
proof (cases "find (\<lambda>m. ms_name m = name) (tn_measurements n)")
  case None
  then have "\<forall>p \<in> set (tn_measurements n). ms_name p \<noteq> name" by (auto simp: find_None_iff)
  then show ?thesis using None by (auto simp: was_anomalous_def)
next
  case (Some p)
  then have p: "p \<in> set (tn_measurements n)" "ms_name p = name" by (auto simp: find_Some_iff)
  have "q = p" if "q \<in> set (tn_measurements n)" "ms_name q = name" for q
  proof -
    have "find (\<lambda>m. ms_name m = ms_name q) (tn_measurements n) = Some q"
      using assms that(1) by (intro find_name) (simp_all add: measurements_ok_def)
    then show ?thesis using Some unfolding that(2) by simp
  qed
  moreover have "is_anomalous_value p \<longleftrightarrow> above_threshold p"
    using assms p by (intro is_anomalous_above) (simp add: measurements_ok_def)
  moreover have "was_anomalous n name \<longleftrightarrow> is_anomalous_value p" by (simp add: was_anomalous_def Some)
  ultimately show ?thesis using p by blast
qed

lemma crosses_newly_above:
  assumes "measurements_ok (tn_measurements n)" and "measurement_ok m"
  shows "crosses n m \<longleftrightarrow> newly_above (tn_measurements n) m"
  using is_anomalous_above[OF assms(2)] was_anomalous_above[OF assms(1)] by (simp add: crosses_def newly_above_def)

section \<open>Properties\<close>

lemma abs_one_node: "abs_nodes one_node ''node-1'' = Some (fresh_view demo_session)"
  by (simp add: abs_nodes_def one_node_find one_node_at(1,3) view_of_def fresh_view_def fresh_node_def zero_node_def)

text \<open>C6: registration always returns without undefined behaviour, keeps the invariant, and
  refines its specification on the map of sessions: an identifier belongs to one session for good,
  a repeated registration of that session changes nothing, another session gets 105, and a new
  identifier gets a fresh session unless 64 are known (104).\<close>

theorem registration_refines:
  assumes "reg_wf st" and "is_valid_node_id node_id" and "is_valid_session session"
  shows "\<exists>rc st'. registry_register_node node_id session st = Inr (rc, st') \<and> reg_wf st' \<and>
    spec_register node_id session (abs_nodes st) = (rc, abs_nodes st')"
  by (rule register_total[OF assms]) (use register_refines[OF assms] in blast)

lemma registration_refines_witness:
  "\<exists>st'. registry_register_node ''node-1'' (replicate 32 CHR ''a'') one_node = Inr (105, st')"
proof -
  have "is_valid_session (replicate 32 CHR ''a'')" by code_simp
  moreover have "replicate 32 CHR ''a'' \<noteq> demo_session"
    by (simp add: demo_session_def numeral_eq_Suc)
  ultimately show ?thesis
    using registration_refines[OF one_node_wf, of "''node-1''" "replicate 32 CHR ''a''"] abs_one_node
    by (auto simp: spec_register_def fresh_view_def ERR_ID_IN_USE_def)
qed

text \<open>C2: recording telemetry that the parsers accepted never faults while the alert counter has room
  for the values of one datagram, keeps the invariant, and refines its specification: it changes
  only the session of that node and session, a duplicate only counts, a late sequence number never
  replaces the stored values, a new highest one does, and nothing changes after the final report.\<close>

theorem telemetry_refines_session:
  assumes "reg_wf st" and "s < SESSION_LIMIT" and "measurements_ok ms" and "length ms \<le> MAX_VARS"
    and "rg_total_alerts (st_registry st) + int (length ms) \<le> INT_MAX"
  shows "\<exists>rc alerts st'. registry_record_telemetry now clk node_id session (int s) ms st = Inr (rc, alerts, st') \<and>
    reg_wf st' \<and>
    abs_nodes st' =
      (case abs_nodes st node_id of
         None \<Rightarrow> abs_nodes st
       | Some v \<Rightarrow> if sv_session v = session then (abs_nodes st)(node_id \<mapsto> spec_telemetry now s ms v)
                   else abs_nodes st)"
proof -
  obtain rc alerts st' where run:
    "registry_record_telemetry now clk node_id session (int s) ms st = Inr (rc, alerts, st')"
    using telemetry_no_fault[OF assms, of now clk node_id session] prod_cases3 unfolding no_fault_iff by metis
  show ?thesis
    using run telemetry_wf[OF assms(1-4) run] telemetry_refines[OF assms(1-4) run] by blast
qed

lemma telemetry_refines_session_witness:
  "\<exists>rc alerts st'. registry_record_telemetry 200 (\<lambda>k. 200) ''node-1'' demo_session (int 3) hot_values one_node =
      Inr (rc, alerts, st') \<and>
    map_option sv_received (abs_nodes st' ''node-1'') = Some {3} \<and>
    map_option sv_values (abs_nodes st' ''node-1'') = Some hot_values"
proof -
  have "rg_total_alerts (st_registry one_node) + int (length hot_values) \<le> INT_MAX"
    by (simp add: one_node_at hot_values_def INT_MAX_def)
  with telemetry_refines_session[OF one_node_wf _ hot_values_ok, of 3 200 "\<lambda>k. 200" "''node-1''" demo_session]
  show ?thesis
    by (auto simp: abs_one_node spec_telemetry_def fresh_view_def SESSION_LIMIT_def)
qed

text \<open>C4: a sender report is answered 102 for an unknown node or session, refused with 100 exactly
  when it does not fit the session (the sum, the monotone counters, the finality, and no more
  distinct datagrams received than sent), and otherwise recorded; a refused report changes nothing,
  and no report faults.\<close>

theorem sender_report_refines:
  assumes "reg_wf st" and "0 \<le> sent" and "0 \<le> omitted" and "0 \<le> errors"
    and "attempts \<le> int SESSION_LIMIT" and "final \<in> {0, 1}"
  shows "\<exists>rc st'. registry_report node_id session attempts sent omitted errors final st = Inr (rc, st') \<and>
    reg_wf st' \<and>
    (case abs_nodes st node_id of
       None \<Rightarrow> rc = ERR_UNKNOWN_NODE \<and> st' = st
     | Some v \<Rightarrow>
         if sv_session v \<noteq> session then rc = ERR_UNKNOWN_NODE \<and> st' = st
         else if report_fits attempts sent omitted errors final v
         then rc = 0 \<and> abs_nodes st' =
                (abs_nodes st)(node_id \<mapsto> spec_report attempts sent omitted errors final v)
         else rc = ERR_BAD_FORMAT \<and> st' = st)"
  by (rule report_total[OF assms]) (use report_refines[OF assms(1,5)] in blast)

lemma sender_report_refines_witness:
  "\<exists>st'. registry_report ''node-1'' demo_session 10 8 1 1 1 one_node = Inr (0, st')"
proof -
  have "report_fits 10 8 1 1 1 (fresh_view demo_session)"
    by (simp add: report_fits_def fresh_view_def received_below_def)
  then show ?thesis
    using sender_report_refines[OF one_node_wf, of 8 1 1 10 1 "''node-1''" demo_session] abs_one_node
    by (auto simp: fresh_view_def SESSION_LIMIT_def)
qed

text \<open>C7: a datagram raises an alert for exactly those of its values that are above the threshold of
  their variable (or report a failed status) while the value the session held for that variable was
  not, in the order of the message, and only when its sequence number is new, highest so far and not
  after the final report; so an alert is not repeated while the condition lasts. The values it is
  compared with next time are its own, and each alert is appended to the ring, which holds the last
  128 in order.\<close>

theorem alerts_on_crossing:
  assumes "reg_wf st" and "abs_nodes st node_id = Some v" and "sv_session v = session"
    and "s < SESSION_LIMIT" and "measurements_ok ms" and "length ms \<le> MAX_VARS"
    and "registry_record_telemetry now clk node_id session (int s) ms st = Inr (rc, alerts, st')"
  shows "alerts = spec_alerts clk node_id s ms v \<and>
    abs_nodes st' node_id = Some (spec_telemetry now s ms v) \<and>
    alert_log (st_registry st') = last_n MAX_ALERTS (alert_log (st_registry st) @ alerts) \<and>
    rg_total_alerts (st_registry st') = rg_total_alerts (st_registry st) + int (length alerts)"
proof -
  obtain i where i: "find_node (st_registry st) node_id = Some i" and v: "v = view_of (node_at st i) (seen_at st i)"
    using assms(2) by (auto simp: abs_nodes_def)
  have sess: "tn_session (node_at st i) = session" using assms(3) v by (simp add: view_of_def)
  note f = reg_wf_found[OF assms(1) i]
  have ok: "measurements_ok (tn_measurements (node_at st i))" and last: "tn_last_sequence (node_at st i) = newest_of (seen_at st i)"
    using f(4) by (simp_all add: node_ok_def)
  have "finite (seen_at st i)" using f(5) by (rule bm.finite_elems)
  then have new: "int s < tn_last_sequence (node_at st i) \<longleftrightarrow> (\<exists>t \<in> seen_at st i. s < t)"
    unfolding last by (rule newest_of_less)
  have "filter (crosses (node_at st i)) ms = filter (newly_above (tn_measurements (node_at st i))) ms"
    using assms(5) crosses_newly_above[OF ok] by (intro filter_cong) (simp_all add: measurements_ok_def)
  then have "spec_alerts clk node_id s ms v =
      (if (tn_final_report (node_at st i) \<noteq> 0 \<and> tn_attempts (node_at st i) \<le> int s) \<or>
          s \<in> seen_at st i \<or> int s < tn_last_sequence (node_at st i)
       then [] else new_alerts_of clk node_id (node_at st i) ms)"
    unfolding new by (simp add: spec_alerts_def new_alerts_of_def v view_of_def)
  moreover have "abs_nodes st' node_id = Some (spec_telemetry now s ms v)"
    using telemetry_refines[OF assms(1,4-7)] assms(2,3) by simp
  ultimately show ?thesis using telemetry_alerts[OF assms(1) i sess assms(4-7)] by simp
qed

lemma alerts_on_crossing_witness:
  "\<exists>rc1 rc2 st1 st2. registry_record_telemetry 200 (\<lambda>k. 200) ''node-1'' demo_session (int 3) hot_values one_node =
      Inr (rc1, [alert_of 200 ''node-1'' \<lparr>ms_name = ''TEMP'', ms_value = int64 50\<rparr>,
                 alert_of 200 ''node-1'' \<lparr>ms_name = ''STATUS'', ms_value = int64 0\<rparr>], st1) \<and>
    registry_record_telemetry 210 (\<lambda>k. 210) ''node-1'' demo_session (int 4) hot_values st1 = Inr (rc2, [], st2) \<and>
    length (alert_log (st_registry st2)) = 2"
proof -
  have s: "3 < SESSION_LIMIT" "4 < SESSION_LIMIT" by (simp_all add: SESSION_LIMIT_def)
  have room: "rg_total_alerts (st_registry one_node) + int (length hot_values) \<le> INT_MAX"
    by (simp add: one_node_at(4) hot_values_def INT_MAX_def)
  obtain rc1 a1 st1 where run1: "registry_record_telemetry 200 (\<lambda>k. 200) ''node-1'' demo_session (int 3) hot_values one_node =
      Inr (rc1, a1, st1)"
    using telemetry_no_fault[OF one_node_wf s(1) hot_values_ok room, of 200 "\<lambda>k. 200" "''node-1''" demo_session]
      prod_cases3 unfolding no_fault_iff by metis
  define v1 where "v1 = spec_telemetry 200 3 hot_values (fresh_view demo_session)"
  have sess: "sv_session (fresh_view demo_session) = demo_session" by (simp add: fresh_view_def)
  note first = alerts_on_crossing[OF one_node_wf abs_one_node sess s(1) hot_values_ok run1, folded v1_def]
  have v1: "sv_session v1 = demo_session" "sv_received v1 = {3}" "sv_final v1 = 0" "sv_values v1 = hot_values"
    by (simp_all add: v1_def spec_telemetry_def fresh_view_def)
  have a1: "a1 = [alert_of 200 ''node-1'' \<lparr>ms_name = ''TEMP'', ms_value = int64 50\<rparr>,
      alert_of 200 ''node-1'' \<lparr>ms_name = ''STATUS'', ms_value = int64 0\<rparr>]"
    using first by (simp add: spec_alerts_def fresh_view_def newly_above_def above_threshold_def whole_threshold_def hot_values_def)
  have wf1: "reg_wf st1" by (rule telemetry_wf[OF one_node_wf s(1) hot_values_ok run1])
  have total: "rg_total_alerts (st_registry st1) = 2" using first a1 by (simp add: one_node_at(4))
  then have "rg_total_alerts (st_registry st1) + int (length hot_values) \<le> INT_MAX" by (simp add: hot_values_def INT_MAX_def)
  then obtain rc2 a2 st2 where run2:
    "registry_record_telemetry 210 (\<lambda>k. 210) ''node-1'' demo_session (int 4) hot_values st1 = Inr (rc2, a2, st2)"
    using telemetry_no_fault[OF wf1 s(2) hot_values_ok, of 210 "\<lambda>k. 210" "''node-1''" demo_session]
      prod_cases3 unfolding no_fault_iff by metis
  have "abs_nodes st1 ''node-1'' = Some v1" using first by blast
  note second = alerts_on_crossing[OF wf1 this v1(1) s(2) hot_values_ok run2]
  have "filter (newly_above hot_values) hot_values = []" by (auto simp: newly_above_def filter_empty_conv)
  then have a2: "a2 = []" using second by (simp add: spec_alerts_def v1)
  have "alert_log (st_registry one_node) = []" by (simp add: alert_log_def one_node_at(4))
  moreover have "alert_log (st_registry st1) = last_n MAX_ALERTS (alert_log (st_registry one_node) @ a1)"
    "alert_log (st_registry st2) = last_n MAX_ALERTS (alert_log (st_registry st1) @ a2)"
    using first second by blast+
  ultimately have "length (alert_log (st_registry st2)) = 2" by (simp add: a1 a2 last_n_def MAX_ALERTS_def)
  then show ?thesis using run1 run2 a1 a2 by blast
qed

text \<open>C37: a numeric value that the server accepted and holds to be anomalous was written as a number
  above its threshold: rounding never raises a false alert.\<close>

theorem alert_not_from_rounding:
  assumes "parse_value name text = Some v" and "name \<noteq> ''STATUS''"
    and "is_anomalous_value \<lparr>ms_name = name, ms_value = v\<rparr>"
  shows "real_of_int (whole_threshold name) < decimal_value text"
proof (rule ccontr)
  assume "\<not> real_of_int (whole_threshold name) < decimal_value text"
  then have "v \<le> int64 (whole_threshold name)"
    using strtod_le_whole[OF parse_value_number[OF assms(1,2)] whole_threshold_small] by simp
  moreover have "int64 (whole_threshold name) < v"
    using anomalous_threshold[OF assms(3)] assms(2) by simp
  ultimately show False by (meson less_le_not_le)
qed

lemma alert_not_from_rounding_witness:
  "real_of_int 40 < decimal_value ''40.1''"
proof -
  have run: "parse_value ''TEMP'' ''40.1'' = Some (Fin False 5643573283048653 (- 47))" by code_simp
  have "is_anomalous_value \<lparr>ms_name = ''TEMP'', ms_value = Fin False 5643573283048653 (- 47)\<rparr>" by code_simp
  then show ?thesis using alert_not_from_rounding[OF run] by (simp add: whole_threshold_def)
qed






end
