(* ===== verification/Tcp_Facts.thy ===== *)
theory Tcp_Facts
  imports Tcp_Server RegistrySpec
begin

text \<open>
  The replies of the command server: each is a sequence of printable lines that fit a frame, a
  command always gets one, and only three commands change anything.
\<close>

section \<open>Printable texts\<close>

definition text_str :: "string \<Rightarrow> bool" where
  "text_str l = (\<forall>c \<in> set l. text_char c)"

lemma text_str_simps [simp]:
  "text_str []" "text_str (c # l) \<longleftrightarrow> text_char c \<and> text_str l"
  "text_str (l @ m) \<longleftrightarrow> text_str l \<and> text_str m"
  by (auto simp: text_str_def)

lemma text_char_digit: "is_digit_char c \<Longrightarrow> text_char c"
  by (simp add: text_char_def is_digit_char_def)

text \<open>The code of a literal character is decided on its bits.\<close>

lemma text_char_bits [simp]:
  "text_char (Char b0 b1 b2 b3 b4 b5 b6 b7) \<longleftrightarrow>
     \<not> b7 \<and> (b5 \<or> b6) \<and> \<not> (b0 \<and> b1 \<and> b2 \<and> b3 \<and> b4 \<and> b5 \<and> b6)"
  by (cases b0; cases b1; cases b2; cases b3; cases b4; cases b5; cases b6; cases b7)
    (simp_all add: text_char_def char_code_def)

lemma text_id_char: "is_id_char c \<Longrightarrow> text_char c"
  by (auto simp: is_id_char_def is_alnum_char_def is_digit_char_def text_char_def char_code_def)

lemma text_show_nat [simp]: "text_str (show_nat n)"
  by (auto simp: text_str_def text_char_digit dest: show_nat_digits)

lemma text_show_int [simp]: "text_str (show_int i)"
  by (auto simp: text_str_def text_char_digit dest: set_show_int)

lemma text_fmt_f2 [simp]: "is_finite64 x \<Longrightarrow> text_str (fmt_f2 x)"
  by (auto simp: text_str_def text_char_digit dest: set_fmt_f2)

lemma text_take [simp]: "text_str l \<Longrightarrow> text_str (take n l)"
  by (auto simp: text_str_def dest: in_set_takeD)

lemma text_snprintf [simp]: "text_str l \<Longrightarrow> text_str (snprintf n l)"
  by (simp add: snprintf_def)

lemma text_node_id [simp]: "is_valid_node_id k \<Longrightarrow> text_str k"
  by (simp add: text_str_def is_valid_node_id_def text_id_char)

lemma text_session [simp]: "is_valid_session k \<Longrightarrow> text_str k"
  by (auto simp: text_str_def is_valid_session_def is_session_char_def text_char_def)

lemma text_join: "(\<And>f. f \<in> set fs \<Longrightarrow> text_str f) \<Longrightarrow> text_char d \<Longrightarrow> text_str (join d fs)"
proof (induction fs)
  case (Cons f fs)
  then show ?case by (cases "fs = []") (simp_all add: join_Cons)
qed simp

lemma text_variable_names: "v \<in> set variable_names \<Longrightarrow> text_str v"
  by (auto simp: variable_names_def)

lemma text_alert_types: "v \<in> set alert_types \<Longrightarrow> text_str v \<and> length v \<le> 11"
  by (auto simp: alert_types_def)

lemma text_measurement: "measurement_ok m \<Longrightarrow> text_str (measurement_text m)"
  using measurement_ok_name[THEN text_variable_names, of m] measurement_ok_within(2)[of m]
  by (simp add: measurement_text_def)

lemma text_fields:
  assumes "\<And>k v. (k, v) \<in> set fs \<Longrightarrow> text_str k \<and> text_str v"
  shows "text_str (fields_text fs)"
  unfolding fields_text_def by (rule text_join) (use assms in auto)

lemma text_node_stats: "text_str (fields_text (node_stats_fields n))"
  by (rule text_fields) (auto simp: node_stats_fields_def)

lemma text_system_status: "text_str (fields_text (system_status_fields s e))"
  by (rule text_fields) (auto simp: system_status_fields_def)

section \<open>Lines that fit a frame\<close>

definition reply_line_ok :: "string \<Rightarrow> bool" where
  "reply_line_ok l = (l \<noteq> [] \<and> length l < MAX_LINE \<and> text_str l)"

lemma error_line_ok:
  "code \<in> {ERR_BAD_FORMAT, ERR_UNKNOWN_CMD, ERR_UNKNOWN_NODE, ERR_TOO_LONG, ERR_SERVER_FULL, ERR_ID_IN_USE} \<Longrightarrow>
     reply_line_ok (build_error_response 64 code)"
  by (elim insertE emptyE; simp only: err_defs; code_simp)

text \<open>What the numbers in the replies of a registry must satisfy: each is a C \<open>long\<close>.\<close>

definition reads_ok :: "registry_state \<Rightarrow> command_reads \<Rightarrow> bool" where
  "reads_ok st e =
     (clocks_long st (cr_status e) \<and>
      (\<forall>n \<in> set (rg_nodes (st_registry st)). is_long (tn_last_seen n) \<and> is_long (seconds_ago n (cr_now e)) \<and>
         is_long (tn_duplicates n)) \<and>
      (\<forall>a \<in> set (alert_log (st_registry st)). is_long (al_timestamp a)))"

lemma count_registered_long: "reg_wf st \<Longrightarrow> is_long (count_registered_nodes (st_registry st))"
  unfolding count_registered_nodes_def
  by (rule sum_bool_long) (simp add: reg_wf_def nodes_wf_def)

lemma ok_count_line: "is_long i \<Longrightarrow> reply_line_ok (snprintf MAX_LINE (''OK|'' @ show_int i))"
  using length_show_long[of i] by (simp add: reply_line_ok_def MAX_LINE_def)

lemma valid_node_id_length: "is_valid_node_id k \<Longrightarrow> length k \<le> 15"
  by (simp add: is_valid_node_id_def MAX_NODE_ID_def)

lemma node_line_ok:
  assumes "is_valid_node_id (tn_node_id n)" and "is_long (seconds_ago n now)"
  shows "reply_line_ok (node_line now n)"
  using valid_node_id_length[OF assms(1)] length_show_long[OF assms(2)] assms(1)
  by (simp add: reply_line_ok_def node_line_def MAX_LINE_def)

lemma stats_line_ok:
  assumes "is_valid_node_id (tn_node_id n)" and "is_valid_session (tn_session n)"
    and "\<forall>i \<in> set (node_numbers n). is_long i"
  shows "reply_line_ok (stats_line n)"
    and "stats_line n = tn_node_id n @ ''|'' @ tn_session n @ ''|'' @ fields_text (node_stats_fields n)"
proof -
  have "length (tn_session n) = 32" using assms(2) by (simp add: is_valid_session_def)
  moreover have "take 800 (fields_text (node_stats_fields n)) = fields_text (node_stats_fields n)"
    using node_stats_length[OF assms(3)] by simp
  ultimately show "reply_line_ok (stats_line n)"
    "stats_line n = tn_node_id n @ ''|'' @ tn_session n @ ''|'' @ fields_text (node_stats_fields n)"
    using valid_node_id_length[OF assms(1)] node_stats_length[OF assms(3)] format_node_stats_eq[OF assms(3)]
      text_node_stats[of n] assms(1,2)
    by (simp_all add: reply_line_ok_def stats_line_def MAX_LINE_def)
qed

lemma alert_line_fits:
  assumes "alert_ok a" and "is_long (al_timestamp a)"
  shows "reply_line_ok (alert_list_line a)"
proof -
  have "length (fmt_f2 (al_value a)) \<le> 7 + 4"
    using length_fmt_f2[of "al_value a" 1000000 7] assms(1) by (simp add: alert_ok_def)
  moreover have "text_str (fmt_f2 (al_value a))" using assms(1) by (simp add: alert_ok_def)
  moreover have "length (al_type a) \<le> 11 \<and> text_str (al_type a)"
    using text_alert_types assms(1) by (auto simp: alert_ok_def)
  ultimately show ?thesis
    using assms valid_node_id_length[of "al_node_id a"] length_show_long[OF assms(2)]
    by (simp add: reply_line_ok_def alert_list_line_def MAX_LINE_def alert_ok_def)
qed

lemma last_line_ok:
  assumes "is_valid_node_id (tn_node_id n)" and "measurements_ok (tn_measurements n)" and "is_long (tn_last_seen n)"
  shows "reply_line_ok (''OK|'' @ tn_node_id n @ ''|'' @ show_int (tn_last_seen n) @ ''|'' @
      join CHR '';'' (map measurement_text (tn_measurements n)))"
proof -
  have "text_str (join CHR '';'' (map measurement_text (tn_measurements n)))"
    by (rule text_join) (use assms(2) in \<open>auto simp: measurements_ok_def text_measurement\<close>)
  then show ?thesis
    using assms(1) valid_node_id_length[OF assms(1)] length_show_long[OF assms(3)] measurements_text_length[OF assms(2)]
    by (simp add: reply_line_ok_def MAX_LINE_def)
qed

section \<open>The replies\<close>

definition replies_ok :: "string list \<Rightarrow> bool" where
  "replies_ok ls = (ls \<noteq> [] \<and> (\<forall>l \<in> set ls. reply_line_ok l))"

lemma replies_ok_single [simp]: "replies_ok [l] \<longleftrightarrow> reply_line_ok l"
  by (simp add: replies_ok_def)

lemma replies_ok_word [simp]:
  "reply_line_ok ''OK|BYE''" "reply_line_ok ''OK|REPORTED''" "reply_line_ok ''OK|REGISTERED''"
  "reply_line_ok ''OK|SUBSCRIBED''" "reply_line_ok ''END''"
  by (simp_all add: reply_line_ok_def MAX_LINE_def)

lemma reply_error_ok:
  "code \<in> {ERR_BAD_FORMAT, ERR_UNKNOWN_CMD, ERR_UNKNOWN_NODE, ERR_TOO_LONG, ERR_SERVER_FULL, ERR_ID_IN_USE} \<Longrightarrow>
     replies_ok (reply_error code)"
  by (simp add: reply_error_def error_line_ok)

text \<open>A counted list: the header, one line per item, the end mark.\<close>

lemma counted_list_ok:
  assumes "is_long i" and "\<And>l. l \<in> set ls \<Longrightarrow> reply_line_ok l"
  shows "replies_ok (snprintf MAX_LINE (''OK|'' @ show_int i) # ls @ [''END''])"
  using ok_count_line[OF assms(1)] assms(2) by (auto simp: replies_ok_def)

lemma used_node:
  assumes "reg_wf st" and "n \<in> set (rg_nodes (st_registry st))" and "tn_in_use n"
  shows "is_valid_node_id (tn_node_id n)" and "is_valid_session (tn_session n)"
    and "measurements_ok (tn_measurements n)"
    and "is_long (tn_duplicates n) \<Longrightarrow> \<forall>i \<in> set (node_numbers n). is_long i"
proof -
  obtain i where "node_ok n (seen_at st i)" "card (seen_at st i) \<le> SESSION_LIMIT"
    using reg_wf_used[OF assms] by blast
  then show "is_valid_node_id (tn_node_id n)" and "is_valid_session (tn_session n)"
    and "measurements_ok (tn_measurements n)"
    and "is_long (tn_duplicates n) \<Longrightarrow> \<forall>i \<in> set (node_numbers n). is_long i"
    using node_numbers_long by (simp_all add: node_ok_def)
qed

lemma reply_node_list_ok:
  assumes "reg_wf st" and "reads_ok st e"
  shows "replies_ok (reply_node_list (st_registry st) (cr_now e))"
  unfolding reply_node_list_def
  by (rule counted_list_ok[OF count_registered_long[OF assms(1)]])
    (use assms(2) used_node(1)[OF assms(1)] in \<open>auto simp: reads_ok_def intro: node_line_ok\<close>)

lemma reply_stats_ok:
  assumes "reg_wf st" and "reads_ok st e"
  shows "replies_ok (reply_stats (st_registry st) k)"
proof (cases "\<exists>j. k = Some j \<and> snapshot_find_node (st_registry st) j = None")
  case True
  then show ?thesis using reply_error_ok[of ERR_UNKNOWN_NODE] by (simp add: reply_stats_def)
next
  case False
  have "is_long (if k \<noteq> None then 1 else count_registered_nodes (st_registry st))"
    using count_registered_long[OF assms(1)] by (simp add: is_long_def LONG_MAX_def)
  moreover have "reply_line_ok (stats_line n)" if "n \<in> set (rg_nodes (st_registry st))" "tn_in_use n" for n
    using stats_line_ok(1) used_node[OF assms(1) that] assms(2) that(1) by (simp add: reads_ok_def)
  ultimately have "replies_ok (snprintf MAX_LINE
        (''OK|'' @ show_int (if k \<noteq> None then 1 else count_registered_nodes (st_registry st))) #
      map stats_line (filter (\<lambda>n. tn_in_use n \<and> (k = None \<or> k = Some (tn_node_id n))) (rg_nodes (st_registry st)))
      @ [''END''])"
    by (intro counted_list_ok) auto
  then show ?thesis using False unfolding reply_stats_def by (simp only: if_False)
qed

lemma snapshot_find_node_eq: "snapshot_find_node r k = find_node r k"
  by (simp add: snapshot_find_node_def find_node_def)

lemma reply_last_eq:
  assumes "reg_wf st" and "find_node (st_registry st) k = Some i"
  shows "reply_last_measurement (st_registry st) k =
    (if tn_last_seen (node_at st i) = 0 then [''OK|'' @ k @ ''|0|NO_DATA'']
     else [snprintf (MAX_LINE * 2) (''OK|'' @ k @ ''|'' @ show_int (tn_last_seen (node_at st i)) @ ''|'' @
        join CHR '';'' (map measurement_text (tn_measurements (node_at st i))))])"
proof -
  note f = reg_wf_found[OF assms]
  have k: "length k \<le> 15" "measurements_ok (tn_measurements (node_at st i))"
    using f(3,4) by (auto simp: node_ok_def dest: valid_node_id_length)
  have "snprintf (MAX_LINE * 2) (''OK|'' @ k @ ''|0|NO_DATA'') = ''OK|'' @ k @ ''|0|NO_DATA''"
    using k(1) by (intro snprintf_fits) (simp add: MAX_LINE_def)
  then show ?thesis
    using f(3) assms(2)
    by (simp add: reply_last_measurement_def snapshot_find_node_eq Let_def format_measurements_eq[OF k(2)])
qed

lemma reply_last_ok:
  assumes "reg_wf st" and "reads_ok st e"
  shows "replies_ok (reply_last_measurement (st_registry st) k)"
proof (cases "find_node (st_registry st) k")
  case None
  then show ?thesis
    using reply_error_ok[of ERR_UNKNOWN_NODE] by (simp add: reply_last_measurement_def snapshot_find_node_eq)
next
  case (Some i)
  note f = reg_wf_found[OF assms(1) Some]
  let ?n = "node_at st i"
  let ?l = "''OK|'' @ k @ ''|'' @ show_int (tn_last_seen ?n) @ ''|'' @
        join CHR '';'' (map measurement_text (tn_measurements ?n))"
  have "?n \<in> set (rg_nodes (st_registry st))" using f(6) by simp
  then have "is_long (tn_last_seen ?n)" using assms(2) by (simp add: reads_ok_def)
  then have l: "reply_line_ok ?l" using last_line_ok[of ?n] f(3,4) by (simp add: node_ok_def)
  then have "snprintf (MAX_LINE * 2) ?l = ?l" by (intro snprintf_fits) (simp add: reply_line_ok_def MAX_LINE_def)
  moreover have "is_valid_node_id k" using f(3,4) by (simp add: node_ok_def)
  then have "reply_line_ok (''OK|'' @ k @ ''|0|NO_DATA'')"
    using valid_node_id_length[of k] by (simp add: reply_line_ok_def MAX_LINE_def)
  ultimately show ?thesis using l by (simp only: reply_last_eq[OF assms(1) Some] replies_ok_single split: if_split) simp
qed

lemma reply_status_ok:
  assumes "reg_wf st" and "reads_ok st e"
  shows "replies_ok (reply_status (st_registry st) (cr_status e))"
proof -
  have longs: "\<forall>i \<in> set (status_numbers (st_registry st) (cr_status e)). is_long i"
    using assms by (intro status_numbers_long) (simp_all add: reads_ok_def)
  show ?thesis
    using format_system_status_eq[OF longs] system_status_length[OF longs] text_system_status
    by (simp add: reply_status_def reply_line_ok_def MAX_LINE_def)
qed

text \<open>The loop over the ring visits the log of the last alerts, oldest first.\<close>

lemma upto_upt: "[int i .. int j - 1] = map int [i ..< j]"
proof (induction j)
  case (Suc j)
  show ?case
  proof (cases "i \<le> j")
    case True
    then have "[int i .. int (Suc j) - 1] = [int i .. int j - 1] @ [int j]"
      using upto_rec2[of "int i" "int j"] by simp
    then show ?thesis using Suc True by simp
  qed simp
qed simp

lemma ring_loop:
  assumes "ring_ok r" and "k \<le> MAX_ALERTS"
  shows "(let total = rg_total_alerts r; shown = (if total < int k then total else int k)
      in map (\<lambda>i. f (ring_alert r i)) [total - shown .. total - 1]) = map f (last_n k (alert_log r))"
proof -
  obtain t where t: "rg_total_alerts r = int t"
    using assms(1) by (metis ring_ok_def nonneg_int_cases)
  have at: "ring_alert r (int j) = rg_alerts r ! (j mod MAX_ALERTS)" for j
    by (simp add: ring_alert_def nat_mod_distrib)
  have lo: "rg_total_alerts r - (if rg_total_alerts r < int k then rg_total_alerts r else int k) = int (t - k)"
    by (auto simp: t)
  have "(t - MAX_ALERTS) + (length (alert_log r) - k) = t - k"
    using assms(2) by (auto simp: length_alert_log t)
  then have "last_n k (alert_log r) = map (\<lambda>j. rg_alerts r ! (j mod MAX_ALERTS)) [t - k ..< t]"
    unfolding last_n_def by (simp add: alert_log_def t drop_map)
  then show ?thesis unfolding Let_def lo unfolding t upto_upt by (simp add: at comp_def)
qed

lemma reply_alert_list_eq:
  assumes "ring_ok r"
  shows "reply_alert_list r =
    snprintf MAX_LINE (''OK|'' @ show_int (int (length (alert_log r)))) #
      map alert_list_line (alert_log r) @ [''END'']"
proof -
  obtain t where t: "rg_total_alerts r = int t"
    using assms by (metis ring_ok_def nonneg_int_cases)
  define shown where "shown = (if rg_total_alerts r < int MAX_ALERTS then rg_total_alerts r else int MAX_ALERTS)"
  have shown: "shown = int (length (alert_log r))"
    by (auto simp: shown_def length_alert_log t)
  have "map (\<lambda>index. alert_list_line (ring_alert r index)) [rg_total_alerts r - shown .. rg_total_alerts r - 1] =
      map alert_list_line (alert_log r)"
    using ring_loop[OF assms order_refl, of alert_list_line] length_alert_log_le[of r] by (simp only: Let_def shown_def last_n_id)
  then show ?thesis by (simp add: reply_alert_list_def Let_def shown flip: shown_def)
qed

lemma reply_alert_list_ok:
  assumes "reg_wf st" and "reads_ok st e"
  shows "replies_ok (reply_alert_list (st_registry st))"
proof -
  have ring: "ring_ok (st_registry st)" and ok: "\<forall>a \<in> set (alert_log (st_registry st)). alert_ok a"
    using assms(1) by (simp_all add: reg_wf_def alerts_wf_def)
  show ?thesis
    unfolding reply_alert_list_eq[OF ring]
  proof (rule counted_list_ok)
    show "is_long (int (length (alert_log (st_registry st))))"
      by (rule is_long_small) (simp_all add: length_alert_log MAX_ALERTS_def)
  qed (use ok assms(2) in \<open>auto simp: reads_ok_def intro: alert_line_fits\<close>)
qed

end
