(* ===== verification/Tcp_Props.thy ===== *)
theory Tcp_Props
  imports Tcp_Facts
begin

text \<open>
  What one command does to the state the threads share, for every line a client can send, and the
  properties of the command server.
\<close>

section \<open>Reports\<close>

definition shared_wf :: "shared_state \<Rightarrow> bool" where
  "shared_wf st = (reg_wf (sh_registry st) \<and> subs_wf (sh_subscribers st))"

text \<open>The arguments of a report that the server takes to the registry.\<close>

definition report_in_range :: "int \<Rightarrow> int \<Rightarrow> int \<Rightarrow> int \<Rightarrow> int \<Rightarrow> bool" where
  "report_in_range a s om er f =
     (0 \<le> a \<and> 0 \<le> s \<and> 0 \<le> om \<and> 0 \<le> er \<and> a \<le> int SESSION_LIMIT \<and> f \<in> {0, 1})"

lemma report_values_range:
  assumes "\<forall>v \<in> set (report_values args). v \<noteq> None"
  shows "report_in_range (map the (report_values args) ! 0) (map the (report_values args) ! 1)
    (map the (report_values args) ! 2) (map the (report_values args) ! 3) (map the (report_values args) ! 4)"
proof -
  obtain a s om er f where v: "report_values args = [Some a, Some s, Some om, Some er, Some f]"
    using assms by (auto simp: report_values_def)
  have "parse_uint (args ! 2) (int SESSION_LIMIT) = Some a" "parse_uint (args ! 3) (int SESSION_LIMIT) = Some s"
    "parse_uint (args ! 4) (int SESSION_LIMIT) = Some om" "parse_uint (args ! 5) (int SESSION_LIMIT) = Some er"
    "parse_uint (args ! 6) 1 = Some f"
    using v by (simp_all add: report_values_def numeral_eq_Suc)
  then have "0 \<le> a \<and> a \<le> int SESSION_LIMIT" "0 \<le> s" "0 \<le> om" "0 \<le> er" "0 \<le> f \<and> f \<le> 1"
    using parse_uint_range by blast+
  then show ?thesis by (auto simp: v report_in_range_def)
qed

text \<open>The condition \<open>valid\<close> of the report branch.\<close>

definition report_args_ok :: "string list \<Rightarrow> bool" where
  "report_args_ok args =
     (is_valid_node_id (args ! 0) \<and> is_valid_session (args ! 1) \<and> (\<forall>v \<in> set (report_values args). v \<noteq> None))"

lemma command_report_eq:
  "command_report args st =
     (if \<not> report_args_ok args then Inr (False, reply_error ERR_BAD_FORMAT, st)
      else
        let v = map the (report_values args)
        in bindF (registry_report (args ! 0) (args ! 1) (v ! 0) (v ! 1) (v ! 2) (v ! 3) (v ! 4) (sh_registry st))
             (\<lambda>(result, reg).
               Inr (False, if result \<noteq> 0 then reply_error result else [''OK|REPORTED''], st\<lparr>sh_registry := reg\<rparr>)))"
  by (simp only: command_report_def report_args_ok_def Let_def)

lemma command_report_cases:
  assumes "command_report args st = Inr (close, reply, st')"
  obtains (bad) "\<not> close" "st' = st" "reply = reply_error ERR_BAD_FORMAT"
  | (ran) k s a sn om er f rc reg where "\<not> close" "report_in_range a sn om er f"
      "registry_report k s a sn om er f (sh_registry st) = Inr (rc, reg)"
      "reply = (if rc \<noteq> 0 then reply_error rc else [''OK|REPORTED''])" "st' = st\<lparr>sh_registry := reg\<rparr>"
proof (cases "report_args_ok args")
  case True
  define v where "v = map the (report_values args)"
  have range: "report_in_range (v ! 0) (v ! 1) (v ! 2) (v ! 3) (v ! 4)"
    unfolding v_def by (rule report_values_range) (use True in \<open>simp add: report_args_ok_def\<close>)
  obtain rc reg where run: "registry_report (args ! 0) (args ! 1) (v ! 0) (v ! 1) (v ! 2) (v ! 3) (v ! 4)
      (sh_registry st) = Inr (rc, reg)"
    and out: "(close, reply, st') = (False, if rc \<noteq> 0 then reply_error rc else [''OK|REPORTED''],
      st\<lparr>sh_registry := reg\<rparr>)"
    using assms True unfolding command_report_eq v_def[symmetric] Let_def by (auto simp: bindF_eq_Inr simp del: One_nat_def)
  show thesis by (rule ran[OF _ range run]) (use out in simp_all)
next
  case False
  then show thesis using assms bad by (simp add: command_report_eq)
qed

lemma command_report_total:
  assumes "shared_wf st"
  obtains reply st' where "command_report args st = Inr (False, reply, st')" and "replies_ok reply"
proof (cases "report_args_ok args")
  case True
  define v where "v = map the (report_values args)"
  have range: "report_in_range (v ! 0) (v ! 1) (v ! 2) (v ! 3) (v ! 4)"
    unfolding v_def by (rule report_values_range) (use True in \<open>simp add: report_args_ok_def\<close>)
  have wf: "reg_wf (sh_registry st)" using assms by (simp add: shared_wf_def)
  obtain rc reg where run: "registry_report (args ! 0) (args ! 1) (v ! 0) (v ! 1) (v ! 2) (v ! 3) (v ! 4)
      (sh_registry st) = Inr (rc, reg)" and rc: "rc \<in> {0, ERR_UNKNOWN_NODE, ERR_BAD_FORMAT}"
    using range unfolding report_in_range_def by (metis report_total[OF wf])
  have "replies_ok (if rc \<noteq> 0 then reply_error rc else [''OK|REPORTED''])"
    using rc reply_error_ok[of rc] by auto
  moreover have "command_report args st = Inr (False, if rc \<noteq> 0 then reply_error rc else [''OK|REPORTED''],
      st\<lparr>sh_registry := reg\<rparr>)"
    using True unfolding command_report_eq v_def[symmetric] Let_def run by simp
  ultimately show ?thesis using that by blast
next
  case False
  then have "command_report args st = Inr (False, reply_error ERR_BAD_FORMAT, st)"
    by (simp add: command_report_eq)
  then show ?thesis using that reply_error_ok[of ERR_BAD_FORMAT] by simp
qed

section \<open>The effect of a command\<close>

lemma command_hello_cases:
  assumes "command_hello args st = Inr (close, reply, st')"
  obtains (bad) "\<not> close" "st' = st" "reply = reply_error ERR_BAD_FORMAT"
  | (ran) rc reg where "\<not> close" "is_valid_session (args ! 1)"
      "registry_register_node (args ! 0) (args ! 1) (sh_registry st) = Inr (rc, reg)"
      "reply = (if rc \<noteq> 0 then reply_error rc else [''OK|REGISTERED''])" "st' = st\<lparr>sh_registry := reg\<rparr>"
proof (cases "is_valid_session (args ! 1)")
  case True
  then obtain rc reg where "registry_register_node (args ! 0) (args ! 1) (sh_registry st) = Inr (rc, reg)"
    "(close, reply, st') = (False, if rc \<noteq> 0 then reply_error rc else [''OK|REGISTERED''], st\<lparr>sh_registry := reg\<rparr>)"
    using assms by (auto simp: command_hello_def bindF_eq_Inr simp del: One_nat_def)
  then show thesis using True by (intro ran) simp_all
next
  case False
  then show thesis using assms bad by (simp add: command_hello_def)
qed

text \<open>Three commands change the shared state; every other line leaves it as it is.\<close>

lemma handle_command_effect:
  assumes "handle_command fd line e st = Inr (close, reply, st')"
  obtains (same) "st' = st"
  | (hello) k s rc reg where "is_valid_node_id k" "is_valid_session s"
      "registry_register_node k s (sh_registry st) = Inr (rc, reg)" "st' = st\<lparr>sh_registry := reg\<rparr>"
  | (report) k s a sn om er f rc reg where "report_in_range a sn om er f"
      "registry_report k s a sn om er f (sh_registry st) = Inr (rc, reg)" "st' = st\<lparr>sh_registry := reg\<rparr>"
  | (subscribe) rc subs where "subscribers_add fd (sh_subscribers st) = (rc, subs)"
      "st' = st\<lparr>sh_subscribers := subs\<rparr>"
proof (cases "parse_message line")
  case None
  then show ?thesis using assms same by (simp add: handle_command_def)
next
  case (Some m)
  then have d: "dispatch fd m e st = Inr (close, reply, st')" using assms by (simp add: handle_command_def)
  consider "st' = st" | "command_report (pm_args m) st = Inr (close, reply, st')"
    | "command_subscribe fd st = (close, reply, st')"
    | "command_hello (pm_args m) st = Inr (close, reply, st')" "is_valid_node_id (pm_args m ! 0)"
    using d unfolding dispatch_def Let_def by (auto split: if_splits)
  then show ?thesis
  proof cases
    case 1
    then show ?thesis by (rule same)
  next
    case 2
    then show ?thesis by (cases rule: command_report_cases) (auto intro: same report)
  next
    case 3
    then show ?thesis by (auto simp: command_subscribe_def split: prod.splits intro: subscribe)
  next
    case 4
    from 4(1) show ?thesis
      by (cases rule: command_hello_cases) (auto intro: same hello[OF 4(2)] simp del: One_nat_def)
  qed
qed

lemma report_keeps:
  assumes "reg_wf st" and "report_in_range a sn om er f"
    and "registry_report k s a sn om er f st = Inr (rc, st')"
  shows "reg_wf st'"
proof -
  have "0 \<le> sn" "0 \<le> om" "0 \<le> er" "a \<le> int SESSION_LIMIT" "f \<in> {0, 1}"
    using assms(2) by (simp_all add: report_in_range_def)
  from report_total[OF assms(1) this, of k s] show ?thesis using assms(3) by (metis Inr_inject prod.inject)
qed

lemma register_keeps:
  assumes "reg_wf st" and "is_valid_node_id k" and "is_valid_session s"
    and "registry_register_node k s st = Inr (rc, st')"
  shows "reg_wf st'"
  by (rule register_total[OF assms(1-3)]) (use assms(4) in simp)

lemma handle_command_wf:
  assumes "shared_wf st" and "fd \<noteq> 0" and "handle_command fd line e st = Inr (close, reply, st')"
  shows "shared_wf st'"
  using assms(3)
proof (cases rule: handle_command_effect)
  case (hello k s rc reg)
  then show ?thesis using assms(1) register_keeps by (auto simp: shared_wf_def)
next
  case (report k s a sn om er f rc reg)
  then show ?thesis using assms(1) report_keeps by (auto simp: shared_wf_def)
next
  case (subscribe rc subs)
  then show ?thesis
    using assms(1) subscribers_add_wf[OF _ assms(2), of "sh_subscribers st"] by (simp add: shared_wf_def)
qed (use assms(1) in simp)

lemma handle_command_same:
  assumes "shared_wf st" and "handle_command fd line e st = Inr (close, reply, st')"
  shows "same_accounts (sh_registry st) (sh_registry st')"
  using assms(2)
proof (cases rule: handle_command_effect)
  case (hello k s rc reg)
  then show ?thesis using assms(1) same_register[of "sh_registry st" k s rc reg] by (simp add: shared_wf_def)
next
  case (report k s a sn om er f rc reg)
  then show ?thesis
    using assms(1) same_report[of "sh_registry st" a k s sn om er f rc reg]
    by (simp add: shared_wf_def report_in_range_def)
qed simp_all

lemma handle_command_accounts:
  assumes "shared_wf st" and "accounts_ok (sh_registry st)" and "handle_command fd line e st = Inr (close, reply, st')"
  shows "accounts_ok (sh_registry st')"
  using same_accounts_ok[OF handle_command_same[OF assms(1,3)] assms(2)] .

lemma handle_command_grows:
  assumes "shared_wf st" and "handle_command fd line e st = Inr (close, reply, st')"
  shows "nodes_le (sh_registry st) (sh_registry st')"
  using assms(2)
proof (cases rule: handle_command_effect)
  case (hello k s rc reg)
  then show ?thesis using assms(1) register_grows[of "sh_registry st" k s rc reg] by (simp add: shared_wf_def)
next
  case (report k s a sn om er f rc reg)
  then show ?thesis
    using assms(1) report_grows[of "sh_registry st" a k s sn om er f rc reg]
    by (simp add: shared_wf_def report_in_range_def)
qed simp_all

lemma parse_bye: "parse_message ''BYE'' = Some \<lparr>pm_command = ''BYE'', pm_args = []\<rparr>"
  by code_simp

section \<open>The table of commands\<close>

text \<open>The commands of \<^verbatim>\<open>docs/PROTOCOL.md\<close> with the numbers of arguments they take.\<close>

definition command_table :: "(string \<times> nat list) list" where
  "command_table =
     [(''HELLO'', [2]), (''REPORT'', [7]), (''GET_LAST'', [1]), (''STATS'', [0, 1]), (''BYE'', [0]),
      (''GET_STATUS'', [0]), (''GET_NODES'', [0]), (''GET_ALERTS'', [0]), (''SUBSCRIBE'', [0])]"

text \<open>What each command does once its number of arguments is right.\<close>

definition run_command :: "int \<Rightarrow> ParsedMessage \<Rightarrow> command_reads \<Rightarrow> shared_state \<Rightarrow> fault + command_result" where
  "run_command fd m e st =
     (let c = pm_command m; args = pm_args m; snapshot = st_registry (sh_registry st);
          bad = Inr (False, reply_error ERR_BAD_FORMAT, st)
      in if c = ''HELLO'' then (if is_valid_node_id (args ! 0) then command_hello args st else bad)
         else if c = ''REPORT'' then command_report args st
         else if c = ''GET_LAST'' then
           (if is_valid_node_id (args ! 0) then Inr (False, reply_last_measurement snapshot (args ! 0), st) else bad)
         else if c = ''STATS'' then
           (if args = [] then Inr (False, reply_stats snapshot None, st)
            else if is_valid_node_id (args ! 0) then Inr (False, reply_stats snapshot (Some (args ! 0)), st) else bad)
         else if c = ''BYE'' then Inr (True, [''OK|BYE''], st)
         else if c = ''GET_STATUS'' then Inr (False, reply_status snapshot (cr_status e), st)
         else if c = ''GET_NODES'' then Inr (False, reply_node_list snapshot (cr_now e), st)
         else if c = ''GET_ALERTS'' then Inr (False, reply_alert_list snapshot, st)
         else Inr (command_subscribe fd st))"

lemma known_command:
  "c \<in> set (map fst command_table) \<longleftrightarrow>
     c = ''HELLO'' \<or> c = ''REPORT'' \<or> c = ''GET_LAST'' \<or> c = ''STATS'' \<or> c = ''BYE'' \<or> c = ''GET_STATUS'' \<or>
     c = ''GET_NODES'' \<or> c = ''GET_ALERTS'' \<or> c = ''SUBSCRIBE''"
  by (simp add: command_table_def)

lemma command_table_arity:
  "(case map_of command_table c of None \<Rightarrow> expected_args c n < 0 | Some ns \<Rightarrow> 0 \<le> expected_args c n \<and>
      (int n = expected_args c n \<longleftrightarrow> n \<in> set ns))"
proof (cases "c \<in> set (map fst command_table)")
  case True
  then show ?thesis
    unfolding known_command by (elim disjE) (auto simp: command_table_def expected_args_def)
next
  case False
  then have "map_of command_table c = None" by (simp add: map_of_eq_None_iff)
  moreover have "expected_args c n = - 1" using False unfolding known_command expected_args_def by simp
  ultimately show ?thesis by simp
qed

lemma dispatch_run:
  assumes "map_of command_table (pm_command m) = Some ns" and "length (pm_args m) \<in> set ns"
  shows "dispatch fd m e st = run_command fd m e st"
proof -
  have arity: "0 \<le> expected_args (pm_command m) (length (pm_args m))"
    "int (length (pm_args m)) = expected_args (pm_command m) (length (pm_args m))"
    using assms command_table_arity[of "pm_command m" "length (pm_args m)"] by simp_all
  have run: "\<not> expected_args (pm_command m) (length (pm_args m)) < 0"
    "\<not> int (length (pm_args m)) \<noteq> expected_args (pm_command m) (length (pm_args m))"
    using arity by simp_all
  have first: "(if 1 \<le> length (pm_args m) then Some (pm_args m ! 0) else None) =
      (if pm_args m = [] then None else Some (pm_args m ! 0))"
    by (cases "pm_args m") simp_all
  have len: "pm_command m = ''HELLO'' \<or> pm_command m = ''GET_LAST'' \<Longrightarrow> pm_args m \<noteq> []"
    using arity(2) by (auto simp: expected_args_def)
  have "pm_command m \<in> set (map fst command_table)"
    using map_of_SomeD[OF assms(1)] by force
  then show ?thesis
    unfolding known_command dispatch_def run_command_def Let_def first registry_copy_snapshot_def
    by (elim disjE) (use arity len in \<open>simp_all add: expected_args_def split: if_splits\<close>)
qed

lemma dispatch_refuses:
  "map_of command_table (pm_command m) = None \<Longrightarrow>
     dispatch fd m e st = Inr (False, reply_error ERR_UNKNOWN_CMD, st)"
  "map_of command_table (pm_command m) = Some ns \<Longrightarrow> length (pm_args m) \<notin> set ns \<Longrightarrow>
     dispatch fd m e st = Inr (False, reply_error ERR_BAD_FORMAT, st)"
  using command_table_arity[of "pm_command m" "length (pm_args m)"]
  by (auto simp: dispatch_def Let_def split: option.splits)

text \<open>A command always returns, and its reply is a non-empty list of lines that fit.\<close>

lemma command_subscribe_replies: "replies_ok (fst (snd (command_subscribe fd st)))"
  using reply_error_ok[of ERR_SERVER_FULL] by (simp add: command_subscribe_def split: prod.splits)

lemma command_hello_total:
  assumes "shared_wf st" and "is_valid_node_id (args ! 0)"
  obtains reply st' where "command_hello args st = Inr (False, reply, st')" and "replies_ok reply"
proof (cases "is_valid_session (args ! 1)")
  case False
  then show ?thesis using that reply_error_ok[of ERR_BAD_FORMAT] by (simp add: command_hello_def)
next
  case True
  have "reg_wf (sh_registry st)" using assms(1) by (simp add: shared_wf_def)
  then obtain rc reg where run: "registry_register_node (args ! 0) (args ! 1) (sh_registry st) = Inr (rc, reg)"
    and rc: "rc \<in> {0, ERR_ID_IN_USE, ERR_SERVER_FULL}"
    using register_total assms(2) True by metis
  have "replies_ok (if rc \<noteq> 0 then reply_error rc else [''OK|REGISTERED''])"
    using rc reply_error_ok[of rc] by auto
  then show ?thesis using that run True by (simp add: command_hello_def)
qed

lemma run_command_total:
  assumes "shared_wf st" and "reads_ok (sh_registry st) e"
  shows "\<exists>reply st'. run_command fd m e st = Inr (pm_command m = ''BYE'', reply, st') \<and> replies_ok reply"
proof -
  have wf: "reg_wf (sh_registry st)" using assms(1) by (simp add: shared_wf_def)
  note queries = reply_status_ok[OF wf assms(2)] reply_node_list_ok[OF wf assms(2)] reply_stats_ok[OF wf assms(2)]
    reply_last_ok[OF wf assms(2)] reply_alert_list_ok[OF wf assms(2)] reply_error_ok[of ERR_BAD_FORMAT]
  have hello: "\<exists>reply st'. command_hello (pm_args m) st = Inr (False, reply, st') \<and> replies_ok reply"
    if "is_valid_node_id (pm_args m ! 0)" using command_hello_total[OF assms(1) that] by metis
  have report: "\<exists>reply st'. command_report (pm_args m) st = Inr (False, reply, st') \<and> replies_ok reply"
    using command_report_total[OF assms(1), of "pm_args m"] by metis
  obtain rl st' where "command_subscribe fd st = (False, rl, st')"
    by (cases "subscribers_add fd (sh_subscribers st)") (auto simp: command_subscribe_def)
  then have subscribe: "\<exists>reply st'. command_subscribe fd st = (False, reply, st') \<and> replies_ok reply"
    using command_subscribe_replies[of fd st] by simp
  show ?thesis
    unfolding run_command_def Let_def using queries hello report subscribe by simp
qed

lemma handle_command_total:
  assumes "shared_wf st" and "reads_ok (sh_registry st) e"
  shows "\<exists>reply st'. handle_command fd line e st = Inr (line = ''BYE'', reply, st') \<and> replies_ok reply"
proof (cases "parse_message line")
  case None
  then have "line \<noteq> ''BYE''" by (metis option.distinct(1) parse_bye)
  then show ?thesis using None reply_error_ok[of ERR_BAD_FORMAT] by (simp add: handle_command_def)
next
  case (Some m)
  then have line: "line = message_line m" by (simp add: parse_message_iff)
  have bye: "line = ''BYE'' \<longleftrightarrow> pm_command m = ''BYE'' \<and> pm_args m = []"
    using Some by (auto simp: parse_bye line message_line_def)
  have run: "handle_command fd line e st = dispatch fd m e st" using Some by (simp add: handle_command_def)
  note errs = reply_error_ok[of ERR_BAD_FORMAT] reply_error_ok[of ERR_UNKNOWN_CMD]
  show ?thesis
  proof (cases "map_of command_table (pm_command m)")
    case None
    then have "pm_command m \<noteq> ''BYE''" by (auto simp: command_table_def)
    then show ?thesis using bye run errs dispatch_refuses(1)[OF None] by simp
  next
    case (Some ns)
    show ?thesis
    proof (cases "length (pm_args m) \<in> set ns")
      case True
      then have "pm_command m = ''BYE'' \<longrightarrow> pm_args m = []" using Some by (auto simp: command_table_def)
      then show ?thesis
        using run_command_total[OF assms, of fd m] dispatch_run[OF Some True] run bye by auto
    next
      case False
      then have "line \<noteq> ''BYE''" using Some bye by (auto simp: command_table_def)
      then show ?thesis using run errs dispatch_refuses(2)[OF Some False] by simp
    qed
  qed
qed

section \<open>A state with one node\<close>

definition demo_reads :: command_reads where
  "demo_reads = \<lparr>cr_status = demo_status, cr_now = 160\<rparr>"

definition demo_state :: shared_state where
  "demo_state = \<lparr>sh_registry = one_node, sh_subscribers = subscribers_init\<rparr>"

lemma demo_reads_ok: "reads_ok one_node demo_reads"
proof -
  have "alert_log (st_registry one_node) = []" by (simp add: alert_log_def one_node_at(4))
  then show ?thesis
    using demo_status_long
    by (auto simp: reads_ok_def one_node_nodes demo_reads_def fresh_node_def zero_node_def
        seconds_ago_def is_long_def LONG_MAX_def)
qed

lemma demo_state_wf: "shared_wf demo_state" "reads_ok (sh_registry demo_state) demo_reads"
  using one_node_wf subscribers_init_wf demo_reads_ok by (simp_all add: shared_wf_def demo_state_def)

section \<open>Properties\<close>

text \<open>C11: the dispatcher implements the table of the protocol: a line that is not a message gets
  100, a command that is not in the table 101, a known command with another number of arguments
  100, and every other line runs its command. The fallback branches after the dispatch are dead.\<close>

theorem commands_follow_table:
  "handle_command fd line e st =
     (case parse_message line of
        None \<Rightarrow> Inr (False, reply_error ERR_BAD_FORMAT, st)
      | Some m \<Rightarrow>
          (case map_of command_table (pm_command m) of
             None \<Rightarrow> Inr (False, reply_error ERR_UNKNOWN_CMD, st)
           | Some ns \<Rightarrow>
               if length (pm_args m) \<in> set ns then run_command fd m e st
               else Inr (False, reply_error ERR_BAD_FORMAT, st)))"
  by (auto simp: handle_command_def dispatch_run dispatch_refuses split: option.splits)

text \<open>C8: whatever line a client sends, the command returns without undefined behaviour, the shared
  state stays well formed, the client gets at least one line, every line of the reply is printable
  and fits a frame (so \<open>send_text_line\<close> never drops it), and the connection is closed only by
  \<open>BYE\<close>.\<close>

theorem every_command_answered:
  assumes "shared_wf st" and "fd \<noteq> 0" and "reads_ok (sh_registry st) e"
  shows "\<exists>reply st'. handle_command fd line e st = Inr (line = ''BYE'', reply, st') \<and>
    shared_wf st' \<and> replies_ok reply"
  using handle_command_total[OF assms(1,3), of fd line] handle_command_wf[OF assms(1,2)] by blast

lemma every_command_answered_witness:
  "\<exists>reply st'. handle_command 7 ''GET_NODES'' demo_reads demo_state = Inr (False, reply, st') \<and> replies_ok reply"
  using every_command_answered[OF demo_state_wf(1) _ demo_state_wf(2), of 7 "''GET_NODES''"] by auto

text \<open>C32: only \<open>HELLO\<close>, \<open>REPORT\<close> and \<open>SUBSCRIBE\<close> can change the state the threads share; the
  queries, \<open>BYE\<close> and every refused line leave it as it is.\<close>

theorem queries_change_nothing:
  assumes "handle_command fd line e st = Inr (close, reply, st')"
    and "\<forall>m. parse_message line = Some m \<longrightarrow> pm_command m \<notin> {''HELLO'', ''REPORT'', ''SUBSCRIBE''}"
  shows "st' = st"
proof (cases "parse_message line")
  case None
  then show ?thesis using assms(1) by (simp add: handle_command_def)
next
  case (Some m)
  then have cmd: "pm_command m \<noteq> ''HELLO''" "pm_command m \<noteq> ''REPORT''" "pm_command m \<noteq> ''SUBSCRIBE''"
    using assms(2) by auto
  have d: "dispatch fd m e st = Inr (close, reply, st')" using assms(1) Some by (simp add: handle_command_def)
  show ?thesis
  proof (cases "\<exists>ns. map_of command_table (pm_command m) = Some ns \<and> length (pm_args m) \<in> set ns")
    case False
    then show ?thesis
      using d dispatch_refuses[of m] by (cases "map_of command_table (pm_command m)") auto
  next
    case True
    then obtain ns where ns: "map_of command_table (pm_command m) = Some ns" "length (pm_args m) \<in> set ns" by blast
    have "pm_command m \<in> set (map fst command_table)" using map_of_SomeD[OF ns(1)] by force
    then show ?thesis
      using d unfolding dispatch_run[OF ns] known_command run_command_def Let_def
      by (elim disjE) (use cmd in \<open>auto split: if_splits\<close>)
  qed
qed

lemma queries_change_nothing_witness:
  "\<exists>close reply. handle_command 7 ''GET_ALERTS'' demo_reads demo_state = Inr (close, reply, demo_state)"
proof -
  obtain reply st' where run: "handle_command 7 ''GET_ALERTS'' demo_reads demo_state = Inr (False, reply, st')"
    using handle_command_total[OF demo_state_wf, of 7 "''GET_ALERTS''"] by auto
  have "parse_message ''GET_ALERTS'' = Some \<lparr>pm_command = ''GET_ALERTS'', pm_args = []\<rparr>" by code_simp
  then have "st' = demo_state" using queries_change_nothing[OF run] by simp
  then show ?thesis using run by blast
qed

text \<open>C30: the reply to \<open>GET_ALERTS\<close> is the log of the last 128 alerts, oldest first, between its
  count and \<open>END\<close>.\<close>

theorem alert_list_is_log:
  assumes "reg_wf st"
  shows "reply_alert_list (st_registry st) =
    snprintf MAX_LINE (''OK|'' @ show_int (int (length (alert_log (st_registry st))))) #
      map alert_list_line (alert_log (st_registry st)) @ [''END'']"
  using assms by (intro reply_alert_list_eq) (simp add: reg_wf_def alerts_wf_def)

lemma alert_list_is_log_witness: "reply_alert_list (st_registry one_node) = [''OK|0'', ''END'']"
proof -
  have "alert_log (st_registry one_node) = []" by (simp add: alert_log_def one_node_at(4))
  moreover have "snprintf MAX_LINE (''OK|'' @ show_int 0) = ''OK|0''" by code_simp
  ultimately show ?thesis using alert_list_is_log[OF one_node_wf] by simp
qed

lemma count_registered_length: "count_registered_nodes r = int (length (filter tn_in_use (rg_nodes r)))"
proof -
  have "(\<Sum>n \<leftarrow> ns. of_bool (tn_in_use n)) = int (length (filter tn_in_use ns))" for ns
    by (induction ns) auto
  then show ?thesis by (simp add: count_registered_nodes_def)
qed

lemma filter_unique:
  "i < length xs \<Longrightarrow> P (xs ! i) \<Longrightarrow> (\<And>j. j < length xs \<Longrightarrow> P (xs ! j) \<Longrightarrow> j = i) \<Longrightarrow> filter P xs = [xs ! i]"
proof (induction xs arbitrary: i)
  case (Cons x xs)
  show ?case
  proof (cases i)
    case 0
    have "\<not> P (xs ! j)" if "j < length xs" for j using Cons.prems(3)[of "Suc j"] that 0 by auto
    then have "filter P xs = []" by (auto simp: filter_empty_conv in_set_conv_nth)
    then show ?thesis using Cons.prems(2) 0 by simp
  next
    case (Suc k)
    then have "\<not> P x" using Cons.prems(3)[of 0] by auto
    moreover have "filter P xs = [xs ! k]"
    proof (rule Cons.IH)
      show "j = k" if "j < length xs" "P (xs ! j)" for j using Cons.prems(3)[of "Suc j"] that Suc by simp
    qed (use Cons.prems Suc in simp_all)
    ultimately show ?thesis using Suc by simp
  qed
qed simp

lemma one_node_stats_filter:
  assumes "reg_wf st" and "find_node (st_registry st) k = Some i"
  shows "filter (\<lambda>n. tn_in_use n \<and> tn_node_id n = k) (rg_nodes (st_registry st)) = [node_at st i]"
proof (rule filter_unique)
  note f = reg_wf_found[OF assms]
  show "i < length (rg_nodes (st_registry st))" by (rule f(6))
  show "tn_in_use (node_at st i) \<and> tn_node_id (node_at st i) = k" using f by simp
  show "j = i" if "j < length (rg_nodes (st_registry st))" "tn_in_use (node_at st j) \<and> tn_node_id (node_at st j) = k" for j
    using assms(1) that f by (auto simp: reg_wf_def nodes_wf_def)
qed

lemma find_filter_hd: "find P xs = (case filter P xs of [] \<Rightarrow> None | x # _ \<Rightarrow> Some x)"
  by (induction xs) auto

lemma used_ids_distinct:
  assumes "reg_wf st"
  shows "distinct (map tn_node_id (filter tn_in_use (rg_nodes (st_registry st))))"
proof -
  define ns where "ns = rg_nodes (st_registry st)"
  have "distinct (map tn_node_id (filter tn_in_use xs))"
    if "\<forall>i < length xs. \<forall>j < length xs. tn_in_use (xs ! i) \<and> tn_in_use (xs ! j) \<and> tn_node_id (xs ! i) = tn_node_id (xs ! j) \<longrightarrow> i = j"
    for xs using that
  proof (induction xs)
    case (Cons x xs)
    have "distinct (map tn_node_id (filter tn_in_use xs))"
    proof (rule Cons.IH, intro allI impI)
      fix i j assume "i < length xs" "j < length xs"
        "tn_in_use (xs ! i) \<and> tn_in_use (xs ! j) \<and> tn_node_id (xs ! i) = tn_node_id (xs ! j)"
      then show "i = j" using Cons.prems[rule_format, of "Suc i" "Suc j"] by simp
    qed
    moreover have "tn_node_id y \<noteq> tn_node_id x" if y: "y \<in> set xs" "tn_in_use y" "tn_in_use x" for y
    proof -
      obtain j where "j < length xs" "xs ! j = y" using y(1) by (auto simp: in_set_conv_nth)
      then show ?thesis using Cons.prems[rule_format, of 0 "Suc j"] y(2,3) by auto
    qed
    ultimately show ?case by (cases "tn_in_use x") fastforce+
  qed simp
  moreover have "\<forall>i < length ns. \<forall>j < length ns. tn_in_use (ns ! i) \<and> tn_in_use (ns ! j) \<and> tn_node_id (ns ! i) = tn_node_id (ns ! j) \<longrightarrow> i = j"
    using assms by (simp add: reg_wf_def nodes_wf_def ns_def)
  ultimately show ?thesis unfolding ns_def by blast
qed

lemma reply_stats_one:
  assumes "reg_wf st"
  shows "reply_stats (st_registry st) (Some k) =
    (case find (\<lambda>n. tn_node_id n = k) (filter tn_in_use (rg_nodes (st_registry st))) of
       None \<Rightarrow> [''ERR|102|UNKNOWN_NODE'']
     | Some n \<Rightarrow> [''OK|1'', stats_line n, ''END''])"
proof (cases "find_node (st_registry st) k")
  case None
  have err: "reply_error ERR_UNKNOWN_NODE = [''ERR|102|UNKNOWN_NODE'']" by code_simp
  have "find (\<lambda>n. tn_node_id n = k) (filter tn_in_use (rg_nodes (st_registry st))) = None"
    using None by (auto simp: find_node_def find_index_None find_None_iff)
  then show ?thesis using None err by (simp add: reply_stats_def snapshot_find_node_eq)
next
  case (Some i)
  have one: "snprintf MAX_LINE (''OK|'' @ show_int 1) = ''OK|1''" by code_simp
  have only: "filter (\<lambda>n. tn_in_use n \<and> tn_node_id n = k) (rg_nodes (st_registry st)) = [node_at st i]"
    by (rule one_node_stats_filter[OF assms Some])
  then have "find (\<lambda>n. tn_node_id n = k) (filter tn_in_use (rg_nodes (st_registry st))) = Some (node_at st i)"
    using find_filter_hd[of "\<lambda>n. tn_node_id n = k" "filter tn_in_use (rg_nodes (st_registry st))"] by (simp add: conj_commute)
  moreover have "filter (\<lambda>n. tn_in_use n \<and> Some k = Some (tn_node_id n)) (rg_nodes (st_registry st)) = [node_at st i]"
    using only by (simp add: eq_commute)
  ultimately show ?thesis using Some one by (simp add: reply_stats_def snapshot_find_node_eq)
qed

text \<open>C31: the lists announce their length: \<open>GET_NODES\<close> and \<open>STATS\<close> give one line per registered
  node after \<open>OK|<n>\<close>, also when there is none; \<open>STATS\<close> of one node gives exactly the line of that
  node, and 102 when no node has the identifier. No node is listed twice.\<close>

theorem lists_announce_length:
  assumes "reg_wf st"
  shows "(let r = st_registry st; ns = filter tn_in_use (rg_nodes r); head = ''OK|'' @ show_int (int (length ns))
      in distinct (map tn_node_id ns) \<and>
         reply_node_list r now = head # map (node_line now) ns @ [''END''] \<and>
         reply_stats r None = head # map stats_line ns @ [''END''] \<and>
         (\<forall>k. reply_stats r (Some k) =
            (case find (\<lambda>n. tn_node_id n = k) ns of
               None \<Rightarrow> [''ERR|102|UNKNOWN_NODE'']
             | Some n \<Rightarrow> [''OK|1'', stats_line n, ''END''])))"
proof -
  define r ns where "r = st_registry st" and "ns = filter tn_in_use (rg_nodes r)"
  have count: "count_registered_nodes r = int (length ns)" by (simp add: ns_def count_registered_length)
  have "length (show_int (int (length ns))) \<le> 20"
    using count_registered_long[OF assms] by (simp add: length_show_long r_def flip: count)
  then have head: "snprintf MAX_LINE (''OK|'' @ show_int (int (length ns))) = ''OK|'' @ show_int (int (length ns))"
    by (intro snprintf_fits) (simp add: MAX_LINE_def)
  have "reply_stats r (Some k) =
      (case find (\<lambda>n. tn_node_id n = k) ns of
         None \<Rightarrow> [''ERR|102|UNKNOWN_NODE'']
       | Some n \<Rightarrow> [''OK|1'', stats_line n, ''END''])" for k
    using reply_stats_one[OF assms, of k] by (simp add: r_def ns_def)
  moreover have "reply_stats r None = (''OK|'' @ show_int (int (length ns))) # map stats_line ns @ [''END'']"
    using head count by (simp add: reply_stats_def ns_def)
  moreover have "reply_node_list r now = (''OK|'' @ show_int (int (length ns))) # map (node_line now) ns @ [''END'']"
    using head count by (simp add: reply_node_list_def ns_def)
  moreover have "distinct (map tn_node_id ns)" using used_ids_distinct[OF assms] by (simp add: r_def ns_def)
  ultimately show ?thesis unfolding Let_def r_def[symmetric] ns_def[symmetric] by blast
qed

text \<open>The witness: the registry at the start, and one with a node.\<close>

lemma lists_announce_length_witness:
  "reply_node_list (st_registry (registry_init 100 5 7)) 160 = [''OK|0'', ''END''] \<and>
   length (reply_node_list (st_registry one_node) 160) = 3 \<and>
   reply_stats (st_registry one_node) (Some ''node-2'') = [''ERR|102|UNKNOWN_NODE'']"
proof -
  have "filter tn_in_use (rg_nodes (st_registry one_node)) = [fresh_node ''node-1'' demo_session]"
    by (simp add: one_node_nodes zero_node_def)
  moreover have "filter tn_in_use (rg_nodes (st_registry (registry_init 100 5 7))) = []"
    by (simp add: registry_init_def zero_node_def filter_empty_conv)
  moreover have "show_int 0 = ''0''" by code_simp
  ultimately show ?thesis
    using lists_announce_length[OF one_node_wf, of 160] lists_announce_length[OF registry_init_wf, of 100 5 7 160]
    by (simp add: Let_def fresh_node_def)
qed

text \<open>The answer to a line, as the peer sent it: whether the loop is left, the reply and the state.\<close>

definition line_answer :: "int \<Rightarrow> command_reads \<Rightarrow> shared_state \<Rightarrow> string \<Rightarrow> command_result \<Rightarrow> bool" where
  "line_answer fd e st raw result =
     (if MAX_LINE \<le> length raw then result = (False, [''ERR|103|TOO_LONG''], st)
      else if \<not> (\<forall>c \<in> set (line_of raw). text_char c) then result = (False, [''ERR|100|BAD_FORMAT''], st)
      else fst result = (line_of raw = ''BYE'') \<and> handle_command fd (line_of raw) e st = Inr result)"

text \<open>What a turn does with the bytes of the socket, once it is readable.\<close>

lemma client_turn_on_bytes:
  assumes "shared_wf st" and "reads_ok (sh_registry st) e" and "0 < ready" and "fd \<noteq> 0"
    and recv: "receive_text_line MAX_LINE start turns = Some (n, line, rest)"
  shows "\<exists>close reply st'.
    client_turn fd \<lparr>ci_ready = ready, ci_received = n, ci_line = line, ci_reads = e\<rparr> st = Inr (close, reply, st') \<and>
    shared_wf st' \<and>
    (if \<not> (\<exists>raw more. line_arrives (start + 3000) turns raw more) then close \<and> reply = [] \<and> st' = st
     else \<exists>raw. line_arrives (start + 3000) turns raw rest \<and> reply \<noteq> [] \<and>
       line_answer fd e st raw (close, reply, st'))"
proof -
  have size: "0 < MAX_LINE" by (simp add: MAX_LINE_def)
  have errs: "reply_error ERR_TOO_LONG = [''ERR|103|TOO_LONG'']" "reply_error ERR_BAD_FORMAT = [''ERR|100|BAD_FORMAT'']"
    by code_simp+
  note until = recv[unfolded receive_text_line_def]
  show ?thesis
  proof (cases "\<exists>raw more. line_arrives (start + 3000) turns raw more")
    case False
    then have "n = 0 \<or> n = - 1" using line_arrives_result[OF until _ _ size] by metis
    then have "client_turn fd \<lparr>ci_ready = ready, ci_received = n, ci_line = line, ci_reads = e\<rparr> st = Inr (True, [], st)"
      using assms(3) by (auto simp: client_turn_def)
    then show ?thesis using False assms(1) by (intro exI[of _ True] exI[of _ "[]"] exI[of _ st]) simp
  next
    case True
    then obtain raw more where raw: "line_arrives (start + 3000) turns raw more" by blast
    obtain l where "receive_line_until MAX_LINE (start + 3000) turns = Some (line_result MAX_LINE raw, l, more)"
      "length raw < MAX_LINE \<Longrightarrow> l = line_of raw"
      using line_arrives_received[OF raw size] by metis
    then have r: "more = rest" "n = line_result MAX_LINE raw" "length raw < MAX_LINE \<Longrightarrow> line = line_of raw"
      using until by auto
    obtain reply st' where cmd: "handle_command fd (line_of raw) e st = Inr (line_of raw = ''BYE'', reply, st')" "replies_ok reply"
      using handle_command_total[OF assms(1,2)] by blast
    have wf': "shared_wf st'" using handle_command_wf[OF assms(1) \<open>fd \<noteq> 0\<close> cmd(1)] .
    have "reply \<noteq> []" using cmd(2) by (simp add: replies_ok_def)
    have turn: "client_turn fd \<lparr>ci_ready = ready, ci_received = n, ci_line = line, ci_reads = e\<rparr> st =
        (if MAX_LINE \<le> length raw then Inr (False, [''ERR|103|TOO_LONG''], st)
         else if \<not> (\<forall>c \<in> set (line_of raw). text_char c) then Inr (False, [''ERR|100|BAD_FORMAT''], st)
         else handle_command fd (line_of raw) e st)"
      using r(2,3) assms(3) by (simp add: client_turn_def line_result_def errs)
    have arrives: "line_arrives (start + 3000) turns raw rest" using raw r(1) by simp
    consider (long) "MAX_LINE \<le> length raw" | (bad) "\<not> MAX_LINE \<le> length raw" "\<not> (\<forall>c \<in> set (line_of raw). text_char c)"
      | (plain) "\<not> MAX_LINE \<le> length raw" "\<forall>c \<in> set (line_of raw). text_char c" by blast
    then obtain close reply' st'' where fin: "client_turn fd \<lparr>ci_ready = ready, ci_received = n, ci_line = line, ci_reads = e\<rparr> st =
        Inr (close, reply', st'')" "shared_wf st''" "reply' \<noteq> []" "line_answer fd e st raw (close, reply', st'')"
    proof cases
      case long
      then show ?thesis using that[of False, OF _ assms(1)] turn by (simp add: line_answer_def)
    next
      case bad
      then show ?thesis using that[of False, OF _ assms(1)] turn by (simp add: line_answer_def)
    next
      case plain
      then show ?thesis using that[OF _ wf' \<open>reply \<noteq> []\<close>] turn cmd(1) by (simp add: line_answer_def)
    qed
    then show ?thesis using True arrives by auto
  qed
qed

text \<open>C29: a round of the loop of a connection, from the bytes of its socket. The loop is left when a
  pushed line cannot be sent, when the wait fails, when no whole line arrives (the peer closes, an
  error, or its three seconds pass), and on the line \<open>BYE\<close>, and then only; before a complete line
  nothing is answered. A line of \<open>MAX_LINE\<close> bytes or more is answered 103 and one with a byte outside
  printable text 100, both without effect; every other line is handled as a command on the state the
  other threads left, is answered by at least one line, and leaves the state well formed.\<close>

theorem connection_round:
  assumes "shared_wf st" and "fd \<noteq> 0" and "\<forall>k. \<forall>c \<in> set (rd_calls r k). other_call fd c"
    and "drain_client fd r st = (rc, pushed, st1)"
    and "shared_wf (rd_others r st1)" and "reads_ok (sh_registry (rd_others r st1)) (rd_reads r)"
    and "serve_client_round fd r turns st = Some (pushed', outcome, rest)"
  shows "pushed' = pushed \<and>
    (\<exists>close reply st'. outcome = Inr (close, reply, st') \<and> shared_wf st' \<and>
      (if \<exists>j < length pushed. \<not> rd_send r j (pushed ! j) then close \<and> reply = [] \<and> rest = turns \<and> st' = st1
       else if rd_ready r \<le> 0 then (close \<longleftrightarrow> rd_ready r < 0) \<and> reply = [] \<and> rest = turns \<and> st' = rd_others r st1
       else if \<not> (\<exists>raw more. line_arrives (rd_start r + 3000) turns raw more) then
         close \<and> reply = [] \<and> st' = rd_others r st1
       else \<exists>raw. line_arrives (rd_start r + 3000) turns raw rest \<and> reply \<noteq> [] \<and>
         line_answer fd (rd_reads r) (rd_others r st1) raw (close, reply, st')))"
proof -
  define st2 where "st2 = rd_others r st1"
  have run: "subscribers_drain (\<lambda>k. fold table_step (rd_calls r k)) (rd_send r) fd (sh_subscribers st) =
      (rc, pushed, sh_subscribers st1)" and st1: "sh_registry st1 = sh_registry st"
    using assms(4) by (auto simp: drain_client_def split: prod.splits)
  have subs: "subs_wf (sh_subscribers st)" and reg: "reg_wf (sh_registry st)" using assms(1) by (simp_all add: shared_wf_def)
  have drained: "subs_wf (sh_subscribers st1)" "rc < 0 \<longleftrightarrow> (\<exists>j < length pushed. \<not> rd_send r j (pushed ! j))"
    using drain_result[OF subs assms(2,3) run] by auto
  have wf1: "shared_wf st1" using drained(1) reg st1 by (simp add: shared_wf_def)
  have wf2: "shared_wf st2" "reads_ok (sh_registry st2) (rd_reads r)" using assms(5,6) by (simp_all add: st2_def)
  note round = assms(7)[unfolded serve_client_round_def assms(4) prod.case, folded st2_def]
  consider (failed) "rc < 0" | (waited) "\<not> rc < 0" "rd_ready r \<le> 0" | (readable) "\<not> rc < 0" "0 < rd_ready r" by linarith
  then show ?thesis
  proof cases
    case failed
    then have "pushed' = pushed" "outcome = Inr (True, [], st1)" "rest = turns" using round by simp_all
    then show ?thesis using failed drained(2) wf1 by (intro conjI exI[of _ True]) simp_all
  next
    case waited
    then have "pushed' = pushed" "outcome = Inr (rd_ready r < 0, [], st2)" "rest = turns"
      using round by (cases "rd_ready r < 0"; simp)+
    then show ?thesis using waited drained(2) wf2(1) by (auto simp flip: st2_def)
  next
    case readable
    then obtain n line where recv: "receive_text_line MAX_LINE (rd_start r) turns = Some (n, line, rest)"
      and out: "pushed' = pushed" "outcome = client_turn fd
        \<lparr>ci_ready = rd_ready r, ci_received = n, ci_line = line, ci_reads = rd_reads r\<rparr> st2"
      using round by (cases "receive_text_line MAX_LINE (rd_start r) turns") auto
    have no: "(\<exists>j < length pushed. \<not> rd_send r j (pushed ! j)) = False" "(rd_ready r \<le> 0) = False"
      using readable drained(2) by auto
    from client_turn_on_bytes[OF wf2 readable(2) assms(2) recv] show ?thesis
      unfolding st2_def[symmetric] no out if_False by (intro conjI refl)
  qed
qed

text \<open>The witness: a lone client that sends \<open>BYE\<close> and a carriage return before the line feed.\<close>

definition demo_round :: client_round where
  "demo_round = \<lparr>rd_calls = (\<lambda>_. []), rd_send = (\<lambda>_ _. True), rd_others = (\<lambda>st. st), rd_ready = 1, rd_start = 0,
     rd_reads = demo_reads\<rparr>"

lemma demo_drain: "drain_client 7 demo_round demo_state = (0, [], demo_state)"
proof -
  have "queue_of 7 subscribers_init = None" by (rule no_queue_init) simp
  then have "drain_pop 7 subscribers_init = ([], subscribers_init)"
    by (intro drain_pop_none subscribers_init_wf) simp_all
  then have "subscribers_drain (\<lambda>k. fold table_step []) (\<lambda>_ _. True) 7 subscribers_init = (0, [], subscribers_init)"
    by (simp add: subscribers_drain_def QUEUE_SIZE_def numeral_eq_Suc)
  then show ?thesis by (simp add: drain_client_def demo_round_def demo_state_def)
qed

lemma connection_round_witness:
  "\<exists>st'. serve_client_round 7 demo_round (turns_of (''BYE'' @ [CHR 0x0D, CHR 0x0A])) demo_state =
      Some ([], Inr (True, [''OK|BYE''], st'), [])"
proof -
  let ?turns = "turns_of (''BYE'' @ [CHR 0x0D, CHR 0x0A])"
  have "receive_text_line MAX_LINE 0 ?turns = Some (4, ''BYE'', [])" by code_simp
  then obtain outcome where run: "serve_client_round 7 demo_round ?turns demo_state = Some ([], outcome, [])"
    by (simp add: serve_client_round_def demo_drain) (simp add: demo_round_def)
  have calls: "\<forall>k. \<forall>c \<in> set (rd_calls demo_round k). other_call 7 c" by (simp add: demo_round_def)
  have others: "rd_others demo_round demo_state = demo_state" "rd_reads demo_round = demo_reads" "rd_ready demo_round = 1"
    "rd_start demo_round = 0" by (simp_all add: demo_round_def)
  have arrives: "line_arrives 3000 ?turns (''BYE'' @ [CHR 0x0D]) []"
    using turns_of_arrive[of "''BYE'' @ [CHR 0x0D]" 3000 "[]"] by (simp add: turns_of_def[of "[]"])
  have raw: "line_of (''BYE'' @ [CHR 0x0D]) = ''BYE''" "\<forall>c \<in> set ''BYE''. text_char c" "\<not> MAX_LINE \<le> length (''BYE'' @ [CHR 0x0D])"
    by (simp_all add: line_of_def text_char_def char_code_def MAX_LINE_def)
  have bye: "handle_command 7 ''BYE'' demo_reads demo_state = Inr (True, [''OK|BYE''], demo_state)"
    by (simp add: handle_command_def parse_bye dispatch_def expected_args_def)
  define T where "T = ?turns"
  have some: "\<exists>raw more. line_arrives 3000 T raw more" using arrives unfolding T_def by blast
  obtain close reply st' where out: "outcome = Inr (close, reply, st')"
    and "\<exists>raw. line_arrives 3000 T raw [] \<and> line_answer 7 demo_reads demo_state raw (close, reply, st')"
    using connection_round[OF demo_state_wf(1) _ calls demo_drain _ _ run[folded T_def]] demo_state_wf some
    by (auto simp: others)
  then have "line_answer 7 demo_reads demo_state (''BYE'' @ [CHR 0x0D]) (close, reply, st')"
    using line_arrives_unique[OF arrives] unfolding T_def by blast
  then have "outcome = Inr (True, [''OK|BYE''], demo_state)" using out bye raw by (simp add: line_answer_def)
  then show ?thesis using run by blast
qed

end
