(* ===== verification/Http_Json.thy ===== *)
theory Http_Json
  imports Http_Request Tcp_Props
begin

text \<open>
  The JSON bodies of \<open>build_json\<close> are complete: with a well-formed registry the buffer of
  \<open>HTTP_BODY_SIZE\<close> bytes never cuts a text, \<open>strtok_r\<close> gives back the fields that were printed, each
  with its equals sign, so no null pointer is written through, and the body is the object or list
  written out here.
\<close>

section \<open>Appending\<close>

lemma append_fits: "length body + length text < n \<Longrightarrow> append_text n text body = body @ text"
  by (simp add: append_text_def Let_def)

lemma append_all: "length body + length (concat ts) < n \<Longrightarrow> fold (append_text n) ts body = body @ concat ts"
  by (induction ts arbitrary: body) (simp_all add: append_fits)

lemma length_dq [simp]: "length dq = 1"
  by (simp add: dq_def)

text \<open>The parts of a list, the separator before every part but the first.\<close>

definition sep_text :: "bool \<Rightarrow> string list \<Rightarrow> string" where
  "sep_text first fs = (if first \<or> fs = [] then join CHR '','' fs else CHR '','' # join CHR '','' fs)"

lemma sep_text_Nil [simp]: "sep_text first [] = []"
  by (simp add: sep_text_def)

lemma sep_text_Cons: "sep_text first (f # fs) = (if first then [] else '','') @ f @ sep_text False fs"
  by (cases fs) (simp_all add: sep_text_def)

lemma length_sep_text:
  "(\<And>f. f \<in> set fs \<Longrightarrow> length f \<le> b) \<Longrightarrow> length (sep_text True fs) \<le> length fs * Suc b"
  using length_join_le[of fs b] by (simp add: sep_text_def)

section \<open>Fields\<close>

definition json_pair :: "string \<times> string \<Rightarrow> string" where
  "json_pair kv = dq @ fst kv @ dq @ '':'' @ snd kv"

definition json_pairs :: "(string \<times> string) list \<Rightarrow> string" where
  "json_pairs kvs = join CHR '','' (map json_pair kvs)"

text \<open>Fields that survive being joined by semicolons and cut at the equals sign.\<close>

definition plain_fields :: "(string \<times> string) list \<Rightarrow> bool" where
  "plain_fields kvs = (\<forall>(k, v) \<in> set kvs. CHR '';'' \<notin> set k \<and> CHR '';'' \<notin> set v \<and> CHR ''='' \<notin> set k)"

lemma show_int_plain [simp]: "CHR '';'' \<notin> set (show_int i)" "CHR ''='' \<notin> set (show_int i)"
  by (auto simp: is_digit_char_def char_code_def dest!: set_show_int)

lemma node_stats_plain: "plain_fields (node_stats_fields n)"
  by (simp add: plain_fields_def node_stats_fields_def)

lemma system_status_plain: "plain_fields (system_status_fields s e)"
  by (simp add: plain_fields_def system_status_fields_def)

lemma strtok_fields:
  "plain_fields kvs \<Longrightarrow> strtok_all CHR '';'' (fields_text kvs) = map (\<lambda>(k, v). k @ CHR ''='' # v) kvs"
  unfolding fields_text_def by (rule strtok_all_join) (auto simp: plain_fields_def)

lemma json_fields_fits:
  "\<forall>(k, v) \<in> set kvs. CHR ''='' \<notin> set k \<Longrightarrow> length body + length (sep_text first (map json_pair kvs)) < n \<Longrightarrow>
     json_fields n first (map (\<lambda>(k, v). k @ CHR ''='' # v) kvs) body = Inr (body @ sep_text first (map json_pair kvs))"
proof (induction kvs arbitrary: first body)
  case Nil
  then show ?case by simp
next
  case (Cons kv kvs)
  obtain k v where kv: "kv = (k, v)" by (cases kv)
  let ?t = "(if first then [] else '','') @ dq @ k @ dq @ '':'' @ v"
  have t: "sep_text first (map json_pair (kv # kvs)) = ?t @ sep_text False (map json_pair kvs)"
    by (simp add: sep_text_Cons json_pair_def kv)
  have "append_text n ?t body = body @ ?t"
    using Cons.prems(2) unfolding t by (intro append_fits) simp
  moreover have "json_fields n False (map (\<lambda>(k, v). k @ CHR ''='' # v) kvs) (body @ ?t) =
      Inr ((body @ ?t) @ sep_text False (map json_pair kvs))"
    using Cons.prems unfolding t by (intro Cons.IH) simp_all
  ultimately show ?case using Cons.prems(1) by (simp only: t) (simp add: kv)
qed

lemma json_fields_plain:
  assumes "plain_fields kvs" and "length body + length (json_pairs kvs) < n"
  shows "json_fields n True (strtok_all CHR '';'' (fields_text kvs)) body = Inr (body @ json_pairs kvs)"
  using json_fields_fits[of kvs body True n] assms
  by (auto simp: strtok_fields json_pairs_def sep_text_def plain_fields_def)

lemma length_json_pairs:
  assumes "\<And>k v. (k, v) \<in> set kvs \<Longrightarrow> length k \<le> kb \<and> length v \<le> vb"
  shows "length (json_pairs kvs) \<le> length kvs * (kb + vb + 4)"
proof -
  have "length (json_pairs kvs) \<le> length (map json_pair kvs) * Suc (kb + vb + 3)"
    unfolding json_pairs_def by (rule length_join_le) (use assms in \<open>fastforce simp: json_pair_def\<close>)
  then show ?thesis by (simp add: add.commute)
qed

section \<open>The status\<close>

lemma json_status_eq:
  assumes "\<forall>i \<in> set (status_numbers s e). is_long i"
  shows "json_status s e HTTP_BODY_SIZE = Inr (''{'' @ json_pairs (system_status_fields s e) @ ''}'')"
proof -
  have "length k \<le> 17 \<and> length v \<le> 20" if "(k, v) \<in> set (system_status_fields s e)" for k v
    using system_status_field[OF that] assms length_show_long by auto
  then have len: "length (json_pairs (system_status_fields s e)) \<le> 861"
    using length_json_pairs[of "system_status_fields s e" 17 20] by (simp add: system_status_fields_def)
  have "json_fields HTTP_BODY_SIZE True (strtok_all CHR '';'' (fields_text (system_status_fields s e))) ''{'' =
      Inr (''{'' @ json_pairs (system_status_fields s e))"
    using len by (intro json_fields_plain system_status_plain) (simp add: HTTP_BODY_SIZE_def)
  then show ?thesis
    using len by (simp add: json_status_def format_system_status_eq[OF assms] append_fits HTTP_BODY_SIZE_def)
qed

section \<open>The nodes\<close>

definition json_node :: "int \<Rightarrow> TelemetryNode \<Rightarrow> string" where
  "json_node now n =
     ''{'' @ dq @ ''id'' @ dq @ '':'' @ dq @ tn_node_id n @ dq @ '','' @
     dq @ ''active'' @ dq @ '':'' @ (if node_is_active n now then ''true'' else ''false'') @ '','' @
     dq @ ''last_seen'' @ dq @ '':'' @ show_int (tn_last_seen n) @ '','' @
     dq @ ''measurements'' @ dq @ '':'' @ dq @ join CHR '';'' (map measurement_text (tn_measurements n)) @ dq @ '','' @
     dq @ ''session'' @ dq @ '':'' @ dq @ tn_session n @ dq @ '','' @
     dq @ ''statistics'' @ dq @ '':{'' @ json_pairs (node_stats_fields n) @ ''}}''"

text \<open>What a node in use must satisfy for its texts to be complete.\<close>

definition node_prints :: "TelemetryNode \<Rightarrow> bool" where
  "node_prints n =
     (length (tn_node_id n) \<le> 15 \<and> length (tn_session n) = 32 \<and> measurements_ok (tn_measurements n) \<and>
      is_long (tn_last_seen n) \<and> (\<forall>i \<in> set (node_numbers n). is_long i))"

lemma length_node_pairs:
  assumes "\<forall>i \<in> set (node_numbers n). is_long i"
  shows "length (json_pairs (node_stats_fields n)) \<le> 380"
proof -
  have "length k \<le> 14 \<and> length v \<le> 20" if "(k, v) \<in> set (node_stats_fields n)" for k v
    using node_stats_field[OF that] assms length_show_long by auto
  then show ?thesis using length_json_pairs[of "node_stats_fields n" 14 20] by (simp add: node_stats_fields_def)
qed

lemma length_json_node:
  assumes "node_prints n"
  shows "length (json_node now n) \<le> 650"
proof -
  have n: "length (tn_node_id n) \<le> 15" "length (tn_session n) = 32" "length (show_int (tn_last_seen n)) \<le> 20"
    "length (join CHR '';'' (map measurement_text (tn_measurements n))) \<le> 95"
    "length (json_pairs (node_stats_fields n)) \<le> 380"
    using assms length_show_long measurements_text_length length_node_pairs by (simp_all add: node_prints_def)
  then show ?thesis by (simp add: json_node_def)
qed

lemma drop_brace_append: "drop_brace (body @ text @ ''}'') = body @ text"
  by (simp add: drop_brace_def butlast_append flip: append_assoc)

text \<open>One turn of the loop over the nodes.\<close>

lemma json_node_turn:
  assumes "node_prints n" and "length body + length (json_node now n) + 1 < cap"
  shows "bindF (json_fields cap True (strtok_all CHR '';'' (format_node_stats n MAX_LINE))
        (append_text cap (json_session n) (drop_brace (append_text cap (json_node_head first now n) body))))
      (\<lambda>body2. Inr (append_text cap ''}}'' body2)) =
    Inr (body @ (if first then [] else '','') @ json_node now n)"
proof -
  define h where "h = butlast (json_node_head first now n)"
  have ms: "format_measurements n MAX_LINE = join CHR '';'' (map measurement_text (tn_measurements n))"
    and st: "format_node_stats n MAX_LINE = fields_text (node_stats_fields n)"
    using assms(1) format_measurements_eq format_node_stats_eq by (simp_all add: node_prints_def)
  have head: "json_node_head first now n = h @ ''}''"
    unfolding h_def by (simp add: json_node_head_def butlast_append)
  have node: "(if first then [] else '','') @ json_node now n =
      h @ json_session n @ json_pairs (node_stats_fields n) @ ''}}''"
    unfolding h_def by (simp add: json_node_def json_node_head_def json_session_def butlast_append ms)
  have "length ((if first then [] else '','') @ json_node now n) \<le> length (json_node now n) + 1" by simp
  then have fits: "length body + (length h + length (json_session n) + length (json_pairs (node_stats_fields n)) + 2) < cap"
    using assms(2) unfolding node by simp
  have "append_text cap (json_node_head first now n) body = body @ h @ ''}''"
    using fits by (simp add: head append_fits)
  then have one: "append_text cap (json_session n) (drop_brace (append_text cap (json_node_head first now n) body)) =
      body @ h @ json_session n"
    using fits by (simp add: drop_brace_append append_fits)
  have "json_fields cap True (strtok_all CHR '';'' (fields_text (node_stats_fields n))) (body @ h @ json_session n) =
      Inr ((body @ h @ json_session n) @ json_pairs (node_stats_fields n))"
    using fits by (intro json_fields_plain node_stats_plain) simp
  then show ?thesis
    unfolding one st node using fits by (simp add: append_fits)
qed

lemma json_nodes_loop_fits:
  "\<forall>n \<in> set ns. tn_in_use n \<longrightarrow> node_prints n \<Longrightarrow>
   length body + length (sep_text first (map (json_node now) (filter tn_in_use ns))) + 1 < cap \<Longrightarrow>
     json_nodes_loop cap now first ns body =
       Inr (body @ sep_text first (map (json_node now) (filter tn_in_use ns)))"
proof (induction ns arbitrary: first body)
  case Nil
  then show ?case by simp
next
  case (Cons n ns)
  show ?case
  proof (cases "tn_in_use n")
    case False
    then show ?thesis using Cons by simp
  next
    case True
    let ?t = "(if first then [] else '','') @ json_node now n"
    let ?r = "sep_text False (map (json_node now) (filter tn_in_use ns))"
    have t: "sep_text first (map (json_node now) (filter tn_in_use (n # ns))) = ?t @ ?r"
      using True by (simp add: sep_text_Cons)
    define turn where "turn = json_fields cap True (strtok_all CHR '';'' (format_node_stats n MAX_LINE))
        (append_text cap (json_session n) (drop_brace (append_text cap (json_node_head first now n) body)))"
    have "bindF turn (\<lambda>body2. Inr (append_text cap ''}}'' body2)) = Inr (body @ ?t)"
      using True Cons.prems unfolding t turn_def by (intro json_node_turn) simp_all
    then obtain b where b: "turn = Inr b" "append_text cap ''}}'' b = body @ ?t" by (auto simp: bindF_eq_Inr)
    have "json_nodes_loop cap now False ns (body @ ?t) = Inr ((body @ ?t) @ ?r)"
      using Cons.prems unfolding t by (intro Cons.IH) simp_all
    then show ?thesis
      using True b unfolding t turn_def by (simp add: Let_def)
  qed
qed

lemma json_nodes_eq:
  assumes "\<forall>n \<in> set (rg_nodes s). tn_in_use n \<longrightarrow> node_prints n" and "length (rg_nodes s) = MAX_NODES"
  shows "json_nodes s now HTTP_BODY_SIZE =
    Inr (''['' @ join CHR '','' (map (json_node now) (filter tn_in_use (rg_nodes s))) @ '']'')"
proof -
  let ?ns = "filter tn_in_use (rg_nodes s)"
  have "length (sep_text True (map (json_node now) ?ns)) \<le> length (map (json_node now) ?ns) * Suc 650"
    by (rule length_sep_text) (use assms(1) length_json_node in auto)
  moreover have "length ?ns \<le> 64" using assms(2) length_filter_le[of tn_in_use "rg_nodes s"] by (simp add: MAX_NODES_def)
  ultimately have len: "length (sep_text True (map (json_node now) ?ns)) \<le> 41664" by auto
  have "json_nodes_loop HTTP_BODY_SIZE now True (rg_nodes s) ''['' = Inr (''['' @ sep_text True (map (json_node now) ?ns))"
    using len by (intro json_nodes_loop_fits[OF assms(1)]) (simp add: HTTP_BODY_SIZE_def)
  then show ?thesis
    using len by (simp add: json_nodes_def append_fits HTTP_BODY_SIZE_def) (simp add: sep_text_def)
qed

section \<open>The alerts\<close>

lemma concat_seps:
  "x \<notin> set xs \<Longrightarrow> concat (map (\<lambda>i. (if i = x then [] else '','') @ f i) xs) = sep_text False (map f xs)"
  by (induction xs) (auto simp: sep_text_Cons)

lemma fold_seps:
  "distinct xs \<Longrightarrow> length body + length (sep_text True (map f xs)) < n \<Longrightarrow>
     fold (\<lambda>i. append_text n ((if i = hd xs then [] else '','') @ f i)) xs body = body @ sep_text True (map f xs)"
proof (cases xs)
  case (Cons x ys)
  assume "distinct xs" and len: "length body + length (sep_text True (map f xs)) < n"
  then have "x \<notin> set ys" using Cons by simp
  then have c: "concat (map (\<lambda>i. (if i = x then [] else '','') @ f i) xs) = sep_text True (map f xs)"
    by (simp add: Cons concat_seps sep_text_Cons)
  have "fold (append_text n) (map (\<lambda>i. (if i = x then [] else '','') @ f i) xs) body = body @ sep_text True (map f xs)"
    using append_all[of body "map (\<lambda>i. (if i = x then [] else '','') @ f i) xs" n] len unfolding c .
  then show ?thesis by (simp add: Cons fold_map comp_def)
qed simp

lemma length_json_alert:
  assumes "alert_ok a" and "is_long (al_timestamp a)"
  shows "length (json_alert a) \<le> 110"
proof -
  have "length (fmt_f2 (al_value a)) \<le> 7 + 4"
    using length_fmt_f2[of "al_value a" 1000000 7] assms(1) by (simp add: alert_ok_def)
  moreover have "length (al_type a) \<le> 11" "length (al_node_id a) \<le> 15"
    using assms(1) text_alert_types valid_node_id_length by (auto simp: alert_ok_def)
  ultimately show ?thesis using length_show_long[OF assms(2)] by (simp add: json_alert_def)
qed

lemma snapshot_alert_eq: "snapshot_alert = ring_alert"
  by (simp add: fun_eq_iff snapshot_alert_def ring_alert_def)

lemma json_alerts_eq:
  assumes "ring_ok s" and "\<forall>a \<in> set (alert_log s). alert_ok a \<and> is_long (al_timestamp a)"
  shows "json_alerts s HTTP_BODY_SIZE = ''['' @ join CHR '','' (map json_alert (alert_log s)) @ '']''"
proof -
  define total where "total = rg_total_alerts s"
  define shown where "shown = (if total < int MAX_ALERTS then total else int MAX_ALERTS)"
  let ?xs = "[total - shown .. total - 1]"
  have log: "map (\<lambda>i. json_alert (snapshot_alert s i)) ?xs = map json_alert (alert_log s)"
    using ring_loop[OF assms(1) order_refl, of json_alert] length_alert_log_le[of s]
    by (simp only: snapshot_alert_eq total_def shown_def Let_def last_n_id)
  have "length (sep_text True (map json_alert (alert_log s))) \<le> length (map json_alert (alert_log s)) * Suc 110"
    by (rule length_sep_text) (use assms(2) length_json_alert in auto)
  moreover have "length (alert_log s) \<le> 128" using length_alert_log_le[of s] by (simp add: MAX_ALERTS_def)
  ultimately have len: "length (sep_text True (map json_alert (alert_log s))) \<le> 14208" by auto
  have hd: "hd ?xs = total - shown" if "?xs \<noteq> []"
    using that by (cases "total - shown \<le> total - 1") (simp_all add: upto_rec1)
  have "fold (\<lambda>index. append_text HTTP_BODY_SIZE
          ((if index = total - shown then [] else '','') @ json_alert (snapshot_alert s index))) ?xs ''['' =
      ''['' @ sep_text True (map json_alert (alert_log s))"
    using fold_seps[of ?xs "''[''" "\<lambda>i. json_alert (snapshot_alert s i)" HTTP_BODY_SIZE] hd len
    unfolding log by (cases "?xs = []") (simp_all add: HTTP_BODY_SIZE_def)
  then show ?thesis
    using len by (simp add: json_alerts_def Let_def append_fits HTTP_BODY_SIZE_def flip: total_def shown_def)
      (simp add: sep_text_def)
qed

lemma used_prints:
  assumes "reg_wf st" and "reads_ok st r"
  shows "\<forall>n \<in> set (rg_nodes (st_registry st)). tn_in_use n \<longrightarrow> node_prints n"
proof (intro ballI impI)
  fix n assume n: "n \<in> set (rg_nodes (st_registry st))" "tn_in_use n"
  have "is_long (tn_last_seen n)" "is_long (tn_duplicates n)" using assms(2) n(1) by (simp_all add: reads_ok_def)
  moreover have "length (tn_session n) = 32"
    using used_node(2)[OF assms(1) n] by (simp add: is_valid_session_def)
  ultimately show "node_prints n"
    using used_node[OF assms(1) n] by (simp add: node_prints_def valid_node_id_length)
qed

lemma build_json_eq:
  assumes "reg_wf st" and "reads_ok st r"
  shows "build_json path (st_registry st) (cr_status r) now HTTP_BODY_SIZE = Inr
    (if path = ''/status'' then ''{'' @ json_pairs (system_status_fields (st_registry st) (cr_status r)) @ ''}''
     else if path = ''/nodes'' then
       ''['' @ join CHR '','' (map (json_node now) (filter tn_in_use (rg_nodes (st_registry st)))) @ '']''
     else ''['' @ join CHR '','' (map json_alert (alert_log (st_registry st))) @ '']'')"
proof -
  have ring: "ring_ok (st_registry st)" "\<forall>a \<in> set (alert_log (st_registry st)). alert_ok a \<and> is_long (al_timestamp a)"
    and len: "length (rg_nodes (st_registry st)) = MAX_NODES"
    using assms by (simp_all add: reg_wf_def alerts_wf_def nodes_wf_def reads_ok_def)
  have "\<forall>i \<in> set (status_numbers (st_registry st) (cr_status r)). is_long i"
    using assms by (intro status_numbers_long) (simp_all add: reads_ok_def)
  then show ?thesis
    using json_nodes_eq[OF used_prints[OF assms] len, of now] json_alerts_eq[OF ring] json_status_eq
    by (simp add: build_json_def)
qed

section \<open>Properties\<close>

text \<open>C16: the three JSON bodies are complete and exact: \<open>/status\<close> is one object with the fields of the
  status in their order, \<open>/nodes\<close> the list of the nodes in use, each with its session and its
  statistics, and \<open>/alerts\<close> the list of the kept alerts, oldest first. No text is cut by the body
  buffer, and no field misses the equals sign that the code writes through.\<close>

theorem json_bodies_exact:
  assumes "reg_wf st" and "reads_ok st r"
  shows "build_json path (st_registry st) (cr_status r) now HTTP_BODY_SIZE = Inr
    (if path = ''/status'' then ''{'' @ json_pairs (system_status_fields (st_registry st) (cr_status r)) @ ''}''
     else if path = ''/nodes'' then
       ''['' @ join CHR '','' (map (json_node now) (filter tn_in_use (rg_nodes (st_registry st)))) @ '']''
     else ''['' @ join CHR '','' (map json_alert (alert_log (st_registry st))) @ '']'')"
  using assms by (rule build_json_eq)

lemma json_bodies_exact_witness:
  "build_json ''/nodes'' (st_registry one_node) demo_status 160 HTTP_BODY_SIZE =
     Inr (''['' @ json_node 160 (fresh_node ''node-1'' demo_session) @ '']'')"
proof -
  have "filter tn_in_use (rg_nodes (st_registry one_node)) = [fresh_node ''node-1'' demo_session]"
    by (simp add: one_node_nodes fresh_node_def zero_node_def)
  then show ?thesis
    using json_bodies_exact[OF one_node_wf demo_reads_ok, of "''/nodes''" 160] by (simp add: demo_reads_def)
qed

end
