(* ===== verification/Decimal_Print.thy ===== *)
theory Decimal_Print
  imports Protocol
begin

text \<open>
  Reading back what \<open>%.2f\<close> printed: \<open>strtod\<close> on the text of a finite value gives the nearest
  binary64 of the value rounded to hundredths, and never a value beyond a whole bound that the
  printed value respects.
\<close>

lemma show_02_digits: "r < 100 \<Longrightarrow> show_02 r = [digit_char (r div 10), digit_char (r mod 10)]"
proof -
  assume "r < 100"
  moreover from this have "r div 10 < 10" by simp
  moreover have "CHR ''0'' = digit_char 0" by code_simp
  ultimately show ?thesis by (simp add: show_02_def show_nat.simps[of r] show_nat.simps[of "r div 10"])
qed

lemma digits_val_hundredths: "digits_val (show_nat (h div 100) @ show_02 (h mod 100)) = h"
proof -
  have "show_nat (h div 100) @ show_02 (h mod 100) =
      (show_nat (h div 100) @ [digit_char (h mod 100 div 10)]) @ [digit_char (h mod 100 mod 10)]"
    by (simp add: show_02_digits)
  also have "digits_val \<dots> = 10 * (10 * (h div 100) + h mod 100 div 10) + h mod 100 mod 10"
    unfolding digits_val_append by simp
  finally show ?thesis by simp
qed

text \<open>The hundredths that \<open>%.2f\<close> prints.\<close>

definition hundredths :: "nat \<Rightarrow> int \<Rightarrow> nat" where
  "hundredths m e = round_half_even (m * 100 * 2 ^ nat e) (2 ^ nat (- e))"

lemma fmt_f2_hundredths:
  "fmt_f2 (Fin s m e) = (if s then ''-'' else []) @ show_nat (hundredths m e div 100) @ CHR ''.'' # show_02 (hundredths m e mod 100)"
  by (simp add: hundredths_def Let_def)

lemma strtod_fmt_f2:
  "strtod (fmt_f2 (Fin s m e)) =
     (fst (round_b64 s (hundredths m e) 100), snd (round_b64 s (hundredths m e) 100), [])"
proof -
  let ?h = "hundredths m e"
  let ?w = "show_nat (?h div 100)" and ?f = "show_02 (?h mod 100)"
  have f: "\<forall>c \<in> set ?f. is_digit_char c" "length ?f = 2"
    by (simp_all add: show_02_digits)
  have w: "takeWhile is_digit_char (?w @ CHR ''.'' # ?f) = ?w" "dropWhile is_digit_char (?w @ CHR ''.'' # ?f) = CHR ''.'' # ?f"
  proof -
    have "\<not> is_digit_char CHR ''.''" by (simp add: is_digit_char_def char_code_def)
    moreover have "\<And>c. c \<in> set ?w \<Longrightarrow> is_digit_char c" by (rule show_nat_digits)
    ultimately show "takeWhile is_digit_char (?w @ CHR ''.'' # ?f) = ?w"
      "dropWhile is_digit_char (?w @ CHR ''.'' # ?f) = CHR ''.'' # ?f"
      by (simp_all add: takeWhile_append2 dropWhile_append2)
  qed
  have tail: "takeWhile is_digit_char ?f = ?f" "dropWhile is_digit_char ?f = []"
    using takeWhile_all[of ?f is_digit_char] f(1) by simp_all
  obtain c cs where c: "?w = c # cs" by (cases ?w) auto
  then have "is_digit_char c" using show_nat_digits[of c "?h div 100"] by simp
  then have "c \<noteq> CHR ''-''" "c \<noteq> CHR ''+''" by (auto simp: is_digit_char_def char_code_def)
  then have sign: "read_sign (fmt_f2 (Fin s m e)) = (s, ?w @ CHR ''.'' # ?f)"
    unfolding fmt_f2_hundredths using c by (cases s) simp_all
  have "nat (0 - int (length ?f)) = 0" "nat (- (0 - int (length ?f))) = 2" by (simp_all add: f(2))
  then show ?thesis
    unfolding strtod_def sign Let_def prod.case w
    by (simp add: read_fraction_def tail read_exponent_def digits_val_hundredths split_beta)
qed

text \<open>A value up to a non-negative whole number is read back as a value up to it.\<close>

lemma strtod_fmt_f2_up_to:
  assumes "x \<le> int64 (int k)" and "is_finite64 x" and "k < 2 ^ 53"
  shows "fst (strtod (fmt_f2 x)) \<le> int64 (int k)"
proof -
  obtain s m e where x: "x = Fin s m e" using assms(2) by (cases x) auto
  show ?thesis
  proof (cases s)
    case True
    have "fst (round_b64 True n 100) \<le> int64 (int k)" for n
    proof -
      obtain v er where v: "round_b64 True n 100 = (v, er)" by (cases "round_b64 True n 100")
      have "v \<le> int64 (int k)"
      proof (cases v)
        case (Fin t m q)
        have "t" using v Fin by (auto simp: round_b64_def Let_def split: if_splits)
        then have "val64 v \<le> 0" using Fin val64_le_abs(2)[of m q] by simp
        then have "val64 v \<le> real k" by simp
        then show ?thesis using Fin by (simp add: le_val64 del: val64.simps)
      next
        case (Inf t)
        then have "t" using v by (auto simp: round_b64_def Let_def split: if_splits)
        then show ?thesis using Inf by (simp add: less_eq_binary64_def int64_def)
      qed
      then show ?thesis by (simp add: v)
    qed
    then show ?thesis using True by (simp only: x strtod_fmt_f2 fst_conv)
  next
    case False
    have "real m * 2 powi e \<le> real k" using assms(1) False by (simp add: x le_val64)
    then have "m * 2 ^ nat e \<le> k * 2 ^ nat (- e)" by (simp only: pow2_balance)
    then have "hundredths m e \<le> k * 100"
      unfolding hundredths_def by (intro round_half_even_le) simp_all
    then show ?thesis
      using round_b64_up_to[of "hundredths m e" k 100 s] assms(3) by (simp only: x strtod_fmt_f2 fst_conv)
  qed
qed

end
