(* ===== verification/Http_Page.thy ===== *)
theory Http_Page
  imports Http_Json Decimal_Print
begin

text \<open>
  The status page of \<open>build_html\<close>: its texts never fill the body buffer, so the page ends with its
  closing tags whatever the registry holds, and what it highlights is what the registry alerts on.
\<close>

section \<open>Lengths of the fixed parts\<close>

lemma length_sq [simp]: "length sq = 1"
  by (simp add: sq_def)

lemma length_badge: "length (badge ok) \<le> 4"
  by (simp add: badge_def)

lemma length_page_head: "length (concat (page_head e)) \<le> 5600"
  by (cases "pr_tcp_ok e"; cases "pr_udp_ok e") (simp_all add: page_head_def length_css badge_def)

lemma length_kpi: "length (kpi cls label v) \<le> length cls + length label + length v + 53"
  by (simp add: kpi_def)

lemma length_page_kpis:
  assumes "\<forall>i \<in> {count_registered_nodes s, count_active_nodes s (pr_now e), rg_total_alerts s,
      rg_datagrams_total s, sum_lost_datagrams s}. is_long i"
  shows "length (concat (page_kpis s e)) \<le> 900"
proof -
  have "length (format_uptime (pr_now e - rg_started_at s) 32) < 32"
    by (simp add: format_uptime_def length_snprintf)
  moreover have "\<forall>i \<in> {count_registered_nodes s, count_active_nodes s (pr_now e), rg_total_alerts s,
      rg_datagrams_total s, sum_lost_datagrams s}. length (show_int i) \<le> 20"
    using assms length_show_long by blast
  ultimately show ?thesis by (simp add: page_kpis_def kpi_def)
qed

section \<open>The chips of a node\<close>

lemma measurement_text_cut:
  assumes "measurement_ok m"
  shows "cut_at CHR ''='' (measurement_text m) =
    (ms_name m, Some (if ms_name m = ''STATUS'' then (if is_zero64 (ms_value m) then ''FAIL'' else ''OK'')
                      else fmt_f2 (ms_value m)))"
proof -
  have "CHR ''='' \<notin> set (ms_name m)"
    using measurement_ok_name[OF assms] by (auto simp: variable_names_def)
  then show ?thesis by (simp add: measurement_text_def)
qed

lemma measurement_text_plain:
  assumes "measurement_ok m"
  shows "measurement_text m \<noteq> []" and "CHR '';'' \<notin> set (measurement_text m)"
proof -
  have "CHR '';'' \<notin> set (fmt_f2 (ms_value m))"
    using set_fmt_f2[OF measurement_ok_within(2)[OF assms], of "CHR '';''"] by (auto simp: is_digit_char_def char_code_def)
  moreover have "CHR '';'' \<notin> set (ms_name m)"
    using measurement_ok_name[OF assms] by (auto simp: variable_names_def)
  ultimately show "measurement_text m \<noteq> []" "CHR '';'' \<notin> set (measurement_text m)"
    by (simp_all add: measurement_text_def)
qed

lemma chips_texts_eq:
  assumes "measurements_ok (tn_measurements n)"
  shows "chips_texts (format_measurements n MAX_LINE) =
    (''<div class='' @ sq @ ''chips'' @ sq @ ''>'') # concat (map (chip_text \<circ> measurement_text) (tn_measurements n)) @ [''</div>'']"
proof -
  let ?t = "join CHR '';'' (map measurement_text (tn_measurements n))"
  have "snprintf MAX_LINE ?t = ?t"
    using measurements_text_length[OF assms] by (intro snprintf_fits) (simp add: MAX_LINE_def)
  moreover have "strtok_all CHR '';'' ?t = map measurement_text (tn_measurements n)"
    by (rule strtok_all_join) (use assms measurement_text_plain in \<open>auto simp: measurements_ok_def\<close>)
  ultimately show ?thesis by (simp add: chips_texts_def format_measurements_eq[OF assms] comp_def)
qed

lemma length_concat_le: "(\<And>x. x \<in> set xs \<Longrightarrow> length x \<le> b) \<Longrightarrow> length (concat xs) \<le> length xs * b"
  by (induction xs) (auto simp: add_le_mono)

lemma length_concat_map_le:
  "(\<And>x. x \<in> set xs \<Longrightarrow> length (concat (f x)) \<le> b) \<Longrightarrow> length (concat (concat (map f xs))) \<le> length xs * b"
  by (induction xs) (auto simp: add_le_mono)

lemma length_chip:
  assumes "measurement_ok m"
  shows "length (concat (chip_text (measurement_text m))) \<le> 60"
proof -
  have "length (fmt_f2 (ms_value m)) \<le> 7 + 4"
    using measurement_ok_within(1)[OF assms] by (rule length_fmt_f2) simp_all
  moreover have "length (ms_name m) \<le> 6"
    using measurement_ok_name[OF assms] by (auto simp: variable_names_def)
  ultimately show ?thesis by (simp add: chip_text_def measurement_text_cut[OF assms])
qed

lemma length_chips:
  assumes "measurements_ok (tn_measurements n)"
  shows "length (concat (chips_texts (format_measurements n MAX_LINE))) \<le> 330"
proof -
  have "length (concat (concat (map (chip_text \<circ> measurement_text) (tn_measurements n)))) \<le> length (tn_measurements n) * 60"
    using assms length_chip by (intro length_concat_map_le) (simp add: measurements_ok_def)
  also have "\<dots> \<le> 5 * 60" using measurements_ok_length[OF assms] by simp
  finally show ?thesis by (simp add: chips_texts_eq[OF assms])
qed

section \<open>Highlighting\<close>

lemmas threshold_defs = TEMP_MAX_def HUM_MAX_def POWER_MAX_def VIB_MAX_def

text \<open>A number printed with two decimals that is read back above a whole threshold is above it.\<close>

lemma printed_above:
  assumes "int64 (int k) < fst (strtod (fmt_f2 x))" and "is_finite64 x" and "k < 2 ^ 53"
  shows "int64 (int k) < x"
  using strtod_fmt_f2_up_to[of x k] assms by (meson less_le_not_le not_less64)

lemma hot_anomalous:
  assumes ok: "measurement_ok m" and cut: "cut_at CHR ''='' (measurement_text m) = (name, Some v)"
    and hot: "measurement_is_hot name v"
  shows "is_anomalous_value m"
proof (cases "ms_name m = ''STATUS''")
  case True
  then show ?thesis
    using cut hot by (auto simp: measurement_text_cut[OF ok] measurement_is_hot_def is_anomalous_value_def split: if_splits)
next
  case False
  then have nv: "name = ms_name m" "v = fmt_f2 (ms_value m)" using cut by (simp_all add: measurement_text_cut[OF ok])
  have fin: "is_finite64 (ms_value m)" by (rule measurement_ok_within(2)[OF ok])
  have "(ms_name m = ''TEMP'' \<and> int64 (int 40) < ms_value m) \<or> (ms_name m = ''HUM'' \<and> int64 (int 85) < ms_value m) \<or>
      (ms_name m = ''POWER'' \<and> int64 (int 500) < ms_value m) \<or> (ms_name m = ''VIB'' \<and> int64 (int 7) < ms_value m)"
    using hot False printed_above[OF _ fin, of 40] printed_above[OF _ fin, of 85]
      printed_above[OF _ fin, of 500] printed_above[OF _ fin, of 7]
    by (auto simp: measurement_is_hot_def threshold_defs nv split: prod.splits if_splits)
  then show ?thesis
    using False by (auto simp: is_anomalous_value_def alert_threshold_def threshold_defs less_val64 Let_def)
qed

section \<open>The rows\<close>

lemma length_node_row:
  assumes "node_prints n" and "is_long (seconds_ago n now)"
  shows "length (concat (node_row now n)) \<le> 560"
proof -
  have n: "length (tn_node_id n) \<le> 15" "measurements_ok (tn_measurements n)" using assms(1) by (simp_all add: node_prints_def)
  show ?thesis
  proof (cases "tn_last_seen n = 0")
    case True
    then show ?thesis using n(1) by (simp add: node_row_def)
  next
    case False
    then have "length (show_int (now - tn_last_seen n)) \<le> 20"
      using length_show_long[OF assms(2)] by (simp add: seconds_ago_def)
    then show ?thesis using False n(1) length_chips[OF n(2)] by (simp add: node_row_def)
  qed
qed

lemma length_page_nodes:
  assumes "\<forall>n \<in> set (rg_nodes s). tn_in_use n \<longrightarrow> node_prints n \<and> is_long (seconds_ago n (pr_now e))"
    and "length (rg_nodes s) = MAX_NODES"
    and "is_long (count_registered_nodes s)" and "is_long (count_active_nodes s (pr_now e))"
  shows "length (concat (page_nodes s e)) \<le> 37000"
proof -
  let ?ns = "filter tn_in_use (rg_nodes s)"
  have "length (concat (concat (map (node_row (pr_now e)) ?ns))) \<le> length ?ns * 560"
    by (rule length_concat_map_le) (use assms(1) length_node_row in auto)
  moreover have "length ?ns \<le> 64" using assms(2) length_filter_le[of tn_in_use "rg_nodes s"] by (simp add: MAX_NODES_def)
  ultimately have "length (concat (concat (map (node_row (pr_now e)) ?ns))) \<le> 35840" by simp
  then show ?thesis
    using length_show_long[OF assms(3)] length_show_long[OF assms(4)] length_show_small[of 0]
    by (simp add: page_nodes_def)
qed

text \<open>The loop from the newest alert down shows the last twenty of the log.\<close>

lemma page_alerts_rows:
  assumes "ring_ok s"
  shows "(let total = rg_total_alerts s; shown = (if total < 20 then total else 20)
      in map (\<lambda>index. alert_row clock_text (snapshot_alert s index)) (rev [total - shown .. total - 1])) =
    map (alert_row clock_text) (rev (last_n 20 (alert_log s)))"
  using ring_loop[OF assms, of 20 "alert_row clock_text", unfolded of_nat_numeral]
  by (simp add: MAX_ALERTS_def Let_def snapshot_alert_eq rev_map[symmetric] split del: if_split)

lemma length_alert_row:
  assumes "alert_ok a" and "length (clock_text (al_timestamp a)) \<le> 8"
  shows "length (alert_row clock_text a) \<le> 200"
proof -
  have "length (fmt_f2 (al_value a)) \<le> 7 + 4"
    using length_fmt_f2[of "al_value a" 1000000 7] assms(1) by (simp add: alert_ok_def)
  moreover have "length (al_type a) \<le> 11" "length (al_node_id a) \<le> 15"
    using assms(1) text_alert_types valid_node_id_length by (auto simp: alert_ok_def)
  ultimately show ?thesis using assms(2) by (simp add: alert_row_def)
qed

lemma length_page_alerts:
  assumes "ring_ok s" and "\<forall>a \<in> set (alert_log s). alert_ok a \<and> length (clock_text (al_timestamp a)) \<le> 8"
    and "is_long (rg_total_alerts s)"
  shows "length (concat (page_alerts clock_text s)) \<le> 4400"
proof -
  let ?rows = "map (alert_row clock_text) (rev (last_n 20 (alert_log s)))"
  have "set (last_n 20 (alert_log s)) \<subseteq> set (alert_log s)" by (auto simp: last_n_def dest: in_set_dropD)
  then have "length (concat ?rows) \<le> length ?rows * 200"
    by (intro length_concat_le) (use assms(2) length_alert_row in auto)
  also have "\<dots> \<le> 20 * 200" by simp
  finally have rows: "length (concat ?rows) \<le> 4000" by simp
  have "length (show_int (rg_total_alerts s)) \<le> 20" using assms(3) by (rule length_show_long)
  then show ?thesis
    using rows unfolding page_alerts_def Let_def page_alerts_rows[OF assms(1), unfolded Let_def]
    by (simp del: length_concat)
qed

lemma length_page_status:
  assumes "\<forall>i \<in> set (status_numbers s (pr_status e)). is_long i"
  shows "length (concat (page_status s e)) \<le> 2000"
proof -
  let ?kvs = "system_status_fields s (pr_status e)"
  have kv: "length k \<le> 17 \<and> length v \<le> 20" if "(k, v) \<in> set ?kvs" for k v
    using system_status_field[OF that] assms length_show_long by auto
  have cell: "length (concat (field_cell (k @ CHR ''='' # v))) \<le> 70" if "(k, v) \<in> set ?kvs" for k v
    using kv[OF that] system_status_plain[of s "pr_status e"] that by (auto simp: field_cell_def plain_fields_def)
  have "length (concat (concat (map (field_cell \<circ> (\<lambda>(k, v). k @ CHR ''='' # v)) ?kvs))) \<le> length ?kvs * 70"
    by (rule length_concat_map_le) (use cell in auto)
  then have "length (concat (concat (map (field_cell \<circ> (\<lambda>(k, v). k @ CHR ''='' # v)) ?kvs))) \<le> 1470"
    by (simp add: system_status_fields_def)
  then show ?thesis
    by (simp add: page_status_def format_system_status_eq[OF assms] strtok_fields[OF system_status_plain])
qed

section \<open>Where the parts end\<close>

text \<open>The rows of the alerts are in the page, also when there is none.\<close>

lemma page_alerts_middle:
  assumes "ring_ok s"
  shows "\<exists>top bottom. concat (page_alerts clock_text s) =
    top @ concat (map (alert_row clock_text) (rev (last_n 20 (alert_log s)))) @ bottom"
proof (cases "rg_total_alerts s = 0")
  case True
  then have "alert_log s = []" by (simp add: alert_log_def)
  then have "concat (map (alert_row clock_text) (rev (last_n 20 (alert_log s)))) = []" by (simp add: last_n_def)
  then show ?thesis by (metis append_Nil)
next
  case False
  define pre where "pre = ''<section><h2>Recent alerts <small>'' @ show_int (rg_total_alerts s) @
    '' in total, server time</small></h2><div class='' @ sq @ ''card'' @ sq @ ''>'' @
    ''<div class='' @ sq @ ''scroll'' @ sq @
    ''><table><thead><tr><th>Time</th><th>Node</th><th>Type</th><th>Value</th></tr></thead><tbody>''"
  have "concat (page_alerts clock_text s) =
      pre @ concat (map (alert_row clock_text) (rev (last_n 20 (alert_log s)))) @ ''</tbody></table></div></div></section>''"
    using False unfolding page_alerts_def Let_def page_alerts_rows[OF assms, unfolded Let_def] pre_def by simp
  then show ?thesis by blast
qed

lemma page_status_end: "\<exists>top. concat (page_status s e) = top @ ''</body></html>''"
  unfolding page_status_def by (rule exI[of _ "concat (butlast (page_status s e)) @
      ''<nav class='' @ sq @ ''links'' @ sq @ ''>JSON <a href='' @ sq @ ''/status'' @ sq @ ''>/status</a> <a href='' @ sq @
      ''/nodes'' @ sq @ ''>/nodes</a> <a href='' @ sq @ ''/alerts'' @ sq @ ''>/alerts</a></nav></div>''"])
    (simp add: page_status_def butlast_append)

section \<open>The page fits\<close>

lemma html_texts_length:
  assumes "reg_wf st" and "reads_ok st r" and "pr_status e = cr_status r" and "pr_now e = cr_now r"
    and "\<forall>t. length (clock_text t) \<le> 8"
  shows "length (concat (html_texts clock_text (st_registry st) e)) < HTTP_BODY_SIZE"
proof -
  let ?s = "st_registry st"
  have wf: "ring_ok ?s" "\<forall>a \<in> set (alert_log ?s). alert_ok a" "length (rg_nodes ?s) = MAX_NODES"
    using assms(1) by (simp_all add: reg_wf_def alerts_wf_def nodes_wf_def)
  have longs: "\<forall>i \<in> set (status_numbers ?s (pr_status e)). is_long i"
    unfolding assms(3) using assms(1,2) by (intro status_numbers_long) (simp_all add: reads_ok_def)
  have total: "is_long (rg_total_alerts ?s)" "is_long (count_registered_nodes ?s)" "is_long (rg_datagrams_total ?s)"
    "is_long (sum_lost_datagrams ?s)"
    using longs by (simp_all add: status_numbers_def)
  have active: "is_long (count_active_nodes ?s (pr_now e))"
    unfolding count_active_nodes_def by (rule sum_bool_long) (simp add: wf(3))
  have "length (concat (page_nodes ?s e)) \<le> 37000"
    using used_prints[OF assms(1,2)] assms(2) wf(3) total active
    by (intro length_page_nodes) (simp_all add: reads_ok_def assms(4))
  moreover have "length (concat (page_kpis ?s e)) \<le> 900"
    by (rule length_page_kpis) (use total active in simp)
  moreover have "length (concat (page_alerts clock_text ?s)) \<le> 4400"
    using wf(1,2) assms(5) total(1) by (intro length_page_alerts) simp_all
  ultimately have "length (concat (html_texts clock_text ?s e)) \<le> 5600 + 900 + 37000 + 4400 + 2000"
    unfolding html_texts_def concat_append length_append
    using length_page_head[of e] length_page_status[OF longs] by linarith
  then show ?thesis by (simp add: HTTP_BODY_SIZE_def)
qed

lemma build_html_eq:
  assumes "reg_wf st" and "reads_ok st r" and "pr_status e = cr_status r" and "pr_now e = cr_now r"
    and "\<forall>t. length (clock_text t) \<le> 8"
  shows "build_html clock_text (st_registry st) e HTTP_BODY_SIZE = concat (html_texts clock_text (st_registry st) e)"
  using append_all[of "[]"] html_texts_length[OF assms] by (simp add: build_html_def)

section \<open>Properties\<close>

text \<open>C17: the page is complete: with a well-formed registry, numbers that fit a \<open>long\<close> and a time of
  day of eight characters, the body is the concatenation of all its texts, below the size of the
  buffer, so it never loses its end, and it lists the last twenty alerts, newest first.\<close>

theorem page_complete:
  assumes "reg_wf st" and "reads_ok st r" and "pr_status e = cr_status r" and "pr_now e = cr_now r"
    and "\<forall>t. length (clock_text t) \<le> 8"
  shows "(let body = build_html clock_text (st_registry st) e HTTP_BODY_SIZE
      in body = concat (html_texts clock_text (st_registry st) e) \<and> length body < HTTP_BODY_SIZE \<and>
         (\<exists>top bottom. body = top @ concat (map (alert_row clock_text) (rev (last_n 20 (alert_log (st_registry st))))) @
            bottom @ ''</body></html>''))"
proof -
  let ?s = "st_registry st"
  have "ring_ok ?s" using assms(1) by (simp add: reg_wf_def alerts_wf_def)
  then obtain t b u where "concat (page_alerts clock_text ?s) =
      t @ concat (map (alert_row clock_text) (rev (last_n 20 (alert_log ?s)))) @ b"
    "concat (page_status ?s e) = u @ ''</body></html>''"
    using page_alerts_middle page_status_end by blast
  then have "concat (html_texts clock_text ?s e) =
      (concat (page_head e @ page_kpis ?s e @ page_nodes ?s e) @ t) @
      concat (map (alert_row clock_text) (rev (last_n 20 (alert_log ?s)))) @ (b @ u) @ ''</body></html>''"
    by (simp add: html_texts_def)
  then show ?thesis unfolding Let_def build_html_eq[OF assms] using html_texts_length[OF assms] by blast
qed

definition demo_page :: page_reads where
  "demo_page = \<lparr>pr_now = 160, pr_tcp_ok = True, pr_udp_ok = False, pr_status = demo_status\<rparr>"

lemma page_complete_witness:
  "length (build_html (\<lambda>t. ''12:00:00'') (st_registry one_node) demo_page HTTP_BODY_SIZE) < HTTP_BODY_SIZE"
proof -
  have e: "pr_status demo_page = cr_status demo_reads" "pr_now demo_page = cr_now demo_reads"
    by (simp_all add: demo_page_def demo_reads_def)
  have clk: "\<forall>t. length ((\<lambda>t. ''12:00:00'') (t :: int)) \<le> 8" by simp
  show ?thesis using page_complete[OF one_node_wf demo_reads_ok e clk] unfolding Let_def by (elim conjE)
qed

text \<open>C20: what the page highlights is what the registry holds to be anomalous: a value whose printed
  text, rounded to two decimals and read back by \<open>strtod\<close>, is above the threshold of its variable
  is itself above it, and a status that is not \<open>OK\<close> is a failure.\<close>

theorem highlighted_is_anomalous:
  assumes "measurement_ok m" and "cut_at CHR ''='' (measurement_text m) = (name, Some v)"
    and "measurement_is_hot name v"
  shows "is_anomalous_value m"
  by (rule hot_anomalous) (use assms in simp_all)

lemma highlighted_is_anomalous_witness:
  "is_anomalous_value \<lparr>ms_name = ''TEMP'', ms_value = int64 50\<rparr>"
proof -
  have ok: "measurement_ok \<lparr>ms_name = ''TEMP'', ms_value = int64 50\<rparr>" by code_simp
  have cut: "cut_at CHR ''='' (measurement_text \<lparr>ms_name = ''TEMP'', ms_value = int64 50\<rparr>) = (''TEMP'', Some ''50.00'')"
    by code_simp
  have hot: "measurement_is_hot ''TEMP'' ''50.00''" by code_simp
  show ?thesis by (rule highlighted_is_anomalous[OF ok cut hot])
qed

end
