(* ===== verification/Http_Service.thy ===== *)
theory Http_Service
  imports Http_Page
begin

text \<open>
  The requests of the status server end to end: the bytes of a well-formed request within the limits
  get the response of its method and path, with a complete header and body; nothing beyond the
  limits is ever read; and a request ends at its deadline.
\<close>

section \<open>The text of a request\<close>

text \<open>A word as one \<open>%<w>s\<close> reads it.\<close>

definition http_word :: "nat \<Rightarrow> string \<Rightarrow> bool" where
  "http_word w s = (s \<noteq> [] \<and> length s \<le> w \<and> (\<forall>c \<in> set s. text_char c \<and> c \<noteq> CHR '' ''))"

definition header_ok :: "string \<Rightarrow> bool" where
  "header_ok h = (h \<noteq> [] \<and> Suc (length h) < LINE_SIZE \<and> CHR '':'' \<in> set h \<and> (\<forall>c \<in> set h. text_char c))"

definition first_line :: "string \<Rightarrow> string \<Rightarrow> string \<Rightarrow> string" where
  "first_line meth path version = meth @ '' '' @ path @ '' '' @ version"

definition headers_text :: "string list \<Rightarrow> string" where
  "headers_text hs = concat (map (\<lambda>h. h @ crlf) hs) @ crlf"

text \<open>The bytes counted against the limit: each line and one end mark.\<close>

definition request_bytes :: "string \<Rightarrow> string list \<Rightarrow> nat" where
  "request_bytes line hs = Suc (length line) + (\<Sum>h \<leftarrow> hs. Suc (length h))"

section \<open>Reading the first line\<close>

lemma word_not_space: "text_char c \<Longrightarrow> c \<noteq> CHR '' '' \<Longrightarrow> \<not> is_space c"
  by (simp add: is_space_def text_char_def)

lemma scan_word_exact:
  assumes "http_word w s" and "r = [] \<or> is_space (hd r)"
  shows "scan_word w (s @ r) = Some (s, r)"
proof -
  have ns: "\<forall>c \<in> set s. \<not> is_space c" using assms(1) word_not_space by (auto simp: http_word_def)
  have "dropWhile is_space (s @ r) = s @ r"
    using ns assms(1) by (cases s) (auto simp: http_word_def)
  moreover have "takeWhile (\<lambda>c. \<not> is_space c) (s @ r) = s"
    using ns assms(2) by (cases r) (auto simp: takeWhile_append2)
  moreover have "0 < w" using assms(1) by (cases s) (auto simp: http_word_def)
  ultimately show ?thesis using assms(1) by (simp add: scan_word_def http_word_def)
qed

lemma scan_word_space: "scan_word w (CHR '' '' # t) = scan_word w t"
  by (simp add: scan_word_def is_space_def)

lemma request_line_exact:
  assumes "http_word 15 meth" and "http_word 63 path" and "version \<in> {''HTTP/1.0'', ''HTTP/1.1''}"
  shows "request_line (first_line meth path version) = Some (meth, path)"
proof -
  have v: "http_word 15 version" using assms(3) by (auto simp: http_word_def)
  have sp: "is_space CHR '' ''" by (simp add: is_space_def)
  have "scan_word 15 (first_line meth path version) = Some (meth, '' '' @ path @ '' '' @ version)"
    unfolding first_line_def using sp by (intro scan_word_exact[OF assms(1)]) simp
  moreover have "scan_word 63 ('' '' @ path @ '' '' @ version) = Some (path, '' '' @ version)"
    using scan_word_exact[OF assms(2), of "'' '' @ version"] sp by (simp add: scan_word_space)
  moreover have "scan_word 15 ('' '' @ version) = Some (version, [])"
    using scan_word_exact[OF v, of "[]"] by (simp add: scan_word_space)
  ultimately have "scan_request (first_line meth path version) = Some (meth, path, version)"
    by (simp add: scan_request_def)
  then show ?thesis using assms(3) by (auto simp: request_line_def)
qed

section \<open>Reading the headers\<close>

lemma read_headers_run:
  "bytes_in turns = headers_text hs @ tail \<Longrightarrow> \<forall>t \<in> set turns. turn_live deadline t \<and> turn_reads t \<Longrightarrow>
   \<forall>h \<in> set hs. header_ok h \<Longrightarrow> lines + length hs \<le> 64 \<Longrightarrow> bytes + (\<Sum>h \<leftarrow> hs. Suc (length h)) \<le> 8192 \<Longrightarrow>
     \<exists>rest. read_headers deadline (int bytes) lines turns = Some (None, rest)"
proof (induction hs arbitrary: turns bytes lines)
  case Nil
  then have "bytes_in turns = [] @ CHR 0x0D # CHR 0x0A # tail" by (simp add: headers_text_def crlf_def)
  then obtain rest where "receive_line_until LINE_SIZE deadline turns = Some (int (length ([] :: string)) + 1, [], rest)"
    by (rule receive_crlf_line[of turns "[]" tail deadline LINE_SIZE])
      (use Nil.prems(2) in \<open>simp_all add: LINE_SIZE_def\<close>)
  then show ?case by (subst read_headers.simps) simp
next
  case (Cons h hs)
  have h: "h \<noteq> []" "Suc (length h) < LINE_SIZE" "CHR '':'' \<in> set h" "\<forall>c \<in> set h. text_char c"
    using Cons.prems(3) by (simp_all add: header_ok_def)
  have "bytes_in turns = h @ CHR 0x0D # CHR 0x0A # (headers_text hs @ tail)"
    using Cons.prems(1) by (simp add: headers_text_def crlf_def)
  then obtain rest where rest: "receive_line_until LINE_SIZE deadline turns = Some (int (length h) + 1, h, rest)"
    "bytes_in rest = headers_text hs @ tail" "\<forall>t \<in> set rest. turn_live deadline t \<and> turn_reads t"
    by (rule receive_crlf_line) (use Cons.prems(2) h in auto)
  have "\<exists>r. read_headers deadline (int (bytes + Suc (length h))) (Suc lines) rest = Some (None, r)"
    using Cons.prems rest by (intro Cons.IH) auto
  moreover have "int (bytes + Suc (length h)) = int bytes + (int (length h) + 1)" by simp
  moreover have "\<not> (64 < lines + 1 \<or> 8192 < int bytes + (int (length h) + 1))"
    using Cons.prems(4,5) by (auto simp flip: of_nat_Suc)
  ultimately show ?case
    using rest(1) h by (subst read_headers.simps) (simp add: algebra_simps)
qed

lemma receive_line_used:
  assumes "receive_line_until LINE_SIZE deadline turns = Some (n, line, rest)" and "0 < n"
  obtains used raw where "turns = used @ rest" and "bytes_in used = raw @ [CHR 0x0A]" and "line = line_of raw"
    and "\<forall>t \<in> set used. turn_live deadline t" and "n = int (length line) + 1" and "length line < LINE_SIZE"
    and "\<forall>c \<in> set line. text_char c"
proof -
  obtain used raw where "turns = used @ rest" "bytes_in used = raw @ [CHR 0x0A]" "line = line_of raw"
    "\<forall>t \<in> set used. turn_live deadline t"
    using receive_from_used[of LINE_SIZE deadline "[]" False False turns n line rest] assms
    by (auto simp: receive_line_until_def)
  then show thesis
    using receive_from_result[of LINE_SIZE deadline "[]" False False turns n line rest] assms
    by (intro that) (auto simp: receive_line_until_def LINE_SIZE_def)
qed

text \<open>
  The lines \<open>raws\<close> arrive one after the other before the deadline, and the header lines the server
  takes: shorter than its buffer, printable, with a colon. Lengths are counted as the server counts
  them, with the end mark and without the carriage return before it.
\<close>

fun lines_arrive :: "int \<Rightarrow> recv_turn list \<Rightarrow> string list \<Rightarrow> recv_turn list \<Rightarrow> bool" where
  "lines_arrive deadline turns [] rest = (turns = rest)"
| "lines_arrive deadline turns (raw # raws) rest =
     (\<exists>mid. line_arrives deadline turns raw mid \<and> lines_arrive deadline mid raws rest)"

definition header_line_ok :: "string \<Rightarrow> bool" where
  "header_line_ok raw =
     (length raw < LINE_SIZE \<and> CHR '':'' \<in> set (line_of raw) \<and> (\<forall>c \<in> set (line_of raw). text_char c))"

definition counted_bytes :: "string list \<Rightarrow> int" where
  "counted_bytes raws = (\<Sum>raw \<leftarrow> raws. int (length (line_of raw)) + 1)"

lemma counted_bytes_simps [simp]:
  "counted_bytes [] = 0" "counted_bytes (raw # raws) = int (length (line_of raw)) + 1 + counted_bytes raws"
  by (simp_all add: counted_bytes_def)

lemma counted_bytes_nonneg: "0 \<le> counted_bytes raws"
  by (induction raws) simp_all

lemma line_result_header:
  assumes "header_line_ok raw"
  shows "line_result LINE_SIZE raw = int (length (line_of raw)) + 1" and "line_of raw \<noteq> []"
  using assms by (auto simp: header_line_ok_def line_result_def)

lemma line_result_empty: "line_result LINE_SIZE raw = 1 \<longleftrightarrow> line_of raw = []"
proof -
  have "length raw < LINE_SIZE" if "line_of raw = []"
  proof -
    have "length raw \<le> Suc (length (line_of raw))" by (auto simp: line_of_def)
    then have "length raw \<le> Suc 0" using that by simp
    then show ?thesis by (simp add: LINE_SIZE_def)
  qed
  then show ?thesis by (auto simp: line_result_def)
qed

text \<open>The headers are read to their end exactly when they are within the limits.\<close>

lemma read_headers_exact:
  "lines \<le> 64 \<Longrightarrow> bytes \<le> 8192 \<Longrightarrow>
   read_headers deadline bytes lines turns = Some (None, rest) \<longleftrightarrow>
     (\<exists>raws end. lines_arrive deadline turns (raws @ [end]) rest \<and> line_of end = [] \<and>
        (\<forall>raw \<in> set raws. header_line_ok raw) \<and> lines + length raws \<le> 64 \<and> bytes + counted_bytes raws \<le> 8192)"
  (is "_ \<Longrightarrow> _ \<Longrightarrow> ?L deadline lines bytes turns \<longleftrightarrow> ?R deadline lines bytes turns")
proof (induction deadline bytes lines turns rule: read_headers.induct)
  case (1 deadline bytes lines turns)
  have size: "0 < LINE_SIZE" by (simp add: LINE_SIZE_def)
  show ?case
  proof
    assume run: "?L deadline lines bytes turns"
    have "receive_line_until LINE_SIZE deadline turns \<noteq> None"
      using run by (subst (asm) read_headers.simps) (cases "receive_line_until LINE_SIZE deadline turns"; simp)
    then obtain n line mid where recv: "receive_line_until LINE_SIZE deadline turns = Some (n, line, mid)"
      using prod_cases3 by (metis not_None_eq)
    have pos: "0 < n" using run recv by (subst (asm) read_headers.simps) (auto split: if_splits)
    obtain raw where raw: "line_arrives deadline turns raw mid" "n = line_result LINE_SIZE raw"
      "length raw < LINE_SIZE \<Longrightarrow> line = line_of raw"
      using line_arrives_result[OF recv _ _ size] pos by auto
    have ok: "length raw < LINE_SIZE" "\<forall>c \<in> set (line_of raw). text_char c" "n = int (length (line_of raw)) + 1"
      using raw(2) pos by (auto simp: line_result_def split: if_splits)
    show "?R deadline lines bytes turns"
    proof (cases "n = 1")
      case True
      then have "mid = rest" "line_of raw = []" using run recv ok by (subst (asm) read_headers.simps; simp)+
      then show ?thesis using raw(1) 1(2,3) by (intro exI[of _ "[]"] exI[of _ raw]) simp
    next
      case False
      then have lim: "\<not> (64 < lines + 1 \<or> 8192 < bytes + n)" "CHR '':'' \<in> set line"
        and more: "?L deadline (lines + 1) (bytes + n) mid"
        using run recv pos by (subst (asm) read_headers.simps; auto split: if_splits)+
      have "\<not> n \<le> 0" using pos by simp
      obtain raws e where "lines_arrive deadline mid (raws @ [e]) rest" "line_of e = []"
        "\<forall>raw \<in> set raws. header_line_ok raw" "lines + 1 + length raws \<le> 64" "bytes + n + counted_bytes raws \<le> 8192"
        using 1(1)[OF recv refl refl False \<open>\<not> n \<le> 0\<close> lim(1)] lim more by auto
      then show ?thesis
        using raw(1,3) ok lim(2) by (intro exI[of _ "raw # raws"] exI[of _ e]) (auto simp: header_line_ok_def)
    qed
  next
    assume "?R deadline lines bytes turns"
    then obtain raws e where r: "lines_arrive deadline turns (raws @ [e]) rest" "line_of e = []"
      "\<forall>raw \<in> set raws. header_line_ok raw" "lines + length raws \<le> 64" "bytes + counted_bytes raws \<le> 8192"
      by blast
    show "?L deadline lines bytes turns"
    proof (cases raws)
      case Nil
      then have "line_arrives deadline turns e rest" using r(1) by simp
      then obtain line where "receive_line_until LINE_SIZE deadline turns = Some (1, line, rest)"
        using r(2) line_arrives_received[OF _ size] line_result_empty[of e] by metis
      then show ?thesis by (subst read_headers.simps) simp
    next
      case (Cons raw rs)
      then obtain mid where mid: "line_arrives deadline turns raw mid" "lines_arrive deadline mid (rs @ [e]) rest"
        using r(1) by auto
      have ok: "header_line_ok raw" using r(3) Cons by simp
      obtain line where recv: "receive_line_until LINE_SIZE deadline turns =
          Some (int (length (line_of raw)) + 1, line, mid)" "line = line_of raw"
        using line_arrives_received[OF mid(1) size] line_result_header(1)[OF ok] ok header_line_ok_def by metis
      define n where "n = int (length (line_of raw)) + 1"
      have n: "n \<noteq> 1" "\<not> n \<le> 0" using line_result_header(2)[OF ok] by (simp_all add: n_def)
      have lim: "\<not> (64 < lines + 1 \<or> 8192 < bytes + n)" "CHR '':'' \<in> set line"
        using r(4,5) Cons counted_bytes_nonneg[of rs] ok recv(2) by (auto simp: n_def header_line_ok_def)
      have "?R deadline (lines + 1) (bytes + n) mid"
        using r(2-5) Cons mid(2) by (intro exI[of _ rs] exI[of _ e]) (simp add: n_def algebra_simps)
      then have "?L deadline (lines + 1) (bytes + n) mid"
        using 1(1)[OF recv(1)[folded n_def] refl refl n lim(1)] lim by simp
      then show ?thesis using recv(1) n lim by (subst read_headers.simps) (simp flip: n_def)
    qed
  qed
qed

text \<open>The carriage returns are not counted: the bytes that were read are at most 66 more.\<close>

lemma lines_arrive_bytes:
  "lines_arrive deadline turns raws rest \<Longrightarrow>
     \<exists>used. turns = used @ rest \<and> int (length (bytes_in used)) \<le> counted_bytes raws + int (length raws)"
proof (induction raws arbitrary: turns)
  case (Cons raw raws)
  then obtain mid where mid: "line_arrives deadline turns raw mid" "lines_arrive deadline mid raws rest" by auto
  obtain used where used: "turns = used @ mid" "bytes_in used = raw @ [CHR 0x0A]"
    using line_arrives_bytes[OF mid(1)] by blast
  obtain used' where "mid = used' @ rest" "int (length (bytes_in used')) \<le> counted_bytes raws + int (length raws)"
    using Cons.IH[OF mid(2)] by blast
  moreover have "length raw \<le> Suc (length (line_of raw))" by (auto simp: line_of_def)
  ultimately show ?case using used by (intro exI[of _ "used @ used'"]) simp
qed simp


lemma read_headers_status:
  "read_headers deadline bytes lines turns = Some (Some (status, reason), rest) \<Longrightarrow> status \<in> {400, 408, 431}"
proof (induction deadline bytes lines turns rule: read_headers.induct)
  case (1 deadline bytes lines turns)
  obtain n line rest' where recv: "receive_line_until LINE_SIZE deadline turns = Some (n, line, rest')"
    using 1(2) by (subst (asm) read_headers.simps) (auto split: option.splits)
  show ?case
    using 1(2) recv 1(1)[OF recv refl refl] by (subst (asm) read_headers.simps) (auto split: if_splits)
qed

text \<open>A request ends at its deadline.\<close>

lemma read_headers_returns:
  "t \<in> set turns \<Longrightarrow> \<not> turn_live deadline t \<Longrightarrow> \<exists>r. read_headers deadline bytes lines turns = Some r"
proof (induction deadline bytes lines turns rule: read_headers.induct)
  case (1 deadline bytes lines turns)
  obtain n line rest where recv: "receive_line_until LINE_SIZE deadline turns = Some (n, line, rest)"
    unfolding receive_line_until_def using receive_from_returns[OF 1(2,3)] by fast
  have "t \<in> set rest" if "0 < n"
    using receive_line_used[OF recv that] 1(2,3) by (metis Un_iff set_append)
  then show ?case
    using recv 1(1)[OF recv refl refl] 1(3) by (subst read_headers.simps) auto
qed

section \<open>The response\<close>

lemma append_text_below: "length body < n \<Longrightarrow> length (append_text n text body) < n"
  by (auto simp: append_text_def Let_def snprintf_def)

lemma fold_append_below: "length body < n \<Longrightarrow> length (fold (\<lambda>i. append_text n (f i)) xs body) < n"
  by (induction xs arbitrary: body) (simp_all add: append_text_below)

lemma json_fields_below:
  "json_fields n first fs body = Inr out \<Longrightarrow> length body < n \<Longrightarrow> length out < n"
  by (induction n first fs body rule: json_fields.induct)
    (auto simp: append_text_below split: prod.splits option.splits)

lemma drop_brace_below: "length body < n \<Longrightarrow> length (drop_brace body) < n"
  by (auto simp: drop_brace_def)

lemma json_nodes_loop_below:
  "json_nodes_loop n now first ns body = Inr out \<Longrightarrow> length body < n \<Longrightarrow> length out < n"
proof (induction ns arbitrary: first body)
  case Nil
  then show ?case by simp
next
  case (Cons node ns)
  then show ?case
    by (auto simp: bindF_eq_Inr append_text_below drop_brace_below json_fields_below Let_def split: if_splits)
qed

lemma build_json_below:
  assumes "build_json path s e now HTTP_BODY_SIZE = Inr out"
  shows "length out < HTTP_BODY_SIZE"
proof -
  have "(0::nat) < HTTP_BODY_SIZE" by (simp add: HTTP_BODY_SIZE_def)
  then show ?thesis
    using assms by (auto simp: build_json_def json_status_def json_nodes_def json_alerts_def bindF_eq_Inr Let_def
        append_text_below fold_append_below dest!: json_fields_below json_nodes_loop_below split: if_splits)
qed

text \<open>The status and body of a request that was read.\<close>

definition status_for :: "request_reads \<Rightarrow> string \<Rightarrow> string \<Rightarrow> int" where
  "status_for e meth path =
     (if meth \<noteq> ''GET'' then 405 else if \<not> rq_malloc_ok e then 503
      else if path \<in> {''/'', ''/nodes'', ''/alerts''} then 200
      else if path = ''/status'' then (if rq_tcp_ok e \<and> rq_udp_ok e then 200 else 503)
      else 404)"

definition json_for :: "RegistrySnapshot \<Rightarrow> request_reads \<Rightarrow> string \<Rightarrow> string" where
  "json_for s e path =
     (if path = ''/status'' then ''{'' @ json_pairs (system_status_fields s (pr_status (rq_page e))) @ ''}''
      else if path = ''/nodes'' then
        ''['' @ join CHR '','' (map (json_node (pr_now (rq_page e))) (filter tn_in_use (rg_nodes s))) @ '']''
      else ''['' @ join CHR '','' (map json_alert (alert_log s)) @ '']'')"

definition body_for :: "(int \<Rightarrow> string) \<Rightarrow> RegistrySnapshot \<Rightarrow> request_reads \<Rightarrow> string \<Rightarrow> string \<Rightarrow> string" where
  "body_for clock_text s e meth path =
     (if meth \<noteq> ''GET'' then ''GET required'' else if \<not> rq_malloc_ok e then ''Capacity''
      else if path = ''/'' then concat (html_texts clock_text s (rq_page e))
      else if path \<in> {''/status'', ''/nodes'', ''/alerts''} then json_for s e path
      else ''{'' @ dq @ ''error'' @ dq @ '':'' @ dq @ ''not found'' @ dq @ ''}'')"

text \<open>The header before it is cut to its buffer.\<close>

definition header_text :: "http_response \<Rightarrow> string" where
  "header_text r =
     ''HTTP/1.1 '' @ show_int (hr_status r) @ '' Response'' @ crlf @ ''Content-Type: '' @ hr_type r @ crlf @
       ''Content-Length: '' @ show_nat (length (hr_body r)) @ crlf @ ''Connection: close'' @ crlf @ crlf"

text \<open>What a request reads agrees with the registry and its clock.\<close>

definition request_reads_ok :: "registry_state \<Rightarrow> request_reads \<Rightarrow> bool" where
  "request_reads_ok st e =
     (rq_snapshot e = st_registry st \<and> reads_ok st \<lparr>cr_status = pr_status (rq_page e), cr_now = pr_now (rq_page e)\<rparr>)"

lemma http_header_eq:
  assumes "hr_status r \<in> {200, 400, 404, 405, 408, 431, 503}" and "length (hr_type r) \<le> 24"
    and "length (hr_body r) < HTTP_BODY_SIZE"
  shows "http_header r = header_text r"
proof -
  have "length (show_int (hr_status r)) \<le> 5" using assms(1) by (intro length_show_small) auto
  moreover have "length (show_nat (length (hr_body r))) \<le> 5"
    using assms(3) by (intro length_show_nat) (simp_all add: HTTP_BODY_SIZE_def)
  ultimately have "length (header_text r) < 256" using assms(2) by (simp add: header_text_def crlf_def)
  then show ?thesis unfolding http_header_def header_text_def[symmetric] by simp
qed

lemma length_body_for:
  assumes "reg_wf st" and "request_reads_ok st e" and "\<forall>t. length (clock_text t) \<le> 8"
  shows "length (body_for clock_text (st_registry st) e meth path) < HTTP_BODY_SIZE"
proof -
  let ?r = "\<lparr>cr_status = pr_status (rq_page e), cr_now = pr_now (rq_page e)\<rparr>"
  have r: "reads_ok st ?r" using assms(2) by (simp add: request_reads_ok_def)
  have json: "length (json_for (st_registry st) e p) < HTTP_BODY_SIZE" for p
    using build_json_below[OF build_json_eq[OF assms(1) r, of p "pr_now (rq_page e)"]]
    by (simp only: json_for_def command_reads.simps)
  have "length (concat (html_texts clock_text (st_registry st) (rq_page e))) < HTTP_BODY_SIZE"
    by (rule html_texts_length[OF assms(1) r _ _ assms(3)]) simp_all
  then show ?thesis using json[of path] by (simp add: body_for_def) (simp add: HTTP_BODY_SIZE_def)
qed

lemma respond_eq:
  assumes "reg_wf st" and "request_reads_ok st e" and "\<forall>t. length (clock_text t) \<le> 8"
  obtains r where "respond clock_text e meth path = Inr r" and "hr_status r = status_for e meth path"
    and "hr_body r = body_for clock_text (st_registry st) e meth path" and "length (hr_type r) \<le> 24"
proof -
  let ?r = "\<lparr>cr_status = pr_status (rq_page e), cr_now = pr_now (rq_page e)\<rparr>"
  have s: "rq_snapshot e = st_registry st" and r: "reads_ok st ?r" using assms(2) by (simp_all add: request_reads_ok_def)
  have json: "build_json path (st_registry st) (pr_status (rq_page e)) (pr_now (rq_page e)) HTTP_BODY_SIZE =
      Inr (json_for (st_registry st) e path)"
    using build_json_eq[OF assms(1) r, of path "pr_now (rq_page e)"] by (simp only: json_for_def command_reads.simps)
  have html: "build_html clock_text (st_registry st) (rq_page e) HTTP_BODY_SIZE =
      concat (html_texts clock_text (st_registry st) (rq_page e))"
    by (rule build_html_eq[OF assms(1) r _ _ assms(3)]) simp_all
  show thesis
    by (rule that[of "http_response.make (status_for e meth path)
          (if meth \<noteq> ''GET'' \<or> \<not> rq_malloc_ok e then ''text/plain'' else if path = ''/'' then ''text/html; charset=utf-8''
           else ''application/json'')
          (body_for clock_text (st_registry st) e meth path)"])
      (auto simp: respond_def plain_def http_response.make_def status_for_def body_for_def s html json)
qed

text \<open>The short texts of the refusals.\<close>

lemma plain_framed:
  "status \<in> {200, 400, 404, 405, 408, 431, 503} \<Longrightarrow> length reason \<le> 100 \<Longrightarrow>
     http_header (plain status reason) = header_text (plain status reason) \<and> length (hr_body (plain status reason)) < HTTP_BODY_SIZE"
  using http_header_eq[of "plain status reason"] by (simp add: plain_def HTTP_BODY_SIZE_def)

lemma status_for_set: "status_for e meth path \<in> {200, 404, 405, 503}"
  by (auto simp: status_for_def)

lemma read_headers_reason:
  "read_headers deadline bytes lines turns = Some (Some (status, reason), rest) \<Longrightarrow> length reason \<le> 100"
proof (induction deadline bytes lines turns rule: read_headers.induct)
  case (1 deadline bytes lines turns)
  obtain n line rest' where recv: "receive_line_until LINE_SIZE deadline turns = Some (n, line, rest')"
    using 1(2) by (subst (asm) read_headers.simps) (auto split: option.splits)
  show ?case
    using 1(2) recv 1(1)[OF recv refl refl] by (subst (asm) read_headers.simps) (auto split: if_splits)
qed

lemma respond_framed:
  assumes "reg_wf st" and "request_reads_ok st e" and "\<forall>t. length (clock_text t) \<le> 8"
  shows "\<exists>r. respond clock_text e meth path = Inr r \<and> hr_status r = status_for e meth path \<and>
    hr_body r = body_for clock_text (st_registry st) e meth path \<and> http_header r = header_text r \<and>
    length (hr_body r) < HTTP_BODY_SIZE"
proof -
  obtain r where r: "respond clock_text e meth path = Inr r" "hr_status r = status_for e meth path"
    "hr_body r = body_for clock_text (st_registry st) e meth path" "length (hr_type r) \<le> 24"
    using respond_eq[OF assms] by blast
  moreover have "length (hr_body r) < HTTP_BODY_SIZE" using length_body_for[OF assms] r(3) by simp
  moreover have "hr_status r \<in> {200, 400, 404, 405, 408, 431, 503}" using status_for_set r(2) by auto
  ultimately show ?thesis using http_header_eq by blast
qed

section \<open>Two inputs the protocol describes otherwise\<close>

text \<open>A complete request line with a byte that is not printable ASCII gets 408, as an incomplete one
  does: the first read maps every result but -2 to it.\<close>

lemma invalid_byte_is_408:
  "serve_http_request clock_text e 0 (turns_of (''GET /'' @ [CHR 0x80] @ '' HTTP/1.1'' @ crlf @ crlf)) =
     Some (Inr (plain 408 ''Incomplete request''))"
proof -
  have "map_option fst (receive_line_until LINE_SIZE 2000 (turns_of (''GET /'' @ [CHR 0x80] @ '' HTTP/1.1'' @ crlf @ crlf))) =
      Some (- 3)"
    by code_simp
  then show ?thesis by (auto simp: serve_http_request_def Let_def)
qed

text \<open>A path of exactly 63 characters needs no space before the version, since \<open>%63s\<close> stops there.\<close>

lemma glued_version_accepted:
  "request_line (''GET /'' @ replicate 62 CHR ''a'' @ ''HTTP/1.1'') = Some (''GET'', ''/'' @ replicate 62 CHR ''a'')"
  by code_simp

section \<open>Properties\<close>

text \<open>C9: a well-formed request within the limits (a method of at most 15 characters, a path of at most
  63, a version 1.0 or 1.1, at most 64 headers with a colon, 8192 bytes in all) whose bytes arrive
  in time gets, whatever follows it, exactly the status and the whole body of its method and path,
  under a complete header.\<close>

theorem http_request_served:
  assumes "reg_wf st" and "request_reads_ok st e" and "\<forall>t. length (clock_text t) \<le> 8"
    and "\<forall>t \<in> set turns. turn_live (start + 2000) t \<and> turn_reads t"
    and "bytes_in turns = first_line meth path version @ crlf @ headers_text hs @ tail"
    and "http_word 15 meth" and "http_word 63 path" and "version \<in> {''HTTP/1.0'', ''HTTP/1.1''}"
    and "\<forall>h \<in> set hs. header_ok h" and "length hs \<le> 64" and "request_bytes (first_line meth path version) hs \<le> 8192"
  shows "\<exists>r. serve_http_request clock_text e start turns = Some (Inr r) \<and> hr_status r = status_for e meth path \<and>
    hr_body r = body_for clock_text (st_registry st) e meth path \<and> http_header r = header_text r"
proof -
  let ?l = "first_line meth path version"
  have ver: "length version = 8" "\<forall>c \<in> set version. text_char c" using assms(8) by auto
  have "length meth \<le> 15" "length path \<le> 63" using assms(6,7) by (simp_all add: http_word_def)
  then have l: "\<forall>c \<in> set ?l. text_char c" "Suc (length ?l) < LINE_SIZE"
    using assms(6,7) ver by (simp_all add: first_line_def http_word_def LINE_SIZE_def ball_Un)
  have "bytes_in turns = ?l @ CHR 0x0D # CHR 0x0A # (headers_text hs @ tail)"
    using assms(5) by (simp add: crlf_def)
  then obtain rest where rest: "receive_line_until LINE_SIZE (start + 2000) turns = Some (int (length ?l) + 1, ?l, rest)"
    "bytes_in rest = headers_text hs @ tail" "\<forall>t \<in> set rest. turn_live (start + 2000) t \<and> turn_reads t"
    by (rule receive_crlf_line) (use assms(4) l in auto)
  have "\<exists>r. read_headers (start + 2000) (int (Suc (length ?l))) 0 rest = Some (None, r)"
    using assms(9-11) by (intro read_headers_run[OF rest(2,3)]) (simp_all add: request_bytes_def)
  moreover have "int (Suc (length ?l)) = int (length ?l) + 1" by simp
  ultimately obtain r where "read_headers (start + 2000) (int (length ?l) + 1) 0 rest = Some (None, r)" by metis
  then have "serve_http_request clock_text e start turns = Some (respond clock_text e meth path)"
    using rest(1) request_line_exact[OF assms(6-8)] by (simp add: serve_http_request_def Let_def)
  then show ?thesis using respond_framed[OF assms(1-3), of meth path] by auto
qed

definition demo_request :: request_reads where
  "demo_request = \<lparr>rq_snapshot = st_registry one_node, rq_page = demo_page, rq_tcp_ok = True, rq_udp_ok = False,
     rq_malloc_ok = True\<rparr>"

lemma demo_request_ok: "request_reads_ok one_node demo_request"
  using demo_reads_ok by (simp add: request_reads_ok_def demo_request_def demo_page_def demo_reads_def)

lemma http_request_served_witness:
  "\<exists>r. serve_http_request (\<lambda>t. ''12:00:00'') demo_request 0
      (turns_of (first_line ''GET'' ''/status'' ''HTTP/1.1'' @ crlf @ headers_text [''Host: a''] @ [])) = Some (Inr r) \<and>
    hr_status r = 503"
proof -
  let ?req = "first_line ''GET'' ''/status'' ''HTTP/1.1'' @ crlf @ headers_text [''Host: a''] @ []"
  have h: "header_ok ''Host: a''" by code_simp
  have w: "http_word 15 ''GET''" "http_word 63 ''/status''" "status_for demo_request ''GET'' ''/status'' = 503"
    by (simp_all add: http_word_def status_for_def demo_request_def)
  have b: "request_bytes (first_line ''GET'' ''/status'' ''HTTP/1.1'') [''Host: a''] \<le> 8192" by code_simp
  have t: "\<forall>t \<in> set (turns_of ?req). turn_live (0 + 2000) t \<and> turn_reads t" by (rule turns_of_live) simp
  have c: "\<forall>t. length ((\<lambda>t :: int. ''12:00:00'') t) \<le> 8" by simp
  have v: "''HTTP/1.1'' \<in> {''HTTP/1.0'', ''HTTP/1.1''}" and hs: "\<forall>h \<in> set [''Host: a'']. header_ok h" "length [''Host: a''] \<le> 64"
    using h by simp_all
  show ?thesis
    using http_request_served[OF one_node_wf demo_request_ok c t bytes_turns_of w(1,2) v hs b] w(3) by auto
qed

text \<open>C12: whatever bytes arrive, and however slowly, a request is answered at the latest at the first
  turn past its deadline of two seconds: without undefined behaviour, with one of seven statuses,
  a complete header and a body below the size of the buffer.\<close>

theorem http_always_answers:
  assumes "reg_wf st" and "request_reads_ok st e" and "\<forall>t. length (clock_text t) \<le> 8"
    and "t \<in> set turns" and "start + 2000 \<le> rv_now t"
  shows "\<exists>r. serve_http_request clock_text e start turns = Some (Inr r) \<and>
    hr_status r \<in> {200, 400, 404, 405, 408, 431, 503} \<and> http_header r = header_text r \<and>
    length (hr_body r) < HTTP_BODY_SIZE"
proof -
  have dead: "\<not> turn_live (start + 2000) t" using assms(5) by (simp add: turn_live_def)
  obtain n line rest where recv: "receive_line_until LINE_SIZE (start + 2000) turns = Some (n, line, rest)"
    unfolding receive_line_until_def using receive_from_returns[OF assms(4) dead] by fast
  have refused: ?thesis
    if "serve_http_request clock_text e start turns = Some (Inr (plain status reason))"
      "status \<in> {400, 408, 431}" "length reason \<le> 100" for status reason
    using that plain_framed[of status reason] by (auto simp: plain_def)
  show ?thesis
  proof (cases "n \<le> 0 \<or> request_line line = None")
    case True
    then show ?thesis
      using recv by (intro refused[of "if n \<le> 0 then if n = - 2 then 431 else 408 else 400"
            "if n \<le> 0 then ''Incomplete request'' else ''Bad request''"]) (auto simp: serve_http_request_def Let_def)
  next
    case False
    then obtain meth path where m: "request_line line = Some (meth, path)" by auto
    have "t \<in> set rest"
      using receive_line_used[OF recv] False dead assms(4) by (metis Un_iff not_le set_append)
    then obtain h rest2 where h: "read_headers (start + 2000) n 0 rest = Some (h, rest2)"
      using read_headers_returns[OF _ dead, of rest n 0] by auto
    show ?thesis
    proof (cases h)
      case None
      then have "serve_http_request clock_text e start turns = Some (respond clock_text e meth path)"
        using recv False m h by (simp add: serve_http_request_def Let_def)
      then show ?thesis using respond_framed[OF assms(1-3), of meth path] status_for_set[of e meth path] by auto
    next
      case (Some sr)
      then obtain status reason where sr: "h = Some (status, reason)" by (cases sr) simp
      then have "serve_http_request clock_text e start turns = Some (Inr (plain status reason))"
        using recv False m h by (simp add: serve_http_request_def Let_def)
      then show ?thesis
        using refused[of status reason] read_headers_status read_headers_reason h sr by auto
    qed
  qed
qed

lemma http_always_answers_witness:
  "\<exists>r. serve_http_request (\<lambda>t. ''12:00:00'') demo_request 0
      [\<lparr>rv_now = 1, rv_wait = 1, rv_recv = Byte CHR ''G''\<rparr>, \<lparr>rv_now = 2000, rv_wait = 1, rv_recv = Recv_again\<rparr>] =
        Some (Inr r) \<and> http_header r = header_text r"
  using http_always_answers[OF one_node_wf demo_request_ok,
      of "\<lambda>t. ''12:00:00''" "\<lparr>rv_now = 2000, rv_wait = 1, rv_recv = Recv_again\<rparr>"
        "[\<lparr>rv_now = 1, rv_wait = 1, rv_recv = Byte CHR ''G''\<rparr>, \<lparr>rv_now = 2000, rv_wait = 1, rv_recv = Recv_again\<rparr>]" 0]
  by auto

text \<open>C18: the headers are read to their end exactly when whole lines arrive before the deadline, at
  most 64 of them before an empty one, each shorter than the buffer, printable and with a colon, and
  they are at most 8192 bytes with the request line. The server counts a line with one end mark, so a
  carriage return before the line feed is free: the bytes that were read are at most 8258.\<close>

theorem headers_within_limits:
  assumes "n \<le> 8192"
  shows "(read_headers deadline n 0 turns = Some (None, rest) \<longleftrightarrow>
      (\<exists>raws end. lines_arrive deadline turns (raws @ [end]) rest \<and> line_of end = [] \<and>
         (\<forall>raw \<in> set raws. header_line_ok raw) \<and> length raws \<le> 64 \<and> n + counted_bytes raws \<le> 8192)) \<and>
    (read_headers deadline n 0 turns = Some (None, rest) \<longrightarrow>
      (\<exists>used. turns = used @ rest \<and> n + int (length (bytes_in used)) \<le> 8258))"
proof -
  have exact: "read_headers deadline n 0 turns = Some (None, rest) \<longleftrightarrow>
      (\<exists>raws end. lines_arrive deadline turns (raws @ [end]) rest \<and> line_of end = [] \<and>
         (\<forall>raw \<in> set raws. header_line_ok raw) \<and> length raws \<le> 64 \<and> n + counted_bytes raws \<le> 8192)"
    using read_headers_exact[of 0 n deadline turns rest] assms by simp
  moreover have "\<exists>used. turns = used @ rest \<and> n + int (length (bytes_in used)) \<le> 8258"
    if "lines_arrive deadline turns (raws @ [e]) rest" "line_of e = []" "length raws \<le> 64" "n + counted_bytes raws \<le> 8192"
    for raws e
  proof -
    have "counted_bytes (raws @ [e]) = counted_bytes raws + 1" using that(2) by (simp add: counted_bytes_def)
    then show ?thesis using lines_arrive_bytes[OF that(1)] that(3,4) by auto
  qed
  ultimately show ?thesis by blast
qed

text \<open>A header of 126 characters before its carriage return.\<close>

definition wide_header :: string where
  "wide_header = ''X:'' @ replicate 124 CHR ''a'' @ [CHR 0x0D]"

lemma wide_header_ok: "header_line_ok wide_header" "line_of wide_header = ''X:'' @ replicate 124 CHR ''a''"
  "CHR 0x0A \<notin> set wide_header" "length wide_header = 127"
  by (simp_all add: wide_header_def line_of_def header_line_ok_def LINE_SIZE_def text_char_def char_code_def)

lemma turns_of_lines:
  "\<forall>raw \<in> set raws. CHR 0x0A \<notin> set raw \<Longrightarrow> 1 < deadline \<Longrightarrow>
   lines_arrive deadline (turns_of (concat (map (\<lambda>raw. raw @ [CHR 0x0A]) raws))) raws []"
  by (induction raws) (auto intro!: turns_of_arrive exI simp: turns_of_def[of "[]"])

text \<open>The witness: 64 such headers, 8194 bytes with the empty line, are read after a request line of 16.\<close>

lemma headers_within_limits_witness:
  "\<exists>text. length text = 8194 \<and> read_headers 2000 16 0 (turns_of text) = Some (None, [])"
proof -
  let ?raws = "replicate 64 wide_header @ [[CHR 0x0D]]"
  let ?text = "concat (map (\<lambda>raw. raw @ [CHR 0x0A]) ?raws)"
  have "counted_bytes (replicate 64 wide_header) = 64 * 127"
    by (simp add: counted_bytes_def sum_list_replicate wide_header_ok)
  moreover have "lines_arrive 2000 (turns_of ?text) ?raws []"
    by (rule turns_of_lines) (auto simp: wide_header_ok)
  ultimately have "read_headers 2000 16 0 (turns_of ?text) = Some (None, [])"
    using headers_within_limits[of 16 2000 "turns_of ?text" "[]"] wide_header_ok(1)
    by (auto intro!: exI[of _ "replicate 64 wide_header"] exI[of _ "[CHR 0x0D]"] simp: line_of_def)
  moreover have "length ?text = 8194" by (simp add: length_concat sum_list_replicate wide_header_ok)
  ultimately show ?thesis by blast
qed

end
