(* ===== verification/Udp_Server.thy ===== *)
theory Udp_Server
  imports RegistrySpec Subscribers Sockets Health
begin

text \<open>
  The telemetry receiver of \<^verbatim>\<open>server/udp_telemetry_server.c\<close>: the checks on the bytes of a
  datagram, the parsing of its line, the record in the registry, and the alerts left to broadcast,
  one locked section each. A datagram is the list of its bytes, as sent: \<open>MSG_TRUNC\<close> makes
  \<open>recvfrom\<close> return its real length, also when the buffer holds only its first 1025 bytes.
\<close>

section \<open>One datagram\<close>

text \<open>The line of a datagram that passes the checks on its bytes.\<close>

definition udp_frame :: "string \<Rightarrow> string option" where
  "udp_frame payload =
     (let received = length payload; datagram = take (MAX_LINE + 1) payload
      in if received \<le> 0 \<or> MAX_LINE < received \<or> datagram ! (received - 1) \<noteq> CHR 0x0A \<or>
            CHR 0x00 \<in> set (take received datagram) \<or> CHR 0x0A \<in> set (take (received - 1) datagram)
         then None
         else Some (c_str ((datagram @ [CHR 0x00])[received := CHR 0x00, received - 1 := CHR 0x00])))"

record telemetry =
  tl_node_id :: string
  tl_session :: string
  tl_sequence :: int
  tl_values :: "Measurement list"

text \<open>The condition \<open>well_formed\<close>.\<close>

definition parse_telemetry :: "string \<Rightarrow> telemetry option" where
  "parse_telemetry line =
     (case parse_message line of
        None \<Rightarrow> None
      | Some m \<Rightarrow>
          if pm_command m \<noteq> ''TELEMETRY'' \<or> length (pm_args m) \<noteq> 4 \<or>
             \<not> is_valid_node_id (pm_args m ! 0) \<or> \<not> is_valid_session (pm_args m ! 1) then None
          else
            case parse_uint (pm_args m ! 2) (int SESSION_LIMIT - 1) of
              None \<Rightarrow> None
            | Some sequence \<Rightarrow>
                (case parse_measurements (pm_args m ! 3) MAX_VARS of
                   None \<Rightarrow> None
                 | Some values \<Rightarrow>
                     Some \<lparr>tl_node_id = pm_args m ! 0, tl_session = pm_args m ! 1,
                           tl_sequence = sequence, tl_values = values\<rparr>))"

text \<open>\<open>now\<close> and \<open>clk\<close> are the clock readings of the registry. The result is the alerts to broadcast.\<close>

definition udp_datagram ::
  "int \<Rightarrow> (nat \<Rightarrow> int) \<Rightarrow> string \<Rightarrow> registry_state \<Rightarrow> fault + Alert list \<times> registry_state" where
  "udp_datagram now clk payload reg =
     (case udp_frame payload of
        None \<Rightarrow> Inr ([], registry_invalid_datagram reg)
      | Some line \<Rightarrow>
          (case parse_telemetry line of
             None \<Rightarrow> Inr ([], registry_invalid_datagram reg)
           | Some t \<Rightarrow>
               bindF (registry_record_telemetry now clk (tl_node_id t) (tl_session t) (tl_sequence t) (tl_values t) reg)
                 (\<lambda>(count, new_alerts, reg'). Inr (take (nat count) new_alerts, reg'))))"

text \<open>The loop \<open>for (i = 0; i < new_alert_count; i++) subscribers_broadcast(\<dots>)\<close>.\<close>

definition broadcast_all :: "Alert list \<Rightarrow> subscribers_state \<Rightarrow> subscribers_state" where
  "broadcast_all new_alerts subs = fold (\<lambda>a s. snd (subscribers_broadcast a s)) new_alerts subs"

section \<open>The loop\<close>

datatype recvfrom_result = Datagram string | Recvfrom_failed

text \<open>One turn: the clock of the heartbeat, the result of \<open>wait_readable\<close> and of \<open>recvfrom\<close>.\<close>

definition udp_turn ::
  "int \<Rightarrow> int \<Rightarrow> recvfrom_result \<Rightarrow> int \<Rightarrow> (nat \<Rightarrow> int) \<Rightarrow> registry_state \<times> subscribers_state \<times> health_state \<Rightarrow>
     fault + registry_state \<times> subscribers_state \<times> health_state" where
  "udp_turn beat ready received now clk st =
     (case st of (reg, subs, beats) \<Rightarrow>
        let beats' = service_heartbeat 1 beat beats
        in if ready \<le> 0 then Inr (reg, subs, beats')
           else
             case received of
               Recvfrom_failed \<Rightarrow> Inr (reg, subs, beats')
             | Datagram payload \<Rightarrow>
                 bindF (udp_datagram now clk payload reg) (\<lambda>(new_alerts, reg').
                   Inr (reg', broadcast_all new_alerts subs, beats')))"

section \<open>Facts\<close>

lemma c_str_append_NUL: "CHR 0x00 \<notin> set l \<Longrightarrow> c_str (l @ CHR 0x00 # r) = l"
  by (induction l) (auto simp: c_str_def)

lemma udp_frame_iff:
  "udp_frame payload = Some line \<longleftrightarrow>
     payload = line @ [CHR 0x0A] \<and> length line < MAX_LINE \<and> CHR 0x0A \<notin> set line \<and> CHR 0x00 \<notin> set line"
proof (cases "payload = [] \<or> MAX_LINE < length payload")
  case True
  then show ?thesis by (auto simp: udp_frame_def)
next
  case False
  then obtain l c where p: "payload = l @ [c]" by (metis rev_exhaust)
  have len: "length l < MAX_LINE" "take (MAX_LINE + 1) payload = payload" using False p by simp_all
  have "((payload @ [CHR 0x00])[length payload := CHR 0x00, length payload - 1 := CHR 0x00]) =
      l @ [CHR 0x00, CHR 0x00]"
    by (simp add: p list_update_append)
  then show ?thesis
    using len by (auto simp: udp_frame_def Let_def p c_str_append_NUL nth_append)
qed

lemma parse_telemetry_ok:
  assumes "parse_telemetry line = Some t"
  shows "is_valid_node_id (tl_node_id t)" and "is_valid_session (tl_session t)"
    and "\<exists>s. tl_sequence t = int s \<and> s < SESSION_LIMIT"
    and "measurements_ok (tl_values t)" and "length (tl_values t) \<le> 5" and "length (tl_values t) \<le> MAX_VARS"
proof -
  obtain m where pm: "parse_message line = Some m"
    using assms by (cases "parse_message line") (auto simp: parse_telemetry_def)
  have m: "is_valid_node_id (pm_args m ! 0)" "is_valid_session (pm_args m ! 1)"
    "parse_uint (pm_args m ! 2) (int SESSION_LIMIT - 1) = Some (tl_sequence t)"
    "parse_measurements (pm_args m ! 3) MAX_VARS = Some (tl_values t)"
    "tl_node_id t = pm_args m ! 0" "tl_session t = pm_args m ! 1"
    using assms pm by (auto simp: parse_telemetry_def split: option.splits if_splits)
  show "is_valid_node_id (tl_node_id t)" "is_valid_session (tl_session t)" using m by simp_all
  have "0 \<le> tl_sequence t" "tl_sequence t < int SESSION_LIMIT" using parse_uint_range[OF m(3)] by simp_all
  then show "\<exists>s. tl_sequence t = int s \<and> s < SESSION_LIMIT"
    by (metis nonneg_int_cases of_nat_less_iff)
  show "measurements_ok (tl_values t)" "length (tl_values t) \<le> MAX_VARS"
    using parse_measurements_ok[OF m(4)] by simp_all
  then show "length (tl_values t) \<le> 5" using measurements_ok_length by blast
qed

text \<open>Room for the alerts of one more datagram in the \<open>int\<close> counter.\<close>

definition alerts_room :: "registry_state \<Rightarrow> bool" where
  "alerts_room reg = (rg_total_alerts (st_registry reg) + 5 \<le> INT_MAX)"

lemma telemetry_count:
  assumes wf: "reg_wf reg" and s: "s < SESSION_LIMIT" and ms: "measurements_ok ms" "length ms \<le> MAX_VARS"
    and run: "registry_record_telemetry now clk k session (int s) ms reg = Inr (count, alerts, reg')"
  shows "take (nat count) alerts = alerts" and "length alerts \<le> length ms"
    and "\<forall>a \<in> set alerts. alert_ok a"
proof -
  have all: "take (nat count) alerts = alerts \<and> length alerts \<le> length ms \<and> (\<forall>a \<in> set alerts. alert_ok a)"
  proof (cases "\<exists>i. find_node (st_registry reg) k = Some i \<and> tn_session (node_at reg i) = session")
    case True
    then obtain i where i: "find_node (st_registry reg) k = Some i" "tn_session (node_at reg i) = session" by blast
    have out: "telemetry_outcome now clk k i s ms reg = Inr (count, alerts, reg')"
      using run telemetry_found_outcome[OF wf i s ms] by simp
    have "is_valid_node_id k" using reg_wf_found(3,4)[OF wf i(1)] by (simp add: node_ok_def)
    then have "\<forall>a \<in> set (new_alerts_of clk k (node_at reg i) ms). alert_ok a"
      using ms(1) by (intro new_alerts_ok) (simp_all add: measurements_ok_def)
    then show ?thesis
      using out length_new_alerts[of clk k "node_at reg i" ms]
      by (auto simp: telemetry_outcome_def Let_def split: if_splits)
  next
    case False
    then have "registry_record_telemetry now clk k session (int s) ms reg = Inr (- 1, [], counted_unknown reg)"
      by (intro telemetry_unknown) (cases "find_node (st_registry reg) k"; auto)
    then show ?thesis using run by simp
  qed
  then show "take (nat count) alerts = alerts" "length alerts \<le> length ms" "\<forall>a \<in> set alerts. alert_ok a"
    by blast+
qed

text \<open>The two ways a datagram is handled.\<close>

lemma udp_datagram_cases:
  assumes "udp_datagram now clk payload reg = Inr (alerts, reg')" and "reg_wf reg"
  obtains (malformed) "alerts = []" "reg' = registry_invalid_datagram reg"
      "\<forall>line. udp_frame payload = Some line \<longrightarrow> parse_telemetry line = None"
  | (recorded) line t s count where "udp_frame payload = Some line" "parse_telemetry line = Some t"
      "tl_sequence t = int s" "s < SESSION_LIMIT" "measurements_ok (tl_values t)" "length (tl_values t) \<le> MAX_VARS"
      "registry_record_telemetry now clk (tl_node_id t) (tl_session t) (int s) (tl_values t) reg =
         Inr (count, alerts, reg')"
      "length alerts \<le> 5" "\<forall>a \<in> set alerts. alert_ok a"
proof (cases "\<exists>line t. udp_frame payload = Some line \<and> parse_telemetry line = Some t")
  case True
  then obtain line t where lt: "udp_frame payload = Some line" "parse_telemetry line = Some t" by blast
  note ok = parse_telemetry_ok[OF lt(2)]
  obtain s where s: "tl_sequence t = int s" "s < SESSION_LIMIT" using ok(3) by blast
  obtain count new where run: "registry_record_telemetry now clk (tl_node_id t) (tl_session t) (int s) (tl_values t) reg =
      Inr (count, new, reg')" and new: "alerts = take (nat count) new"
    using assms(1) lt s(1) by (auto simp: udp_datagram_def bindF_eq_Inr)
  note count = telemetry_count[OF assms(2) s(2) ok(4,6) run]
  show thesis
    by (rule recorded[OF lt s ok(4,6)]) (use run new count ok(5) in simp_all)
next
  case False
  then show thesis
    using assms(1) by (intro malformed) (auto simp: udp_datagram_def split: option.splits)
qed

lemma udp_datagram_total:
  assumes "reg_wf reg" and "alerts_room reg"
  obtains alerts reg' where "udp_datagram now clk payload reg = Inr (alerts, reg')"
proof (cases "\<exists>line t. udp_frame payload = Some line \<and> parse_telemetry line = Some t")
  case True
  then obtain line t where lt: "udp_frame payload = Some line" "parse_telemetry line = Some t" by blast
  note ok = parse_telemetry_ok[OF lt(2)]
  obtain s where s: "tl_sequence t = int s" "s < SESSION_LIMIT" using ok(3) by blast
  have "rg_total_alerts (st_registry reg) + int (length (tl_values t)) \<le> INT_MAX"
    using assms(2) ok(5) by (simp add: alerts_room_def)
  then have "no_fault (registry_record_telemetry now clk (tl_node_id t) (tl_session t) (int s) (tl_values t) reg)"
    by (intro telemetry_no_fault[OF assms(1) s(2) ok(4,6)])
  then show thesis using that lt s(1) by (auto simp: no_fault_iff udp_datagram_def)
next
  case False
  then show thesis
    using that by (cases "udp_frame payload") (auto simp: udp_datagram_def split: option.splits)
qed

lemma udp_datagram_keeps:
  assumes "udp_datagram now clk payload reg = Inr (alerts, reg')" and "reg_wf reg"
  shows "reg_wf reg'" and "accounts_ok reg \<Longrightarrow> accounts_ok reg'" and "nodes_le reg reg'"
    and "length alerts \<le> 5" and "\<forall>a \<in> set alerts. alert_ok a"
proof -
  show "reg_wf reg'" using assms
  proof (cases rule: udp_datagram_cases)
    case (recorded line t s count)
    then show ?thesis using telemetry_wf assms(2) by blast
  qed (simp add: assms(2) reg_wf_invalid)
  show "accounts_ok reg'" if "accounts_ok reg" using assms
  proof (cases rule: udp_datagram_cases)
    case (recorded line t s count)
    then show ?thesis using accounts_telemetry assms(2) that by blast
  qed (simp add: that accounts_invalid)
  show "nodes_le reg reg'" using assms
  proof (cases rule: udp_datagram_cases)
    case (recorded line t s count)
    then show ?thesis using telemetry_grows assms(2) by blast
  qed (simp add: nodes_le_same)
  show "length alerts \<le> 5" "\<forall>a \<in> set alerts. alert_ok a"
    by (cases rule: udp_datagram_cases[OF assms]; simp)+
qed

lemma udp_datagram_counts:
  assumes "reg_wf reg" and "udp_datagram now clk payload reg = Inr (alerts, reg')"
  shows "(if \<exists>line t. udp_frame payload = Some line \<and> parse_telemetry line = Some t
    then rg_datagrams_total (st_registry reg') = rg_datagrams_total (st_registry reg) + 1 \<and>
      (\<exists>d \<in> {0, 1}. known_datagrams reg' = known_datagrams reg + d \<and>
         rg_datagrams_invalid (st_registry reg') = rg_datagrams_invalid (st_registry reg) + 1 - d)
    else reg' = registry_invalid_datagram reg \<and> alerts = [])"
  using assms(2,1)
proof (cases rule: udp_datagram_cases)
  case malformed
  then show ?thesis by auto
next
  case (recorded line t s count)
  then show ?thesis using telemetry_counts_once[OF assms(1) recorded(4-7)] by auto
qed

text \<open>The number of datagrams that were counted, as known or as invalid.\<close>

definition handled :: "registry_state \<Rightarrow> int" where
  "handled reg = known_datagrams reg + rg_datagrams_invalid (st_registry reg)"

lemma udp_datagram_handled:
  assumes "reg_wf reg" and "udp_datagram now clk payload reg = Inr (alerts, reg')"
  shows "handled reg' = handled reg + 1"
proof (cases "\<exists>line t. udp_frame payload = Some line \<and> parse_telemetry line = Some t")
  case True
  then show ?thesis using udp_datagram_counts[OF assms] by (auto simp: handled_def)
next
  case False
  then have "reg' = registry_invalid_datagram reg" using udp_datagram_counts[OF assms] by (simp split: if_splits)
  then show ?thesis
    by (simp add: handled_def known_datagrams_def) (simp add: registry_invalid_datagram_def upd_registry_def)
qed

lemma same_handled: "same_accounts st st' \<Longrightarrow> handled st' = handled st"
  by (simp add: same_accounts_def handled_def known_datagrams_def)

section \<open>Properties\<close>

text \<open>C24: a datagram passes the checks on its bytes exactly when it is one line of less than 1024
  characters without NUL and its line feed: a truncated, empty or multi-line datagram never
  reaches the parser.\<close>

theorem udp_frame_exact:
  "udp_frame payload = Some line \<longleftrightarrow>
     payload = line @ [CHR 0x0A] \<and> length line < MAX_LINE \<and> CHR 0x0A \<notin> set line \<and> CHR 0x00 \<notin> set line"
  by (rule udp_frame_iff)

text \<open>C10: whatever bytes arrive, one datagram never causes undefined behaviour while the alert counter
  has room for five alerts, keeps the invariant and the accounting of the registry, never takes
  back anything a session was told (its identifier, its received set, its reports), and raises at
  most five alerts, all well formed.\<close>

theorem datagram_safe:
  assumes "reg_wf reg" and "accounts_ok reg" and "alerts_room reg"
  shows "\<exists>alerts reg'. udp_datagram now clk payload reg = Inr (alerts, reg') \<and>
    reg_wf reg' \<and> accounts_ok reg' \<and> nodes_le reg reg' \<and> length alerts \<le> 5 \<and> (\<forall>a \<in> set alerts. alert_ok a)"
proof -
  obtain alerts reg' where run: "udp_datagram now clk payload reg = Inr (alerts, reg')"
    using udp_datagram_total[OF assms(1,3)] by blast
  show ?thesis
    using run udp_datagram_keeps[OF run assms(1)] assms(2) by blast
qed

lemma one_node_accounts: "accounts_ok one_node"
  by (rule accounts_register[OF registry_init_wf accounts_init demo_ids one_node_run])

lemma datagram_safe_witness:
  "\<exists>alerts reg'. udp_datagram 200 (\<lambda>k. 200) ''garbage'' one_node = Inr (alerts, reg') \<and> reg_wf reg'"
proof -
  have "alerts_room one_node" by (simp add: alerts_room_def one_node_at(4) INT_MAX_def)
  from datagram_safe[OF one_node_wf one_node_accounts this] show ?thesis by blast
qed

text \<open>C19: every datagram is counted: a malformed one as invalid and nothing else changes; a well-formed
  one in the total, and then exactly once more, as a new sequence number or a duplicate of its node,
  as unknown, or (after the final report) as invalid.\<close>

theorem datagram_counted:
  assumes "reg_wf reg" and "udp_datagram now clk payload reg = Inr (alerts, reg')"
  shows "(if \<exists>line t. udp_frame payload = Some line \<and> parse_telemetry line = Some t
    then rg_datagrams_total (st_registry reg') = rg_datagrams_total (st_registry reg) + 1 \<and>
      (\<exists>d \<in> {0, 1}. known_datagrams reg' = known_datagrams reg + d \<and>
         rg_datagrams_invalid (st_registry reg') = rg_datagrams_invalid (st_registry reg) + 1 - d)
    else reg' = registry_invalid_datagram reg \<and> alerts = [])"
  using assms by (rule udp_datagram_counts)

lemma datagram_counted_witness:
  "registry_invalid_datagram one_node = snd (projr (udp_datagram 200 (\<lambda>k. 200) ''garbage'' one_node))"
proof -
  have "udp_frame ''garbage'' = None" by code_simp
  then show ?thesis
    using datagram_counted[OF one_node_wf, of 200 "\<lambda>k. 200" "''garbage''" "[]" "registry_invalid_datagram one_node"]
    by (simp add: udp_datagram_def)
qed

end
