(* ===== verification/Main_Server.thy ===== *)
theory Main_Server
  imports Tcp_Props Udp_Server Http_Request
begin

text \<open>
  The server as a whole: \<^verbatim>\<open>server/main.c\<close> and the threads it starts, as one transition system.
  A step is one locked section of one thread (or one turn without shared state), so the steps
  interleave as the threads do. The workers of the status server read one snapshot each and change
  nothing but their number.
\<close>

section \<open>Startup\<close>

text \<open>The results of the system calls of \<open>main\<close>, and the clocks of \<open>registry_init\<close>.\<close>

record startup =
  up_now :: int
  up_sec :: int
  up_nsec :: int
  up_udp_fd :: int
  up_udp_bind :: int
  up_tcp_fd :: int
  up_tcp_bind :: int
  up_tcp_listen :: int
  up_http_fd :: int
  up_http_bind :: int
  up_http_listen :: int
  up_threads :: "bool \<times> bool \<times> bool"

text \<open>
  What the threads share, and where each is: the alerts the receiver has yet to broadcast and the
  number of datagrams it took (a history variable, which the code does not keep), the sockets of the connections by the point their thread has reached, and the two counters.
\<close>

record server_state =
  sv_shared :: shared_state
  sv_health :: health_state
  sv_pending :: "Alert list"
  sv_received :: nat
  sv_serving :: "int list"
  sv_leaving :: "int list"
  sv_closing :: "int list"
  sv_closed :: nat
  sv_clients :: int
  sv_running :: nat
  sv_workers :: int

definition server_init :: "int \<Rightarrow> int \<Rightarrow> int \<Rightarrow> server_state" where
  "server_init now sec nsec =
     \<lparr>sv_shared = \<lparr>sh_registry = registry_init now sec nsec, sh_subscribers = subscribers_init\<rparr>,
      sv_health = health_init, sv_pending = [], sv_received = 0, sv_serving = [], sv_leaving = [], sv_closing = [], sv_closed = 0,
      sv_clients = 0, sv_running = 0, sv_workers = 0\<rparr>"

text \<open>\<open>main\<close> up to the last \<open>pthread_create\<close>: \<open>None\<close> when it returns \<open>EXIT_FAILURE\<close>.\<close>

definition main_server :: "startup \<Rightarrow> server_state option" where
  "main_server up =
     (let state = server_init (up_now up) (up_sec up) (up_nsec up);
          udp_fd = fst (create_udp_socket (up_udp_fd up) (up_udp_bind up));
          tcp_fd = fst (create_tcp_listener (up_tcp_fd up) (up_tcp_bind up) (up_tcp_listen up));
          http_fd = fst (create_tcp_listener (up_http_fd up) (up_http_bind up) (up_http_listen up))
      in if udp_fd < 0 \<or> tcp_fd < 0 \<or> http_fd < 0 then None
         else if \<not> fst (up_threads up) \<or> \<not> fst (snd (up_threads up)) \<or> \<not> snd (snd (up_threads up)) then None
         else Some state)"

section \<open>Steps\<close>

text \<open>The sockets of the connections, none of which the kernel can give to a new one.\<close>

definition open_sockets :: "server_state \<Rightarrow> int list" where
  "open_sockets s = sv_serving s @ sv_leaving s @ sv_closing s"

inductive server_step :: "server_state \<Rightarrow> server_state \<Rightarrow> bool" where
  tcp_beat:
    "server_step s (s\<lparr>sv_health := service_heartbeat 0 now (sv_health s)\<rparr>)"
| udp_beat:
    "sv_pending s = [] \<Longrightarrow> server_step s (s\<lparr>sv_health := service_heartbeat 1 now (sv_health s)\<rparr>)"
| datagram:
    "sv_pending s = [] \<Longrightarrow> udp_datagram now clk payload (sh_registry (sv_shared s)) = Inr (new_alerts, reg) \<Longrightarrow>
     server_step s (s\<lparr>sv_shared := (sv_shared s)\<lparr>sh_registry := reg\<rparr>, sv_pending := new_alerts,
       sv_received := Suc (sv_received s)\<rparr>)"
| broadcast:
    "sv_pending s = a # rest \<Longrightarrow> subscribers_broadcast a (sh_subscribers (sv_shared s)) = (shut, subs) \<Longrightarrow>
     server_step s (s\<lparr>sv_shared := (sv_shared s)\<lparr>sh_subscribers := subs\<rparr>, sv_pending := rest\<rparr>)"
| accepted:
    "fd \<noteq> 0 \<Longrightarrow> fd \<notin> set (open_sockets s) \<Longrightarrow> accept_client malloc_ok create_ok (sv_clients s) = (outcome, n) \<Longrightarrow>
     server_step s (s\<lparr>sv_clients := n, sv_serving := (if outcome = Started then fd # sv_serving s else sv_serving s)\<rparr>)"
| drained:
    "fd \<in> set (sv_serving s) \<Longrightarrow> drain_pop fd (sh_subscribers (sv_shared s)) = (line, subs) \<Longrightarrow>
     server_step s (s\<lparr>sv_shared := (sv_shared s)\<lparr>sh_subscribers := subs\<rparr>\<rparr>)"
| drain_failed:
    "fd \<in> set (sv_serving s) \<Longrightarrow>
     server_step s (s\<lparr>sv_serving := remove1 fd (sv_serving s), sv_leaving := fd # sv_leaving s\<rparr>)"
| turn:
    "fd \<in> set (sv_serving s) \<Longrightarrow> client_turn fd i (sv_shared s) = Inr (False, reply, shared) \<Longrightarrow>
     server_step s (s\<lparr>sv_shared := shared\<rparr>)"
| last_turn:
    "fd \<in> set (sv_serving s) \<Longrightarrow> client_turn fd i (sv_shared s) = Inr (True, reply, shared) \<Longrightarrow>
     server_step s (s\<lparr>sv_shared := shared, sv_serving := remove1 fd (sv_serving s), sv_leaving := fd # sv_leaving s\<rparr>)"
| removed:
    "fd \<in> set (sv_leaving s) \<Longrightarrow>
     server_step s (s\<lparr>sv_shared := (sv_shared s)\<lparr>sh_subscribers := subscribers_remove fd (sh_subscribers (sv_shared s))\<rparr>,
       sv_leaving := remove1 fd (sv_leaving s), sv_closing := fd # sv_closing s\<rparr>)"
| closed:
    "fd \<in> set (sv_closing s) \<Longrightarrow>
     server_step s (s\<lparr>sv_closing := remove1 fd (sv_closing s), sv_closed := Suc (sv_closed s)\<rparr>)"
| ended:
    "sv_closed s = Suc n \<Longrightarrow> server_step s (s\<lparr>sv_closed := n, sv_clients := sv_clients s - 1\<rparr>)"
| request:
    "accept_worker malloc_ok create_ok (sv_workers s) = (started, n) \<Longrightarrow>
     server_step s (s\<lparr>sv_workers := n, sv_running := (if started then Suc (sv_running s) else sv_running s)\<rparr>)"
| worker_done:
    "sv_running s = Suc n \<Longrightarrow> server_step s (s\<lparr>sv_running := n, sv_workers := sv_workers s - 1\<rparr>)"

section \<open>The sockets of the table\<close>

lemma subscribed_add: "subscribed (snd (subscribers_add fd st)) \<subseteq> insert fd (subscribed st)"
  by (auto simp: subscribers_add_def subscribed_def split: option.splits dest!: set_update_subset_insert[THEN subsetD])

lemma subscribed_broadcast: "subscribed (snd (subscribers_broadcast a st)) \<subseteq> subscribed st"
  by (auto simp: subscribers_broadcast_def subscribed_def broadcast_slot_def split: if_splits)

lemma subscribed_remove: "subscribed (subscribers_remove fd st) = subscribed st - {fd}"
  by (auto simp: subscribers_remove_def subscribed_def split: if_splits)

lemma subscribed_pop: "subscribed (snd (drain_pop fd st)) = subscribed st"
proof (cases "find_index (\<lambda>s. sb_fd s = fd \<and> sb_count s \<noteq> 0) (su_slots st)")
  case (Some i)
  then have "i < length (su_slots st)" by (auto dest: find_index_SomeD)
  then have "map sb_fd ((su_slots st)[i := dequeue_line (su_slots st ! i)]) = map sb_fd (su_slots st)"
    by (simp add: map_update list_update_same_conv)
  then show ?thesis using Some by (simp add: drain_pop_def subscribed_def)
qed (simp add: drain_pop_def)

section \<open>What a turn of a connection keeps\<close>

lemma client_turn_keeps:
  assumes "client_turn fd i st = Inr (close, reply, st')" and "shared_wf st" and "fd \<noteq> 0"
  shows "shared_wf st'" and "accounts_ok (sh_registry st) \<Longrightarrow> accounts_ok (sh_registry st')"
    and "nodes_le (sh_registry st) (sh_registry st')" and "handled (sh_registry st') = handled (sh_registry st)"
    and "subscribed (sh_subscribers st') \<subseteq> insert fd (subscribed (sh_subscribers st))"
proof -
  have run: "st' = st \<or> handle_command fd (ci_line i) (ci_reads i) st = Inr (close, reply, st')"
    using assms(1) by (auto simp: client_turn_def split: if_splits)
  show "shared_wf st'" using run handle_command_wf assms(2,3) by blast
  show "accounts_ok (sh_registry st')" if "accounts_ok (sh_registry st)"
    using run handle_command_accounts assms(2) that by blast
  show "nodes_le (sh_registry st) (sh_registry st')"
    using run handle_command_grows assms(2) by (metis nodes_le_refl)
  show "handled (sh_registry st') = handled (sh_registry st)"
    using run handle_command_same[OF assms(2)] same_handled by blast
  show "subscribed (sh_subscribers st') \<subseteq> insert fd (subscribed (sh_subscribers st))"
  proof (cases "st' = st")
    case False
    then have "handle_command fd (ci_line i) (ci_reads i) st = Inr (close, reply, st')" using run by blast
    then show ?thesis
    proof (cases rule: handle_command_effect)
      case (subscribe rc subs)
      then show ?thesis using subscribed_add[of fd "sh_subscribers st"] by simp
    qed auto
  qed auto
qed

section \<open>The invariant\<close>

definition counts_wf :: "server_state \<Rightarrow> bool" where
  "counts_wf s =
     (sv_clients s = int (length (open_sockets s) + sv_closed s) \<and> sv_clients s \<le> MAX_CLIENTS \<and>
      sv_workers s = int (sv_running s) \<and> sv_workers s \<le> MAX_WORKERS)"

definition sockets_wf :: "server_state \<Rightarrow> bool" where
  "sockets_wf s =
     (distinct (open_sockets s) \<and> 0 \<notin> set (open_sockets s) \<and>
      subscribed (sh_subscribers (sv_shared s)) \<subseteq> set (sv_serving s) \<union> set (sv_leaving s))"

definition pending_wf :: "server_state \<Rightarrow> bool" where
  "pending_wf s = (length (sv_pending s) \<le> 5 \<and> (\<forall>a \<in> set (sv_pending s). alert_ok a))"

definition server_inv :: "server_state \<Rightarrow> bool" where
  "server_inv s =
     (shared_wf (sv_shared s) \<and> accounts_ok (sh_registry (sv_shared s)) \<and> health_wf (sv_health s) \<and>
      handled (sh_registry (sv_shared s)) = int (sv_received s) \<and> pending_wf s \<and> sockets_wf s \<and> counts_wf s)"

lemmas server_inv_defs = server_inv_def counts_wf_def sockets_wf_def pending_wf_def open_sockets_def

lemma subscribed_init: "subscribed subscribers_init = {}"
  by (simp add: subscribed_def subscribers_init_def)

lemma handled_init: "handled (registry_init now sec nsec) = 0"
  by (simp add: handled_def known_datagrams_def per_node_total_def registry_init_def zero_node_def
      map_replicate sum_list_replicate)

lemma server_init_inv: "server_inv (server_init now sec nsec)"
  using registry_init_wf accounts_init subscribers_init_wf health_init_wf
  by (simp add: server_inv_defs server_init_def shared_wf_def subscribed_init handled_init MAX_CLIENTS_def MAX_WORKERS_def)

lemma main_server_inv: "main_server up = Some s \<Longrightarrow> server_inv s"
  using server_init_inv by (auto simp: main_server_def Let_def split: if_splits)

lemma drain_pop_keeps:
  assumes "subs_wf st" and "fd \<noteq> 0"
  shows "subs_wf (snd (drain_pop fd st))"
proof (cases "queue_of fd st = None \<or> queue_of fd st = Some []")
  case True
  then show ?thesis using drain_pop_none[OF assms] assms(1) by simp
next
  case False
  then obtain l ls where "queue_of fd st = Some (l # ls)" by (metis list.exhaust option.exhaust)
  then show ?thesis using drain_pop_some[OF assms] by (metis snd_conv)
qed

text \<open>Moving a socket from one list to the next.\<close>

lemma move_socket:
  assumes "fd \<in> set xs"
  shows "set (remove1 fd xs) \<union> {fd} = set xs" and "length xs = Suc (length (remove1 fd xs))"
proof -
  show "set (remove1 fd xs) \<union> {fd} = set xs"
    using assms by (induction xs) auto
  have "0 < length xs" using assms by auto
  then show "length xs = Suc (length (remove1 fd xs))" using assms by (simp add: length_remove1)
qed

lemma accept_client_bounds:
  assumes "accept_client m c n = (outcome, n')" and "n \<le> MAX_CLIENTS"
  shows "n' = (if outcome = Started then n + 1 else n) \<and> n' \<le> MAX_CLIENTS"
  using assms by (auto simp: accept_client_def Let_def split: if_splits)

lemma accept_worker_bounds:
  assumes "accept_worker m c n = (started, n')" and "n \<le> MAX_WORKERS"
  shows "n' = (if started then n + 1 else n) \<and> n' \<le> MAX_WORKERS"
  using assms by (auto simp: accept_worker_def Let_def split: if_splits)

lemma server_step_inv:
  assumes inv: "server_inv s" and step: "server_step s t"
  shows "server_inv t"
  using step
proof (cases rule: server_step.cases)
  case (datagram now clk payload new_alerts reg)
  then show ?thesis
    using inv udp_datagram_keeps[OF datagram(3)] udp_datagram_handled[OF _ datagram(3)]
    by (simp add: server_inv_defs shared_wf_def)
next
  case (broadcast a rest shut subs)
  then have "subs = snd (subscribers_broadcast a (sh_subscribers (sv_shared s)))" by simp
  then show ?thesis
    using inv broadcast subscribers_broadcast_wf[of "sh_subscribers (sv_shared s)" a] subscribed_broadcast[of a "sh_subscribers (sv_shared s)"]
    by (auto simp: server_inv_defs shared_wf_def)
next
  case (accepted fd m c outcome n)
  then show ?thesis
    using inv accept_client_bounds[OF accepted(4)] by (auto simp: server_inv_defs)
next
  case (drained fd line subs)
  then have "subs = snd (drain_pop fd (sh_subscribers (sv_shared s)))" by simp
  then show ?thesis
    using inv drained drain_pop_keeps[of "sh_subscribers (sv_shared s)" fd] subscribed_pop[of fd "sh_subscribers (sv_shared s)"]
    by (auto simp: server_inv_defs shared_wf_def)
next
  case (drain_failed fd)
  then show ?thesis using inv move_socket[OF drain_failed(2)] by (auto simp: server_inv_defs)
next
  case (turn fd i reply shared)
  then have "fd \<noteq> 0" using inv by (auto simp: server_inv_defs)
  then show ?thesis using inv turn client_turn_keeps[OF turn(3)] by (auto simp: server_inv_defs)
next
  case (last_turn fd i reply shared)
  then have "fd \<noteq> 0" using inv by (auto simp: server_inv_defs)
  then show ?thesis
    using inv last_turn client_turn_keeps[OF last_turn(3)] move_socket[OF last_turn(2)] by (auto simp: server_inv_defs)
next
  case (removed fd)
  then show ?thesis
    using inv move_socket[OF removed(2)] subscribers_remove_wf
      subscribed_remove[of fd "sh_subscribers (sv_shared s)"]
    by (auto simp: server_inv_defs shared_wf_def)
next
  case (closed fd)
  then show ?thesis using inv move_socket[OF closed(2)] by (auto simp: server_inv_defs)
next
  case (request m c started n)
  then show ?thesis using inv accept_worker_bounds[OF request(2)] by (auto simp: server_inv_defs)
qed (use inv in \<open>auto simp: server_inv_defs service_heartbeat_wf\<close>)

section \<open>The contracts of the transition system\<close>

text \<open>A state \<open>main\<close> can start from.\<close>

definition server_start :: "server_state \<Rightarrow> bool" where
  "server_start s = (\<exists>up. main_server up = Some s)"

interpretation server: machine server_start server_step server_inv
  by unfold_locales (auto simp: server_start_def intro: main_server_inv server_step_inv)

text \<open>The order of the runs: sessions only grow, and datagrams are only added.\<close>

definition server_le :: "server_state \<Rightarrow> server_state \<Rightarrow> bool" where
  "server_le s t = (nodes_le (sh_registry (sv_shared s)) (sh_registry (sv_shared t)) \<and> sv_received s \<le> sv_received t)"

lemma server_step_le:
  assumes inv: "server_inv s" and step: "server_step s t"
  shows "server_le s t"
  using step
proof (cases rule: server_step.cases)
  case (datagram now clk payload new_alerts reg)
  then show ?thesis
    using inv udp_datagram_keeps(3)[OF datagram(3)] by (simp add: server_le_def server_inv_defs shared_wf_def)
next
  case (turn fd i reply shared)
  then have "fd \<noteq> 0" using inv by (auto simp: server_inv_defs)
  then show ?thesis using inv turn client_turn_keeps(3)[OF turn(3)] by (simp add: server_le_def server_inv_def)
next
  case (last_turn fd i reply shared)
  then have "fd \<noteq> 0" using inv by (auto simp: server_inv_defs)
  then show ?thesis using inv last_turn client_turn_keeps(3)[OF last_turn(3)] by (simp add: server_le_def server_inv_def)
qed (simp_all add: server_le_def)

interpretation server: ordered_machine server_start server_step server_inv server_le
proof unfold_locales
  show "server_le s s" for s by (simp add: server_le_def)
  show "server_le s t \<Longrightarrow> server_le t u \<Longrightarrow> server_le s u" for s t u
    using nodes_le_trans by (auto simp: server_le_def)
  show "server_inv s \<Longrightarrow> server_step s t \<Longrightarrow> server_le s t" for s t by (rule server_step_le)
qed

section \<open>A short run\<close>

definition demo_startup :: startup where
  "demo_startup =
     \<lparr>up_now = 100, up_sec = 5, up_nsec = 7, up_udp_fd = 3, up_udp_bind = 0, up_tcp_fd = 4, up_tcp_bind = 0,
      up_tcp_listen = 0, up_http_fd = 5, up_http_bind = 0, up_http_listen = 0, up_threads = (True, True, True)\<rparr>"

definition demo_line :: string where
  "demo_line = ''HELLO|node-1|'' @ demo_session"

definition demo_input :: client_input where
  "demo_input = \<lparr>ci_ready = 1, ci_received = 47, ci_line = demo_line, ci_reads = demo_reads\<rparr>"

definition demo_started :: server_state where
  "demo_started = server_init 100 5 7"

definition demo_connected :: server_state where
  "demo_connected = demo_started\<lparr>sv_clients := 1, sv_serving := [7]\<rparr>"

definition demo_registered :: server_state where
  "demo_registered = demo_connected\<lparr>sv_shared := \<lparr>sh_registry = one_node, sh_subscribers = subscribers_init\<rparr>\<rparr>"

lemma demo_main: "main_server demo_startup = Some demo_started"
  by (simp add: main_server_def demo_startup_def demo_started_def create_udp_socket_def create_tcp_listener_def
      bind_to_port_def)

lemma demo_accept: "server_step demo_started demo_connected"
proof -
  have a: "accept_client True True (sv_clients demo_started) = (Started, 1)"
    by (simp add: accept_client_def demo_started_def server_init_def MAX_CLIENTS_def)
  have n: "(7 :: int) \<noteq> 0" "7 \<notin> set (open_sockets demo_started)"
    by (simp_all add: open_sockets_def demo_started_def server_init_def)
  show ?thesis
    using server_step.accepted[OF n a] by (simp add: demo_connected_def) (simp add: demo_started_def server_init_def)
qed

lemma demo_hello: "server_step demo_connected demo_registered"
proof -
  have parse: "parse_message demo_line = Some \<lparr>pm_command = ''HELLO'', pm_args = [''node-1'', demo_session]\<rparr>"
    by code_simp
  have ids: "is_valid_node_id ''node-1''" "is_valid_session demo_session" by code_simp+
  have shared: "sv_shared demo_connected = \<lparr>sh_registry = registry_init 100 5 7, sh_subscribers = subscribers_init\<rparr>"
    by (simp add: demo_connected_def demo_started_def server_init_def)
  have "client_turn 7 demo_input (sv_shared demo_connected) =
      Inr (False, [''OK|REGISTERED''], \<lparr>sh_registry = one_node, sh_subscribers = subscribers_init\<rparr>)"
    using one_node_run ids
    by (simp add: client_turn_def demo_input_def handle_command_def parse shared dispatch_def expected_args_def
        command_hello_def)
  from server_step.turn[OF _ this] show ?thesis
    by (simp add: demo_registered_def) (simp add: demo_connected_def)
qed

lemma demo_run: "server_step\<^sup>*\<^sup>* demo_started demo_connected" "server_step\<^sup>*\<^sup>* demo_started demo_registered"
  using demo_accept demo_hello by (auto intro: rtranclp.rtrancl_into_rtrancl)

section \<open>Properties\<close>

text \<open>C1: in every state the server can reach by any interleaving of its threads, the shared state is
  well formed and its accounts hold; at most 64 connections are served, each with a socket of its
  own; only sockets whose thread still runs have a place in the table of subscribers, so a line
  never goes to a socket that was closed and given to another client; at most 16 requests are
  served; at most five alerts wait, all well formed; and the next datagram cannot cause undefined
  behaviour while the alert counter has room.\<close>

theorem server_invariant:
  assumes "main_server up = Some s" and "server_step\<^sup>*\<^sup>* s t"
  shows "shared_wf (sv_shared t) \<and> accounts_ok (sh_registry (sv_shared t)) \<and>
    length (sv_serving t) \<le> 64 \<and> distinct (open_sockets t) \<and>
    subscribed (sh_subscribers (sv_shared t)) \<subseteq> set (sv_serving t) \<union> set (sv_leaving t) \<and>
    sv_running t \<le> 16 \<and> length (sv_pending t) \<le> 5 \<and> list_all alert_ok (sv_pending t) \<and>
    (alerts_room (sh_registry (sv_shared t)) \<longrightarrow>
       no_fault (udp_datagram now clk payload (sh_registry (sv_shared t))))"
proof -
  have "server_start s" using assms(1) by (auto simp: server_start_def)
  then have inv: "server_inv t" using server.inv_reachable assms(2) by blast
  then have "reg_wf (sh_registry (sv_shared t))" by (simp add: server_inv_def shared_wf_def)
  then have "no_fault (udp_datagram now clk payload (sh_registry (sv_shared t)))"
    if "alerts_room (sh_registry (sv_shared t))"
    using udp_datagram_total[OF _ that] by (metis no_fault_Inr)
  then show ?thesis
    using inv by (simp add: server_inv_defs MAX_CLIENTS_def MAX_WORKERS_def list_all_iff)
qed

lemma server_invariant_witness:
  "subscribed (sh_subscribers (sv_shared demo_registered)) \<subseteq> set [7] \<and> length (sv_serving demo_registered) \<le> 64"
  using server_invariant[OF demo_main demo_run(2)]
  by (simp add: demo_registered_def demo_connected_def demo_started_def server_init_def)

text \<open>C3: every datagram the receiver took since the start is in the counters exactly once, in every
  reachable state and under any interleaving: as a new sequence number or a duplicate of a node, as
  unknown, or as invalid.\<close>

theorem every_datagram_accounted:
  assumes "main_server up = Some s" and "server_step\<^sup>*\<^sup>* s t"
  shows "(let r = st_registry (sh_registry (sv_shared t))
      in (\<Sum>n \<leftarrow> rg_nodes r. tn_datagrams_received n + tn_duplicates n) + rg_datagrams_unknown_node r +
         rg_datagrams_invalid r = int (sv_received t))"
proof -
  have "server_start s" using assms(1) by (auto simp: server_start_def)
  then have "server_inv t" using server.inv_reachable assms(2) by blast
  then show ?thesis
    by (simp add: server_inv_def handled_def known_datagrams_def per_node_total_def Let_def)
qed

lemma every_datagram_accounted_witness:
  "(\<Sum>n \<leftarrow> rg_nodes (st_registry one_node). tn_datagrams_received n + tn_duplicates n) = 0"
proof -
  have "rg_datagrams_unknown_node (st_registry one_node) = 0" "rg_datagrams_invalid (st_registry one_node) = 0"
    by (simp_all add: one_node_def upd_node_def registry_init_def)
  then show ?thesis
    using every_datagram_accounted[OF demo_main demo_run(2)]
    by (simp add: demo_registered_def demo_connected_def demo_started_def server_init_def Let_def)
qed

text \<open>C5: a session that was registered stays registered for the life of the server, whatever the
  clients do: its identifier keeps its session, no received sequence number is forgotten, no counter
  goes back, and after the final report its totals are fixed.\<close>

theorem sessions_survive:
  assumes "main_server up = Some s0" and "server_step\<^sup>*\<^sup>* s0 s" and "server_step\<^sup>*\<^sup>* s t"
    and "abs_nodes (sh_registry (sv_shared s)) node_id = Some v"
  shows "\<exists>w. abs_nodes (sh_registry (sv_shared t)) node_id = Some w \<and> view_le v w"
proof -
  have "server_start s0" using assms(1) by (auto simp: server_start_def)
  then have "server_inv s" using server.inv_reachable assms(2) by blast
  then have "server_le s t" using server.below_steps assms(3) by blast
  then show ?thesis using assms(4) by (auto simp: server_le_def nodes_le_def)
qed

lemma sessions_survive_witness:
  "\<exists>w. abs_nodes one_node ''node-1'' = Some w \<and> view_le (fresh_view demo_session) w"
proof -
  have reg: "sh_registry (sv_shared demo_registered) = one_node" by (simp add: demo_registered_def)
  have "abs_nodes (sh_registry (sv_shared demo_registered)) ''node-1'' = Some (fresh_view demo_session)"
    by (simp add: reg abs_one_node)
  from sessions_survive[OF demo_main demo_run(2) rtranclp.rtrancl_refl this] show ?thesis by (simp add: reg)
qed

end
