(* ===== verification/Spec2Isabelle.thy ===== *)
theory Spec2Isabelle
  imports Http_Service Main_Server
begin

text \<open>
  Verification of the telemetry server in C of \<^verbatim>\<open>server/\<close>.

  \<^bold>\<open>The program.\<close> Sensor nodes register over TCP (\<^verbatim>\<open>HELLO\<close>), send measurements as UDP datagrams
  (\<^verbatim>\<open>TELEMETRY\<close>) and report over TCP how many they sent (\<^verbatim>\<open>REPORT\<close>). Operators query the state and
  subscribe to alerts over TCP; a status page and three JSON views are served over HTTP. One
  receiver thread, one thread per TCP connection and up to 16 short workers share a registry
  of 64 nodes with a bitmap of received sequence numbers each, a ring of 128 alerts, a table of 32
  subscribers with a queue of 32 lines each, and two heartbeats; each is guarded by a lock of its own.

  \<^bold>\<open>Theories and code\<close>, in the order of the imports:

  \<^item> \<open>CBase\<close>: what the sources use of C (strings as character lists, bounded copies, \<open>snprintf\<close>,
    \<open>strtok_r\<close>, printed integers), undefined behaviour as a value (\<open>fault\<close>), the limits of
    \<^verbatim>\<open>config.h\<close>. \<open>Binary64\<close>: the type \<open>double\<close> as far as it is used, \<open>strtod\<close> and \<open>%.2f\<close>.
    \<open>Nearest64\<close>: what correct rounding is, and that \<open>strtod\<close> rounds correctly.
    \<open>Contracts\<close>: the interfaces between components as locales.
  \<^item> \<open>Protocol\<close> (\<^verbatim>\<open>telep_protocol.c\<close>): the parsers. \<open>Decimal_Print\<close>: reading back a printed value.
  \<^item> \<open>Registry\<close> (\<^verbatim>\<open>node_registry.c\<close>), with its invariant and the two interpretations it
    provides (bitmap and alert ring) in \<open>RegistryInv\<close>, one equation per operation in
    \<open>RegistryOps\<close>, and the abstract sessions it refines in \<open>RegistrySpec\<close>.
  \<^item> \<open>Subscribers\<close> (\<^verbatim>\<open>alert_subscribers.c\<close>): the table, and the drain under interference; it
    provides the queue contract.
  \<^item> \<open>Sockets\<close> (\<^verbatim>\<open>socket_helpers.c\<close>), \<open>Health\<close> (\<^verbatim>\<open>service_health.c\<close>), \<open>Formatting\<close>
    (\<^verbatim>\<open>response_format.c\<close>).
  \<^item> \<open>Tcp_Server\<close> (\<^verbatim>\<open>tcp_command_server.c\<close>), with the facts of its replies in \<open>Tcp_Facts\<close> and of
    its commands in \<open>Tcp_Props\<close>; \<open>Udp_Server\<close> (\<^verbatim>\<open>udp_telemetry_server.c\<close>).
  \<^item> \<open>Status_Page_Css\<close> (\<^verbatim>\<open>status_page_css.h\<close>), \<open>Http_Server\<close> and \<open>Http_Request\<close>
    (\<^verbatim>\<open>http_status_server.c\<close>: bodies, and requests), with the facts of the JSON bodies in
    \<open>Http_Json\<close>, of the page in \<open>Http_Page\<close>, and of a request end to end in \<open>Http_Service\<close>.
  \<^item> \<open>Main_Server\<close> (\<^verbatim>\<open>main.c\<close> and the loops of the threads): startup and the transition system
    whose steps are the locked sections; it interprets the contracts of a machine with an
    invariant and of an ordered one.

  \<^bold>\<open>State and operations.\<close> A struct is a record with the fields of the struct under a prefix
  (\<open>tn_\<close> for \<^verbatim>\<open>TelemetryNode\<close>, \<open>al_\<close> for \<^verbatim>\<open>Alert\<close>, \<open>rg_\<close> for \<^verbatim>\<open>RegistrySnapshot\<close>, \<open>sb_\<close> for
  \<^verbatim>\<open>Subscriber\<close>); the used prefix of an array with a count is a list; a definition has the name of
  its C function. What an operation reads from the system (clocks, results of system calls, success
  of \<open>malloc\<close> and \<open>pthread_create\<close>) is an argument; a loop over system calls takes the list of its
  turns and returns \<open>None\<close> when they run out before the loop ends, so that returning is a
  theorem. A write out of bounds, a signed overflow of the alert counter and a write through a null
  pointer are the values of \<open>fault\<close>.

  \<^bold>\<open>What the lemmas show.\<close>
  \<^item> Parsers: the messages and measurements accepted are exactly the ones described, every value is
    the binary64 nearest to the number written, ties to even, and rounding never moves it across a
    bound or a threshold.
  \<^item> Registry: every operation keeps the invariant and implements an operation on abstract sessions
    (a set of received sequence numbers and the totals reported); alerts are raised exactly when
    a value is above its threshold and the one the session held was not; every datagram is counted
    once.
  \<^item> Subscribers: a line is queued for every subscriber with room, and is taken by the
    connection in order and once, whatever other threads do in between; lines are lost only with a
    connection that is dropped because its queue was full.
  \<^item> Sockets: lines are read and written whole or not at all, within the buffer and the deadline.
  \<^item> Commands: the dispatcher is the table of the protocol, every line gets a printable reply that
    fits, and the listings announce what they send. A round of a connection is described from the
    bytes of its socket: when the loop is left, and the answer to every line.
  \<^item> Status server: a well-formed request gets the whole body of its path, any other input one of
    the refusals by the deadline, the headers read are exactly those within the limits (where a
    carriage return is not counted), and no body is ever cut: the buffer of 65536 bytes exceeds the
    bounds proved for the page (49900) and the JSON bodies (41666).
  \<^item> Whole server: an invariant of all reachable states (limits of connections and requests, no queue
    for a closed socket), the accounts of all datagrams, and that sessions only grow.

  \<^bold>\<open>Limits of the model.\<close> Numbers are unbounded integers; where the C type could overflow, either
  the fault is a branch (the alert counter) or the theorem assumes that the value fits a
  \<open>long\<close> (\<open>clocks_long\<close>, \<open>reads_ok\<close>: clocks and the counters of datagrams and duplicates).
  Recursions are structural or end by a measure on the input; no fuel is used, except that a list
  of turns ends.

  \<^bold>\<open>Not modelled.\<close> The timeouts given to \<open>poll\<close>: a turn of a loop has the clock and the result of
  the wait, and the theorems hold for every result. The log lines, \<open>signal\<close>, \<open>setvbuf\<close>, socket options and the final
  \<open>pthread_join\<close>: calls of the system without a result the program uses. The conversion of a time
  to the local time of day is the parameter \<open>clock_text\<close> of the page, assumed to give at most
  eight characters. Memory ordering and the locks themselves: a locked section is one step.
  The Python clients, the tests and the deployment files are not part of the server.
\<close>

end
